(* ===== verification/Redis_Base.thy ===== *)
theory Redis_Base
  imports Main "HOL-Library.Word" "HOL-Library.Monad_Syntax"
begin

text \<open>
  Prelude of the development: the types and the generic lemmas the components share.
  A computation that may hit an \<^verbatim>\<open>assert\<close> of the C code or touch memory outside the
  object it works on returns an \<^typ>\<open>'a option\<close>: \<^term>\<open>None\<close> stands for that abort.
\<close>

unbundle bit_operations_syntax

type_synonym byte = "8 word"
type_synonym u64 = "64 word"

named_theorems c_mem "laws of the memory primitives"

subsection \<open>The lowest set bit\<close>

lemma and_neg_odd: "odd k \<Longrightarrow> k AND - k = 1" for k :: int
proof -
  assume "odd k"
  then obtain m where k: "k = 2 * m + 1" by (elim oddE)
  have neg: "- k = 2 * (NOT m) + 1" by (simp add: k not_int_def)
  have "k AND - k = of_bool (odd k \<and> odd (- k)) + 2 * ((k div 2) AND ((- k) div 2))"
    by (rule and_rec)
  also have "k div 2 = m" by (simp add: k)
  also have "(- k) div 2 = NOT m" by (simp add: neg)
  finally show "k AND - k = 1" using \<open>odd k\<close> by simp
qed

lemma and_neg_even: "(2 * m) AND - (2 * m) = 2 * (m AND - m)" for m :: int
proof -
  have half: "(- (2 * m)) div 2 = - m" by simp
  show ?thesis by (subst and_rec) (simp add: half del: mult_minus_right)
qed

lemma and_neg_pow: "(2 ^ t * (2 * a + 1)) AND - (2 ^ t * (2 * a + 1)) = (2 ^ t :: int)"
proof (induction t)
  case 0
  show ?case using and_neg_odd [of "2 * a + 1"] by simp
next
  case (Suc t)
  show ?case using and_neg_even [of "2 ^ t * (2 * a + 1)"] Suc.IH
    by (simp add: algebra_simps)
qed

lemma pow2_odd_split: "0 < (k::nat) \<Longrightarrow> \<exists>t a. k = 2 ^ t * (2 * a + 1)"
proof (induction k rule: less_induct)
  case (less k)
  show ?case
  proof (cases "even k")
    case True
    then obtain m where m: "k = 2 * m" by (elim evenE)
    with less.prems obtain t a where "m = 2 ^ t * (2 * a + 1)"
      using less.IH [of m] by auto
    then have "k = 2 ^ Suc t * (2 * a + 1)" using m by simp
    then show ?thesis by blast
  next
    case False
    then obtain m where "k = 2 ^ 0 * (2 * m + 1)" by (auto elim: oddE)
    then show ?thesis by blast
  qed
qed

definition lbit :: "nat \<Rightarrow> nat" where
  "lbit k = nat (int k AND - int k)"

lemma lbit_pow: "lbit (2 ^ t * (2 * a + 1)) = 2 ^ t"
proof -
  have "int (2 ^ t * (2 * a + 1)) = 2 ^ t * (2 * int a + 1)" by (simp add: algebra_simps)
  then show ?thesis unfolding lbit_def by (simp only: and_neg_pow nat_power_eq) simp
qed

lemma and_neg_lbit: "0 \<le> k \<Longrightarrow> k AND - k = int (lbit (nat k))" for k :: int
  by (simp add: lbit_def)

lemma lbit_bounds:
  assumes "0 < k"
  shows "0 < lbit k" and "lbit k \<le> k"
proof -
  from pow2_odd_split [OF assms] obtain t a where k: "k = 2 ^ t * (2 * a + 1)" by blast
  show "0 < lbit k" and "lbit k \<le> k" unfolding k lbit_pow by simp_all
qed

lemma lbit_between:
  assumes "0 < k" and "k < m" and "m < k + lbit k"
  shows "k \<le> m - lbit m"
proof -
  from pow2_odd_split [OF assms(1)] obtain t a where k: "k = 2 ^ t * (2 * a + 1)" by blast
  from pow2_odd_split [of "m - k"] assms(2) obtain s b where
    r: "m - k = 2 ^ s * (2 * b + 1)" by auto
  have "m - k < 2 ^ t" using assms(2,3) unfolding k lbit_pow by simp
  moreover have "(2::nat) ^ s \<le> m - k" by (simp add: r)
  ultimately have "(2::nat) ^ s < 2 ^ t" by (rule order.strict_trans1 [rotated])
  then have "s < t" by simp
  then obtain u where t: "t = Suc (s + u)" by (metis less_iff_Suc_add)
  have "m = k + (m - k)" using assms(2) by simp
  also have "\<dots> = 2 ^ s * (2 * (2 ^ u * (2 * a + 1) + b) + 1)"
    unfolding r by (simp add: k t power_add algebra_simps)
  finally have "lbit m = 2 ^ s" by (simp only: lbit_pow)
  then show ?thesis using \<open>2 ^ s \<le> m - k\<close> assms(2) by simp
qed

lemma lbit_parent:
  assumes "0 < k"
  shows "k + lbit k - lbit (k + lbit k) \<le> k - lbit k"
proof -
  from pow2_odd_split [OF assms] obtain t a where k: "k = 2 ^ t * (2 * a + 1)" by blast
  obtain u b where a: "a + 1 = 2 ^ u * (2 * b + 1)" using pow2_odd_split [of "a + 1"] by auto
  have "k + lbit k = 2 ^ Suc t * (a + 1)" unfolding k lbit_pow by (simp add: algebra_simps)
  also have "\<dots> = 2 ^ (Suc t + u) * (2 * b + 1)" by (simp only: a power_add mult.assoc)
  finally have "lbit (k + lbit k) = 2 ^ (Suc t + u)" by (simp only: lbit_pow)
  moreover have "(2::nat) ^ Suc t \<le> 2 ^ (Suc t + u)" by simp
  ultimately have "2 * lbit k \<le> lbit (k + lbit k)" unfolding k lbit_pow by simp
  then show ?thesis by simp
qed

lemma lbit_dvd: "0 < i \<Longrightarrow> i < 2 ^ t \<Longrightarrow> lbit (2 ^ t * a + i) = lbit i"
proof -
  assume "0 < i" and i: "i < 2 ^ t"
  from pow2_odd_split [OF \<open>0 < i\<close>] obtain s b where ib: "i = 2 ^ s * (2 * b + 1)" by blast
  have "(2::nat) ^ s \<le> i" by (simp add: ib)
  from this i have "(2::nat) ^ s < 2 ^ t" by (rule order.strict_trans1)
  then have "s < t" by simp
  then obtain u where t: "t = Suc (s + u)" by (metis less_iff_Suc_add)
  have "2 ^ t * a + i = 2 ^ s * (2 * (2 ^ u * a + b) + 1)"
    by (simp add: ib t power_add algebra_simps)
  then show ?thesis unfolding ib by (simp only: lbit_pow)
qed

lemma lbit_two_pow [simp]: "lbit (2 ^ t) = 2 ^ t"
  using lbit_pow [of t 0] by simp

end
