(* ===== verification/Bytes.thy ===== *)
theory Bytes
  imports Redis_Base
begin

text \<open>
  Byte buffers: bounds-checked reads and writes (\<^verbatim>\<open>p[i]\<close>, \<^verbatim>\<open>memcpy\<close>, \<^verbatim>\<open>memmove\<close>),
  \<^verbatim>\<open>realloc\<close>, and the little-endian reading of integers. An access outside the buffer is
  \<^term>\<open>None\<close>; a proof that an operation returns \<^term>\<open>Some\<close> is a proof that it stays inside.
\<close>

unbundle bit_operations_syntax

type_synonym bytes = "byte list"

definition rd :: "bytes \<Rightarrow> nat \<Rightarrow> byte option" where
  "rd m i = (if i < length m then Some (m ! i) else None)"

definition slice :: "bytes \<Rightarrow> nat \<Rightarrow> nat \<Rightarrow> bytes" where
  "slice m off n = take n (drop off m)"

definition splice_at :: "bytes \<Rightarrow> nat \<Rightarrow> bytes \<Rightarrow> bytes" where
  "splice_at m off bs = take off m @ bs @ drop (off + length bs) m"

definition rdn :: "bytes \<Rightarrow> nat \<Rightarrow> nat \<Rightarrow> bytes option" where
  "rdn m off n = (if off + n \<le> length m then Some (slice m off n) else None)"

definition wrn :: "bytes \<Rightarrow> nat \<Rightarrow> bytes \<Rightarrow> bytes option" where
  "wrn m off bs = (if off + length bs \<le> length m then Some (splice_at m off bs) else None)"

definition memmove :: "bytes \<Rightarrow> nat \<Rightarrow> nat \<Rightarrow> nat \<Rightarrow> bytes option" where
  "memmove m dst src n = do { bs \<leftarrow> rdn m src n; wrn m dst bs }"

text \<open>\<^verbatim>\<open>realloc\<close>: keeps the common prefix; fresh bytes are modelled as zero.\<close>

definition realloc :: "bytes \<Rightarrow> nat \<Rightarrow> bytes" where
  "realloc m n = take n m @ replicate (n - length m) 0"

lemma length_splice_at [simp]: "off + length bs \<le> length m \<Longrightarrow> length (splice_at m off bs) = length m"
  by (simp add: splice_at_def)

lemma length_slice [simp]: "off + n \<le> length m \<Longrightarrow> length (slice m off n) = n"
  by (simp add: slice_def)

lemma length_realloc [simp]: "length (realloc m n) = n"
  by (simp add: realloc_def)

lemma slice_splice_same [c_mem]:
  "off + length bs \<le> length m \<Longrightarrow> slice (splice_at m off bs) off (length bs) = bs"
  by (simp add: slice_def splice_at_def)

lemma slice_splice_before [c_mem]:
  "off + length bs \<le> length m \<Longrightarrow> o' + n \<le> off \<Longrightarrow> slice (splice_at m off bs) o' n = slice m o' n"
  by (simp add: slice_def splice_at_def take_drop)

lemma slice_splice_after [c_mem]:
  assumes "off + length bs \<le> length m" and "off + length bs \<le> o'"
  shows "slice (splice_at m off bs) o' n = slice m o' n"
proof -
  obtain k where k: "o' = off + length bs + k" using assms(2) le_Suc_ex by blast
  show ?thesis using assms(1) by (simp add: slice_def splice_at_def k add.commute add.left_commute)
qed

lemma slice_realloc [c_mem]:
  "off + k \<le> length m \<Longrightarrow> off + k \<le> n \<Longrightarrow> slice (realloc m n) off k = slice m off k"
  by (simp add: slice_def realloc_def take_drop add.commute min_def)

lemma slice_append_left: "off + n \<le> length a \<Longrightarrow> slice (a @ b) off n = slice a off n"
  by (simp add: slice_def)

lemma slice_all: "slice m 0 (length m) = m"
  by (simp add: slice_def)

lemma slice_slice: "o2 + n2 \<le> n1 \<Longrightarrow> slice (slice m o1 n1) o2 n2 = slice m (o1 + o2) n2"
  by (simp add: slice_def take_drop min_def add.commute add.left_commute)

text \<open>
  The two moves behind every insertion and deletion inside a buffer: open a gap in front of
  \<open>B\<close> and fill it, and close the gap that \<open>X\<close> leaves.
\<close>

lemma insert_gap:
  assumes "length W = length Z"
  shows "splice_at (splice_at (A @ B @ Z) (length A + length Z) B) (length A) W = A @ W @ B"
proof -
  have 1: "splice_at (A @ B @ Z) (length A + length Z) B = take (length A + length Z) (A @ B @ Z) @ B"
    by (simp add: splice_at_def)
  have 2: "length (take (length A + length Z) (A @ B @ Z)) = length A + length Z" by simp
  have "take (length A) (take (length A + length Z) (A @ B @ Z) @ B) = A" by simp
  moreover have "drop (length A + length W) (take (length A + length Z) (A @ B @ Z) @ B) = B"
    using 2 assms by (simp del: length_take)
  ultimately show ?thesis unfolding 1 by (subst splice_at_def) simp
qed

lemma splice_append:
  assumes "off + length a + length b \<le> length m"
  shows "splice_at (splice_at m (off + length a) b) off a = splice_at m off (a @ b)"
proof -
  have "drop (off + length a) (splice_at m (off + length a) b) = b @ drop (off + length a + length b) m"
    using assms by (simp add: splice_at_def)
  moreover have "take off (splice_at m (off + length a) b) = take off m"
    using assms by (simp add: splice_at_def min_def)
  ultimately show ?thesis by (simp add: splice_at_def [of _ off] add.assoc)
qed

lemma delete_gap: "take (length A + length B) (splice_at (A @ X @ B) (length A) B) = A @ B"
  by (simp add: splice_at_def)

lemma rdn_middle: "rdn (A @ B @ C) (length A) (length B) = Some B"
  by (simp add: rdn_def slice_def)

subsection \<open>Arrays of records of one size\<close>

lemma slice_concat:
  assumes "\<And>x. x \<in> set xs \<Longrightarrow> length (f x) = k" and "i < length xs"
  shows "slice (concat (map f xs)) (i * k) k = f (xs ! i)"
  using assms
proof (induction xs arbitrary: i)
  case (Cons x xs)
  show ?case
  proof (cases i)
    case 0
    then show ?thesis using Cons.prems by (simp add: slice_def)
  next
    case (Suc j)
    then have "slice (concat (map f xs)) (j * k) k = f (xs ! j)"
      using Cons.prems by (intro Cons.IH) auto
    then show ?thesis using Cons.prems Suc by (simp add: slice_def)
  qed
qed simp

lemma length_concat_const:
  "(\<And>x. x \<in> set xs \<Longrightarrow> length (f x) = k) \<Longrightarrow> length (concat (map f xs)) = length xs * k"
  by (induction xs) auto

lemma concat_eqI:
  assumes "length m = length xs * k"
    and "\<And>i. i < length xs \<Longrightarrow> slice m (i * k) k = f (xs ! i)"
  shows "m = concat (map f xs)"
  using assms
proof (induction xs arbitrary: m)
  case (Cons x xs)
  have hd: "take k m = f x" using Cons.prems(2) [of 0] by (simp add: slice_def)
  have "drop k m = concat (map f xs)"
  proof (rule Cons.IH)
    show "length (drop k m) = length xs * k" using Cons.prems(1) by simp
    fix i
    assume "i < length xs"
    then show "slice (drop k m) (i * k) k = f (xs ! i)"
      using Cons.prems(2) [of "Suc i"] by (simp add: slice_def add.commute)
  qed
  then show ?case using hd by (metis append_take_drop_id concat.simps(2) list.simps(9))
qed simp

subsection \<open>Little-endian integers\<close>

primrec le_bytes :: "nat \<Rightarrow> int \<Rightarrow> bytes" where
  "le_bytes 0 v = []"
| "le_bytes (Suc n) v = word_of_int v # le_bytes n (v div 256)"

lemma le_bytes_numeral:
  "le_bytes (numeral k) v = word_of_int v # le_bytes (pred_numeral k) (v div 256)"
  by (simp add: numeral_eq_Suc)

primrec le_uint :: "bytes \<Rightarrow> int" where
  "le_uint [] = 0"
| "le_uint (b # bs) = uint b + 256 * le_uint bs"

definition le_sint :: "bytes \<Rightarrow> int" where
  "le_sint bs = (let u = le_uint bs; h = 256 ^ length bs
                 in if 2 * u < h then u else u - h)"

definition int_fits :: "nat \<Rightarrow> int \<Rightarrow> bool" where
  "int_fits n v \<longleftrightarrow> - (256 ^ n) \<le> 2 * v \<and> 2 * v < 256 ^ n"

lemma length_le_bytes [simp]: "length (le_bytes n v) = n"
  by (induction n arbitrary: v) auto

lemma uint_word_of_int_8: "uint (word_of_int v :: byte) = v mod 256"
  by (simp add: uint_word_of_int)

lemma le_uint_nonneg: "0 \<le> le_uint bs"
  by (induction bs) auto

lemma uint_byte_less: "uint (b :: byte) < 256"
  using uint_bounded [of b] by simp

lemma le_uint_less: "le_uint bs < 256 ^ length bs"
proof (induction bs)
  case (Cons b bs)
  have "uint b + 256 * le_uint bs < 256 * (le_uint bs + 1)" using uint_byte_less [of b] by simp
  also have "\<dots> \<le> 256 * 256 ^ length bs" using Cons by simp
  finally show ?case by simp
qed simp

lemma le_uint_le_bytes: "le_uint (le_bytes n v) = v mod 256 ^ n"
proof (induction n arbitrary: v)
  case (Suc n)
  have "v mod (256 * 256 ^ n) = 256 * (v div 256 mod 256 ^ n) + v mod 256"
    by (rule zmod_zmult2_eq) simp
  then show ?case using Suc by (simp add: uint_word_of_int_8)
qed simp

lemma le_sint_le_bytes:
  assumes "int_fits n v"
  shows "le_sint (le_bytes n v) = v"
proof (cases "0 \<le> v")
  case True
  then have "v mod 256 ^ n = v" using assms by (simp add: int_fits_def)
  with assms True show ?thesis by (simp add: le_sint_def le_uint_le_bytes int_fits_def)
next
  case False
  have "v mod 256 ^ n = (v + 256 ^ n) mod 256 ^ n" by simp
  also have "\<dots> = v + 256 ^ n" using assms False by (intro mod_pos_pos_trivial) (auto simp: int_fits_def)
  finally show ?thesis using assms False by (simp add: le_sint_def le_uint_le_bytes int_fits_def)
qed

lemma le_bytes_le_uint: "le_bytes (length bs) (le_uint bs) = bs"
proof (induction bs)
  case (Cons b bs)
  have "(uint b + 256 * le_uint bs) div 256 = le_uint bs"
    using uint_byte_less [of b] by (simp add: div_add1_eq)
  moreover have "word_of_int (uint b + 256 * le_uint bs) = b"
  proof (rule word_uint_eqI)
    have "(uint b + 256 * le_uint bs) mod 256 = uint b" using uint_byte_less [of b] by simp
    then show "uint (word_of_int (uint b + 256 * le_uint bs) :: byte) = uint b"
      by (simp only: uint_word_of_int_8)
  qed
  ultimately show ?case using Cons by simp
qed simp

lemma le_bytes_cong: "v mod 256 ^ n = w mod 256 ^ n \<Longrightarrow> le_bytes n v = le_bytes n w"
  by (metis le_uint_le_bytes le_bytes_le_uint length_le_bytes)

lemma le_sint_mod: "le_sint bs mod 256 ^ length bs = le_uint bs"
  using le_uint_less [of bs] le_uint_nonneg [of bs] by (auto simp: le_sint_def Let_def)

lemma le_bytes_le_sint: "le_bytes (length bs) (le_sint bs) = bs"
  by (metis le_sint_mod le_uint_less le_uint_nonneg mod_pos_pos_trivial le_bytes_cong le_bytes_le_uint)

lemma le_sint_fits: "bs \<noteq> [] \<Longrightarrow> int_fits (length bs) (le_sint bs)"
  using le_uint_less [of bs] le_uint_nonneg [of bs] by (auto simp: le_sint_def Let_def int_fits_def)

lemma int_fits_mono:
  assumes "int_fits n v" and "n \<le> m"
  shows "int_fits m v"
proof -
  have "(256::int) ^ n \<le> 256 ^ m" using assms(2) by (rule power_increasing) simp
  with assms(1) show ?thesis unfolding int_fits_def by linarith
qed

subsection \<open>C integer conversions\<close>

definition u32 :: "int \<Rightarrow> int" where
  "u32 x = x mod 2 ^ 32"

definition i32 :: "int \<Rightarrow> int" where
  "i32 x = (x + 2 ^ 31) mod 2 ^ 32 - 2 ^ 31"

lemma u32_id: "0 \<le> x \<Longrightarrow> x < 2 ^ 32 \<Longrightarrow> u32 x = x"
  by (simp add: u32_def)

lemma i32_id: "- (2 ^ 31) \<le> x \<Longrightarrow> x < 2 ^ 31 \<Longrightarrow> i32 x = x"
  by (simp add: i32_def)

subsection \<open>Bit fields of a byte\<close>

lemma unat_byte_less: "unat (b :: byte) < 256"
  using unsigned_less [of b, where 'a = nat] by simp

lemma and_high_bits: "unat (b AND NOT (mask k) :: byte) = unat b div 2 ^ k * 2 ^ k"
proof -
  have "b AND NOT (mask k) = push_bit k (drop_bit k b)"
    by (auto intro!: bit_eqI simp: bit_simps)
  moreover have u: "unat (drop_bit k b) = unat b div 2 ^ k"
    by (simp only: unat_drop_bit_eq drop_bit_nat_def)
  moreover have "unat b div 2 ^ k * 2 ^ k < 256"
    using unat_byte_less [of b] by (rule le_less_trans [OF div_times_less_eq_dividend])
  ultimately show ?thesis
    by (simp only: unsigned_push_bit_eq u take_bit_nat_def push_bit_nat_def) simp
qed

lemma and_high_eq:
  "b AND NOT (mask k) = (c :: byte) \<longleftrightarrow> unat b div 2 ^ k * 2 ^ k = unat c"
  by (simp only: word_unat_eq_iff and_high_bits)

lemma and_low_bits: "unat (b AND mask k :: byte) = unat b mod 2 ^ k"
  by (simp only: take_bit_eq_mask [symmetric] unsigned_take_bit_eq take_bit_nat_def)

lemma or_low:
  fixes x :: nat
  assumes "x < 2 ^ k"
  shows "x OR push_bit k y = x + y * 2 ^ k"
proof -
  have "\<not> bit x n \<or> \<not> bit (push_bit k y) n" for n
  proof (cases "n < k")
    case False
    then have "x < 2 ^ n" using assms
      by (meson not_less order_less_le_trans power_increasing one_le_numeral)
    then show ?thesis by (simp add: bit_iff_odd)
  qed (simp add: bit_push_bit_iff_nat)
  then show ?thesis by (simp add: disjunctive_add [symmetric] push_bit_eq_mult)
qed
lemma and_low_nat: "x AND mask k = x mod 2 ^ k" for x :: nat
  by (simp flip: take_bit_eq_mask add: take_bit_eq_mod)

lemma or_high_byte:
  assumes "x < 2 ^ k" "x + y * 2 ^ k < 256"
  shows "unat (of_nat x OR push_bit k (of_nat y) :: byte) = x + y * 2 ^ k"
proof -
  have "(of_nat x OR push_bit k (of_nat y) :: byte) = of_nat (x OR push_bit k y)"
    by (simp only: of_nat_or_eq of_nat_push_bit)
  then show ?thesis using assms by (simp only: or_low unat_of_nat) simp
qed

subsection \<open>Reading inside a larger buffer\<close>

text \<open>
  A computation that succeeds on a buffer succeeds, with a related result, on every buffer that
  contains it: the rules lift this from the reads to whole decoders.
\<close>

definition opt_sim :: "('a \<Rightarrow> 'b \<Rightarrow> bool) \<Rightarrow> 'a option \<Rightarrow> 'b option \<Rightarrow> bool" where
  "opt_sim R x y \<longleftrightarrow> (\<forall>v. x = Some v \<longrightarrow> (\<exists>w. y = Some w \<and> R v w))"

lemma opt_simD: "opt_sim R x y \<Longrightarrow> x = Some v \<Longrightarrow> \<exists>w. y = Some w \<and> R v w"
  by (simp add: opt_sim_def)

lemma opt_sim_Some: "R v w \<Longrightarrow> opt_sim R (Some v) (Some w)"
  by (simp add: opt_sim_def)

lemma opt_sim_bind:
  "opt_sim (=) x y \<Longrightarrow> (\<And>v. opt_sim R (f v) (g v)) \<Longrightarrow> opt_sim R (x \<bind> f) (y \<bind> g)"
  by (cases x; cases y) (auto simp: opt_sim_def)

lemma opt_sim_map:
  "opt_sim (=) x y \<Longrightarrow> (\<And>v. R (f v) (g v)) \<Longrightarrow> opt_sim R (map_option f x) (map_option g y)"
  by (cases x; cases y) (auto simp: opt_sim_def)

lemma opt_sim_if:
  "opt_sim R x y \<Longrightarrow> opt_sim R x' y' \<Longrightarrow> opt_sim R (if c then x else x') (if c then y else y')"
  by simp

lemma rd_extend: "opt_sim (=) (rd m i) (rd (a @ m @ b) (length a + i))"
  by (auto simp: opt_sim_def rd_def nth_append)

lemma rdn_extend: "opt_sim (=) (rdn m i n) (rdn (a @ m @ b) (length a + i) n)"
  by (auto simp: opt_sim_def rdn_def slice_def)

lemma rd_append: "rd (a @ b) (length a + i) = rd b i"
  by (simp add: rd_def nth_append)

lemmas opt_sim_intros = opt_sim_bind opt_sim_if opt_sim_map opt_sim_Some

end
