(* ===== verification/Set_Store.thy ===== *)
theory Set_Store
  imports Main
begin

text \<open>
  The interface of a container that stands for a set of integers (the integer-encoded set
  value of \<^verbatim>\<open>t_set.c\<close> uses an intset through it): what \<^verbatim>\<open>add\<close>, \<^verbatim>\<open>remove\<close> and \<^verbatim>\<open>find\<close> promise, and
  what a sequence of them then gives. An operation returns \<^term>\<open>None\<close> when it aborts.
\<close>

datatype set_op = SAdd int | SRem int

primrec set_op_val :: "set_op \<Rightarrow> int" where
  "set_op_val (SAdd v) = v"
| "set_op_val (SRem v) = v"

primrec set_op_abs :: "set_op \<Rightarrow> int set \<Rightarrow> int set" where
  "set_op_abs (SAdd v) S = insert v S"
| "set_op_abs (SRem v) S = S - {v}"

primrec run_set_ops ::
  "('s \<Rightarrow> int \<Rightarrow> ('s \<times> bool) option) \<Rightarrow> ('s \<Rightarrow> int \<Rightarrow> ('s \<times> bool) option) \<Rightarrow>
   set_op list \<Rightarrow> 's \<Rightarrow> 's option" where
  "run_set_ops add rem [] s = Some s"
| "run_set_ops add rem (x # xs) s =
     Option.bind (case x of SAdd v \<Rightarrow> add s v | SRem v \<Rightarrow> rem s v) (\<lambda>(s', _). run_set_ops add rem xs s')"

locale set_store =
  fixes rep :: "'s \<Rightarrow> int list \<Rightarrow> bool"
    and add rem :: "'s \<Rightarrow> int \<Rightarrow> ('s \<times> bool) option"
    and find :: "'s \<Rightarrow> int \<Rightarrow> bool option"
    and val :: "int \<Rightarrow> bool"
    and cap :: nat
  assumes add_law: "rep s xs \<Longrightarrow> val v \<Longrightarrow> length xs < cap \<Longrightarrow>
      \<exists>s' xs'. add s v = Some (s', v \<notin> set xs) \<and> rep s' xs' \<and> set xs' = insert v (set xs) \<and>
        length xs' \<le> length xs + 1"
    and rem_law: "rep s xs \<Longrightarrow> val v \<Longrightarrow>
      \<exists>s' xs'. rem s v = Some (s', v \<in> set xs) \<and> rep s' xs' \<and> set xs' = set xs - {v} \<and>
        length xs' \<le> length xs"
    and find_law: "rep s xs \<Longrightarrow> val v \<Longrightarrow> find s v = Some (v \<in> set xs)"
begin

lemma run_law:
  "rep s xs \<Longrightarrow> \<forall>x \<in> set ops. val (set_op_val x) \<Longrightarrow> length xs + length ops \<le> cap \<Longrightarrow>
   \<exists>s' xs'. run_set_ops add rem ops s = Some s' \<and> rep s' xs' \<and> set xs' = fold set_op_abs ops (set xs)"
proof (induction ops arbitrary: s xs)
  case Nil
  then show ?case by auto
next
  case (Cons x ops)
  show ?case
  proof (cases x)
    case (SAdd v)
    then obtain s' xs' where s': "add s v = Some (s', v \<notin> set xs)" "rep s' xs'"
      "set xs' = insert v (set xs)" "length xs' \<le> length xs + 1"
      using add_law [OF Cons.prems(1), of v] Cons.prems(2,3) by auto
    then show ?thesis using Cons.IH [OF s'(2)] Cons.prems(2,3) SAdd by auto
  next
    case (SRem v)
    then obtain s' xs' where s': "rem s v = Some (s', v \<in> set xs)" "rep s' xs'"
      "set xs' = set xs - {v}" "length xs' \<le> length xs"
      using rem_law [OF Cons.prems(1), of v] Cons.prems(2) by auto
    then show ?thesis using Cons.IH [OF s'(2)] Cons.prems(2,3) SRem by auto
  qed
qed

lemma run_find:
  assumes "rep s []" and "\<forall>x \<in> set ops. val (set_op_val x)" and "length ops \<le> cap"
  shows "\<exists>s'. run_set_ops add rem ops s = Some s' \<and>
    (\<forall>v. val v \<longrightarrow> find s' v = Some (v \<in> fold set_op_abs ops {}))"
proof -
  obtain s' xs' where "run_set_ops add rem ops s = Some s'" "rep s' xs'" "set xs' = fold set_op_abs ops {}"
    using run_law [OF assms(1,2)] assms(3) by auto
  then show ?thesis using find_law by auto
qed

end

end
