(* ===== verification/Intset.thy ===== *)
theory Intset
  imports Bytes Set_Store
begin

text \<open>
  The sorted integer array of \<^verbatim>\<open>src/redis-stable/src/intset.c\<close>, down to the bytes of its
  \<^verbatim>\<open>contents\<close> on a little-endian host (where the \<^verbatim>\<open>memrevNNifbe\<close> macros do nothing).
  Values are the \<^verbatim>\<open>int64_t\<close> values as \<^typ>\<open>int\<close>; a conversion that can wrap is written out
  with \<^const>\<open>u32\<close> and \<^const>\<open>i32\<close>. \<^verbatim>\<open>_intsetGet\<close> and \<^verbatim>\<open>_intsetSet\<close> are \<open>intsetGet0\<close> and
  \<open>intsetSet0\<close>.
\<close>

record intset =
  encoding :: nat
  ilength :: nat
  contents :: bytes

definition intsetValueEncoding :: "int \<Rightarrow> nat" where
  "intsetValueEncoding v =
     (if v < -2147483648 \<or> v > 2147483647 then 8
      else if v < -32768 \<or> v > 32767 then 4
      else 2)"

definition intsetGetEncoded :: "intset \<Rightarrow> int \<Rightarrow> nat \<Rightarrow> int option" where
  "intsetGetEncoded is pos enc =
     (if pos < 0 then None
      else if enc = 8 then map_option le_sint (rdn (contents is) (nat pos * 8) 8)
      else if enc = 4 then map_option le_sint (rdn (contents is) (nat pos * 4) 4)
      else map_option le_sint (rdn (contents is) (nat pos * 2) 2))"

definition intsetGet0 :: "intset \<Rightarrow> int \<Rightarrow> int option" where
  "intsetGet0 is pos = intsetGetEncoded is pos (encoding is)"

definition intsetSet0 :: "intset \<Rightarrow> int \<Rightarrow> int \<Rightarrow> intset option" where
  "intsetSet0 is pos v =
     (if pos < 0 then None
      else if encoding is = 8 then
        map_option (\<lambda>c. is\<lparr>contents := c\<rparr>) (wrn (contents is) (nat pos * 8) (le_bytes 8 v))
      else if encoding is = 4 then
        map_option (\<lambda>c. is\<lparr>contents := c\<rparr>) (wrn (contents is) (nat pos * 4) (le_bytes 4 v))
      else
        map_option (\<lambda>c. is\<lparr>contents := c\<rparr>) (wrn (contents is) (nat pos * 2) (le_bytes 2 v)))"

definition intsetNew :: intset where
  "intsetNew = \<lparr>encoding = 2, ilength = 0, contents = []\<rparr>"

text \<open>\<^verbatim>\<open>sizeof(intset)\<close> is 8, \<^verbatim>\<open>SIZE_MAX\<close> is \<open>2 ^ 64 - 1\<close>.\<close>

definition intsetAllocSize :: "intset \<Rightarrow> nat option" where
  "intsetAllocSize is =
     (let sz = ilength is * encoding is
      in if sz \<le> 2 ^ 64 - 1 - 8 then Some (8 + sz) else None)"

definition intsetResize :: "intset \<Rightarrow> nat \<Rightarrow> intset option" where
  "intsetResize is len =
     (let sz = len * encoding is
      in if sz \<le> 2 ^ 64 - 1 - 8 then Some (is\<lparr>contents := realloc (contents is) sz\<rparr>) else None)"

text \<open>The binary search \<^verbatim>\<open>while(max >= min)\<close> of \<^verbatim>\<open>intsetSearch\<close>; the result is \<^verbatim>\<open>(min, mid, cur)\<close>.\<close>

partial_function (option) intset_search_loop ::
  "intset \<Rightarrow> int \<Rightarrow> int \<Rightarrow> int \<Rightarrow> int \<Rightarrow> int \<Rightarrow> (int \<times> int \<times> int) option" where
  "intset_search_loop is v mn mx mid cur =
     (if mx \<ge> mn then
        (let mid = i32 (u32 (u32 mn + u32 mx) div 2)
         in Option.bind (intsetGet0 is mid) (\<lambda>cur.
              if v > cur then intset_search_loop is v (mid + 1) mx mid cur
              else if v < cur then intset_search_loop is v mn (mid - 1) mid cur
              else Some (mn, mid, cur)))
      else Some (mn, mid, cur))"

definition intsetSearch :: "intset \<Rightarrow> int \<Rightarrow> (bool \<times> nat) option" where
  "intsetSearch is v =
     (let mx = i32 (int (ilength is) - 1)
      in if ilength is = 0 then Some (False, 0)
         else do {
           top \<leftarrow> intsetGet0 is mx;
           if v > top then Some (False, ilength is)
           else do {
             bot \<leftarrow> intsetGet0 is 0;
             if v < bot then Some (False, 0)
             else do {
               (mn, mid, cur) \<leftarrow> intset_search_loop is v 0 mx (-1) (-1);
               if v = cur then Some (True, nat (u32 mid)) else Some (False, nat (u32 mn))
             }
           }
         })"

text \<open>\<^verbatim>\<open>while(length--)\<close> of \<^verbatim>\<open>intsetUpgradeAndAdd\<close>: the last element moves first.\<close>

primrec intset_upgrade_loop :: "nat \<Rightarrow> nat \<Rightarrow> nat \<Rightarrow> intset \<Rightarrow> intset option" where
  "intset_upgrade_loop 0 curenc prepend is = Some is"
| "intset_upgrade_loop (Suc l) curenc prepend is =
     do {
       v \<leftarrow> intsetGetEncoded is (int l) curenc;
       is' \<leftarrow> intsetSet0 is (int (l + prepend)) v;
       intset_upgrade_loop l curenc prepend is'
     }"

definition intsetUpgradeAndAdd :: "intset \<Rightarrow> int \<Rightarrow> intset option" where
  "intsetUpgradeAndAdd is v =
     (let curenc = encoding is;
          newenc = intsetValueEncoding v;
          len = ilength is;
          prepend = (if v < 0 then 1 else 0);
          is1 = is\<lparr>encoding := newenc\<rparr>
      in do {
        is2 \<leftarrow> intsetResize is1 (ilength is1 + 1);
        is3 \<leftarrow> intset_upgrade_loop len curenc prepend is2;
        is4 \<leftarrow> (if prepend = 1 then intsetSet0 is3 0 v else intsetSet0 is3 (int (ilength is3)) v);
        Some (is4\<lparr>ilength := ilength is4 + 1\<rparr>)
      })"

text \<open>The \<^verbatim>\<open>uint32_t bytes\<close> of \<^verbatim>\<open>intsetMoveTail\<close>, with its 32-bit product.\<close>

definition intset_tail_bytes :: "nat \<Rightarrow> nat \<Rightarrow> nat \<Rightarrow> nat" where
  "intset_tail_bytes len from enc =
     nat (u32 (u32 (int len - int from) * (if enc = 8 then 8 else if enc = 4 then 4 else 2)))"

definition intsetMoveTail :: "intset \<Rightarrow> nat \<Rightarrow> nat \<Rightarrow> intset option" where
  "intsetMoveTail is from to =
     (let w = (if encoding is = 8 then 8 else if encoding is = 4 then 4 else 2)
      in map_option (\<lambda>c. is\<lparr>contents := c\<rparr>)
           (memmove (contents is) (to * w) (from * w)
              (intset_tail_bytes (ilength is) from (encoding is))))"

definition intsetAdd :: "intset \<Rightarrow> int \<Rightarrow> (intset \<times> bool) option" where
  "intsetAdd is v =
     (let valenc = intsetValueEncoding v
      in if valenc > encoding is then map_option (\<lambda>is'. (is', True)) (intsetUpgradeAndAdd is v)
         else do {
           (found, pos) \<leftarrow> intsetSearch is v;
           if found then Some (is, False)
           else do {
             is1 \<leftarrow> intsetResize is (ilength is + 1);
             is2 \<leftarrow> (if pos < ilength is1 then intsetMoveTail is1 pos (pos + 1) else Some is1);
             is3 \<leftarrow> intsetSet0 is2 (int pos) v;
             Some (is3\<lparr>ilength := ilength is3 + 1\<rparr>, True)
           }
         })"

definition intsetRemove :: "intset \<Rightarrow> int \<Rightarrow> (intset \<times> bool) option" where
  "intsetRemove is v =
     (let valenc = intsetValueEncoding v
      in if valenc > encoding is then Some (is, False)
         else do {
           (found, pos) \<leftarrow> intsetSearch is v;
           if \<not> found then Some (is, False)
           else do {
             let len = ilength is;
             is1 \<leftarrow> (if pos < len - 1 then intsetMoveTail is (pos + 1) pos else Some is);
             is2 \<leftarrow> intsetResize is1 (len - 1);
             Some (is2\<lparr>ilength := len - 1\<rparr>, True)
           }
         })"

definition intsetFind :: "intset \<Rightarrow> int \<Rightarrow> bool option" where
  "intsetFind is v =
     (if intsetValueEncoding v \<le> encoding is then map_option fst (intsetSearch is v) else Some False)"

text \<open>The value of \<^verbatim>\<open>rand()\<close> is a parameter.\<close>

definition intsetRandom :: "nat \<Rightarrow> intset \<Rightarrow> int option" where
  "intsetRandom r is = (if ilength is = 0 then None else intsetGet0 is (int (r mod ilength is)))"

definition intsetMax :: "intset \<Rightarrow> int option" where
  "intsetMax is = intsetGet0 is (i32 (int (ilength is) - 1))"

definition intsetMin :: "intset \<Rightarrow> int option" where
  "intsetMin is = intsetGet0 is 0"

definition intsetGet :: "intset \<Rightarrow> nat \<Rightarrow> int option option" where
  "intsetGet is pos = (if pos < ilength is then map_option Some (intsetGet0 is (int pos)) else Some None)"

definition intsetLen :: "intset \<Rightarrow> nat" where
  "intsetLen is = ilength is"

definition intsetBlobLen :: "intset \<Rightarrow> nat" where
  "intsetBlobLen is = 8 + ilength is * encoding is"

text \<open>
  \<^verbatim>\<open>intsetValidateIntegrity\<close> reads the header and the records from a raw buffer; the cast
  \<^verbatim>\<open>(intset *)p\<close> is \<open>intset_of_blob\<close>.
\<close>

definition intset_of_blob :: "bytes \<Rightarrow> intset" where
  "intset_of_blob p =
     \<lparr>encoding = nat (le_uint (slice p 0 4)), ilength = nat (le_uint (slice p 4 4)), contents = drop 8 p\<rparr>"

function intset_validate_loop :: "intset \<Rightarrow> int \<Rightarrow> nat \<Rightarrow> nat \<Rightarrow> bool option" where
  "intset_validate_loop is prev i count =
     (if i < count then
        do {
          cur \<leftarrow> intsetGet0 is (i32 (int i));
          if cur \<le> prev then Some False else intset_validate_loop is cur (i + 1) count
        }
      else Some True)"
  by pat_completeness auto
termination
  by (relation "measure (\<lambda>(is, prev, i, count). count - i)") auto

declare intset_validate_loop.simps [simp del]

definition intsetValidateIntegrity :: "bytes \<Rightarrow> nat \<Rightarrow> bool \<Rightarrow> bool option" where
  "intsetValidateIntegrity p sz deep =
     (if sz < 8 then Some False
      else let is = intset_of_blob p
           in if encoding is \<noteq> 8 \<and> encoding is \<noteq> 4 \<and> encoding is \<noteq> 2 then Some False
              else let record_size = encoding is; count = ilength is
                   in if 8 + count * record_size \<noteq> sz then Some False
                      else if count = 0 then Some False
                      else if \<not> deep then Some True
                      else do {
                        prev \<leftarrow> intsetGet0 is 0;
                        intset_validate_loop is prev 1 count
                      })"

subsection \<open>The sets an intset stands for\<close>

text \<open>
  \<open>intset_inv is xs\<close>: the bytes are those of the strictly increasing list \<open>xs\<close>, every element
  fits the encoding, and the largest memory move (8 bytes an element) fits 32 bits.
\<close>

definition intset_inv :: "intset \<Rightarrow> int list \<Rightarrow> bool" where
  "intset_inv is xs \<longleftrightarrow>
     encoding is \<in> {2, 4, 8} \<and> ilength is = length xs \<and>
     contents is = concat (map (le_bytes (encoding is)) xs) \<and>
     sorted_wrt (<) xs \<and> (\<forall>x \<in> set xs. int_fits (encoding is) x) \<and> 8 * length xs < 2 ^ 32"

lemma int_fits_2: "int_fits 2 v \<longleftrightarrow> - 32768 \<le> v \<and> v \<le> 32767"
  by (auto simp: int_fits_def)

lemma int_fits_4: "int_fits 4 v \<longleftrightarrow> - 2147483648 \<le> v \<and> v \<le> 2147483647"
  by (auto simp: int_fits_def)

lemma int_fits_8: "int_fits 8 v \<longleftrightarrow> - (2 ^ 63) \<le> v \<and> v < 2 ^ 63"
  by (auto simp: int_fits_def)

lemma intsetValueEncoding_cases: "intsetValueEncoding v \<in> {2, 4, 8}"
  by (simp add: intsetValueEncoding_def)

lemma intsetValueEncoding_fits: "int_fits 8 v \<Longrightarrow> int_fits (intsetValueEncoding v) v"
  by (auto simp: intsetValueEncoding_def int_fits_2 int_fits_4)

lemma int_fits_iff_encoding:
  "enc \<in> {2, 4, 8} \<Longrightarrow> int_fits 8 v \<Longrightarrow> int_fits enc v \<longleftrightarrow> intsetValueEncoding v \<le> enc"
  by (auto simp: intsetValueEncoding_def int_fits_2 int_fits_4)

lemma intsetGetEncoded_rdn:
  "0 \<le> pos \<Longrightarrow> enc \<in> {2, 4, 8} \<Longrightarrow>
   intsetGetEncoded is pos enc = map_option le_sint (rdn (contents is) (nat pos * enc) enc)"
  by (auto simp: intsetGetEncoded_def)

lemma intsetSet0_wrn:
  "0 \<le> pos \<Longrightarrow> encoding is \<in> {2, 4, 8} \<Longrightarrow>
   intsetSet0 is pos v = map_option (\<lambda>c. is\<lparr>contents := c\<rparr>)
     (wrn (contents is) (nat pos * encoding is) (le_bytes (encoding is) v))"
  by (auto simp: intsetSet0_def)

lemma length_contents: "intset_inv is xs \<Longrightarrow> length (contents is) = length xs * encoding is"
  by (simp add: intset_inv_def length_concat_const)

lemma slot_bound: "i < n \<Longrightarrow> i * k + k \<le> n * (k::nat)"
  by (metis Suc_leI add.commute mult_Suc mult_le_mono1)

lemma intsetGet0_nth:
  assumes "intset_inv is xs" and "0 \<le> pos" and "pos < int (length xs)"
  shows "intsetGet0 is pos = Some (xs ! nat pos)"
proof -
  let ?e = "encoding is" and ?i = "nat pos"
  have i: "?i < length xs" using assms by simp
  have "slice (contents is) (?i * ?e) ?e = le_bytes ?e (xs ! ?i)"
    using assms(1) i slice_concat [of xs "le_bytes ?e" ?e ?i] by (simp add: intset_inv_def)
  moreover have "?i * ?e + ?e \<le> length (contents is)"
    using slot_bound [OF i] by (simp add: length_contents [OF assms(1)])
  moreover have "int_fits ?e (xs ! ?i)" using assms(1) i by (auto simp: intset_inv_def)
  ultimately show ?thesis using assms(1,2)
    by (simp add: intsetGet0_def intsetGetEncoded_rdn intset_inv_def rdn_def le_sint_le_bytes)
qed

lemma strict_nth_mono: "sorted_wrt (<) (xs :: int list) \<Longrightarrow> i \<le> j \<Longrightarrow> j < length xs \<Longrightarrow> xs ! i \<le> xs ! j"
  by (metis le_neq_implies_less less_imp_le order_refl sorted_wrt_nth_less)

subsection \<open>Binary search\<close>

lemma intset_mid:
  assumes "0 \<le> mn" and "mn \<le> mx" and "mx < 2 ^ 31"
  shows "i32 (u32 (u32 mn + u32 mx) div 2) = (mn + mx) div 2"
  using assms by (simp add: u32_id i32_id)

fun search_post :: "int list \<Rightarrow> int \<Rightarrow> int \<times> int \<times> int \<Rightarrow> bool" where
  "search_post xs v (mn, mid, cur) \<longleftrightarrow>
     0 \<le> mn \<and> mn \<le> int (length xs) \<and>
     (if cur = v then 0 \<le> mid \<and> mid < int (length xs) \<and> xs ! nat mid = v
      else (\<forall>i. int i < mn \<longrightarrow> xs ! i < v) \<and> (\<forall>i. mn \<le> int i \<and> i < length xs \<longrightarrow> v < xs ! i))"

lemma intset_search_loop_correct:
  assumes inv: "intset_inv is xs"
  shows "\<lbrakk>0 \<le> mn; mn \<le> mx + 1; mx < int (length xs);
      \<forall>i. int i < mn \<longrightarrow> xs ! i < v; \<forall>i. mx < int i \<and> i < length xs \<longrightarrow> v < xs ! i;
      mn \<le> mx \<or> cur \<noteq> v\<rbrakk>
    \<Longrightarrow> \<exists>r. intset_search_loop is v mn mx mid cur = Some r \<and> search_post xs v r"
proof (induction "nat (mx + 1 - mn)" arbitrary: mn mx mid cur rule: less_induct)
  case less
  have len: "int (length xs) < 2 ^ 31" using inv by (simp add: intset_inv_def)
  have sorted: "sorted_wrt (<) xs" using inv by (simp add: intset_inv_def)
  show ?case
  proof (cases "mn \<le> mx")
    case False
    then have "intset_search_loop is v mn mx mid cur = Some (mn, mid, cur)"
      by (subst intset_search_loop.simps) simp
    moreover have "mn = mx + 1" using False less.prems(2) by simp
    then have "search_post xs v (mn, mid, cur)" using less.prems by simp
    ultimately show ?thesis by blast
  next
    case True
    let ?m = "(mn + mx) div 2"
    have m: "mn \<le> ?m" "?m \<le> mx" using True by simp_all
    have "i32 (u32 (u32 mn + u32 mx) div 2) = ?m"
      using intset_mid less.prems(1,3) True len by simp
    moreover have "intsetGet0 is ?m = Some (xs ! nat ?m)"
      using intsetGet0_nth [OF inv] m less.prems by simp
    ultimately have eq: "intset_search_loop is v mn mx mid cur =
        (if v > xs ! nat ?m then intset_search_loop is v (?m + 1) mx ?m (xs ! nat ?m)
         else if v < xs ! nat ?m then intset_search_loop is v mn (?m - 1) ?m (xs ! nat ?m)
         else Some (mn, ?m, xs ! nat ?m))"
      using True by (subst intset_search_loop.simps) (simp add: Let_def)
    have low: "xs ! i \<le> xs ! nat ?m" if "int i \<le> ?m" for i
      using that m less.prems(1,3) by (intro strict_nth_mono [OF sorted]) linarith+
    have high: "xs ! nat ?m \<le> xs ! i" if "?m \<le> int i" "i < length xs" for i
      using that by (intro strict_nth_mono [OF sorted]) linarith+
    consider "xs ! nat ?m < v" | "v < xs ! nat ?m" | "v = xs ! nat ?m" by linarith
    then show ?thesis
    proof cases
      case 1
      then have "\<forall>i. int i < ?m + 1 \<longrightarrow> xs ! i < v" using low by (meson le_less_trans zle_add1_eq_le)
      then have "\<exists>r. intset_search_loop is v (?m + 1) mx ?m (xs ! nat ?m) = Some r \<and> search_post xs v r"
        by (intro less.hyps) (use less_imp_neq [OF 1] less.prems m in auto)
      then show ?thesis unfolding eq using 1 by simp
    next
      case 2
      then have "\<forall>i. ?m - 1 < int i \<and> i < length xs \<longrightarrow> v < xs ! i"
        using high by (meson less_le_trans zle_diff1_eq not_le)
      then have "\<exists>r. intset_search_loop is v mn (?m - 1) ?m (xs ! nat ?m) = Some r \<and> search_post xs v r"
        by (intro less.hyps) (use less_imp_neq [OF 2] less.prems m in auto)
      then show ?thesis unfolding eq using 2 by simp
    next
      case 3
      then have "search_post xs v (mn, ?m, xs ! nat ?m)" using less.prems m by simp
      then show ?thesis unfolding eq using 3 by auto
    qed
  qed
qed

text \<open>
  The position a search returns splits the list: every element before it is smaller and every
  element from it on is at least the value.
\<close>

definition search_split :: "int list \<Rightarrow> int \<Rightarrow> bool \<Rightarrow> nat \<Rightarrow> bool" where
  "search_split xs v found pos \<longleftrightarrow>
     pos \<le> length xs \<and> (\<forall>x \<in> set (take pos xs). x < v) \<and>
     (if found then pos < length xs \<and> xs ! pos = v else \<forall>x \<in> set (drop pos xs). v < x)"

lemma search_splitI:
  assumes "sorted_wrt (<) xs" and "pos < length xs" and "xs ! pos = v"
  shows "search_split xs v True pos"
  using assms by (auto simp: search_split_def in_set_conv_nth sorted_wrt_nth_less)

lemma intsetSearch_correct:
  assumes inv: "intset_inv is xs"
  shows "\<exists>found pos. intsetSearch is v = Some (found, pos) \<and> search_split xs v found pos"
proof (cases "xs = []")
  case True
  then show ?thesis using inv
    by (intro exI [of _ False] exI [of _ "0::nat"]) (simp add: intsetSearch_def intset_inv_def search_split_def)
next
  case False
  let ?n = "length xs"
  have sorted: "sorted_wrt (<) xs" and n: "ilength is = ?n" "int ?n < 2 ^ 31"
    using inv by (auto simp: intset_inv_def)
  have mx: "i32 (int ?n - 1) = int ?n - 1" using n(2) by (intro i32_id) auto
  have top: "intsetGet0 is (int ?n - 1) = Some (xs ! (?n - 1))"
  proof -
    have "nat (int ?n - 1) = ?n - 1" by linarith
    then show ?thesis using intsetGet0_nth [OF inv, of "int ?n - 1"] False by simp
  qed
  have bot: "intsetGet0 is 0 = Some (xs ! 0)"
    using intsetGet0_nth [OF inv, of 0] False by simp
  consider "v > xs ! (?n - 1)" | "v < xs ! 0" "\<not> v > xs ! (?n - 1)"
    | "xs ! 0 \<le> v" "v \<le> xs ! (?n - 1)" by linarith
  then show ?thesis
  proof cases
    case 1
    have "x < v" if x: "x \<in> set xs" for x
    proof -
      obtain i where i: "i < ?n" "x = xs ! i" using x by (auto simp: in_set_conv_nth)
      then have "xs ! i \<le> xs ! (?n - 1)" by (intro strict_nth_mono [OF sorted]) auto
      then show ?thesis using 1 i(2) by simp
    qed
    then have "search_split xs v False ?n" by (simp add: search_split_def)
    then show ?thesis using 1 False n(1) mx top by (auto simp: intsetSearch_def)
  next
    case 2
    have "v < x" if x: "x \<in> set xs" for x
    proof -
      obtain i where i: "i < ?n" "x = xs ! i" using x by (auto simp: in_set_conv_nth)
      then show ?thesis using strict_nth_mono [OF sorted, of 0 i] 2 by simp
    qed
    then have "search_split xs v False 0" by (simp add: search_split_def)
    then show ?thesis using 2 False n(1) mx top bot by (auto simp: intsetSearch_def)
  next
    case 3
    obtain mn mid cur where r: "intset_search_loop is v 0 (int ?n - 1) (-1) (-1) = Some (mn, mid, cur)"
      "search_post xs v (mn, mid, cur)"
      using intset_search_loop_correct [OF inv, of 0 "int ?n - 1" v "-1" "-1"] False by auto
    have eq: "intsetSearch is v = (if v = cur then Some (True, nat (u32 mid)) else Some (False, nat (u32 mn)))"
      using 3 False n(1) mx top bot r(1) by (simp add: intsetSearch_def)
    show ?thesis
    proof (cases "v = cur")
      case True
      with r(2) n(2) have "u32 mid = mid" "nat mid < ?n" "xs ! nat mid = v"
        by (auto intro!: u32_id)
      with True eq show ?thesis using search_splitI [OF sorted] by auto
    next
      case False
      with r(2) n(2) have u: "u32 mn = mn" and b: "0 \<le> mn" "mn \<le> int ?n"
        and lt: "\<forall>i. int i < mn \<longrightarrow> xs ! i < v" and gt: "\<forall>i. mn \<le> int i \<and> i < ?n \<longrightarrow> v < xs ! i"
        by (auto intro!: u32_id)
      have "search_split xs v False (nat mn)"
        using b lt gt by (auto simp: search_split_def in_set_conv_nth)
      with False eq u show ?thesis by auto
    qed
  qed
qed

lemma search_split_found: "search_split xs v found pos \<Longrightarrow> found \<longleftrightarrow> v \<in> set xs"
  by (auto simp: search_split_def split: if_splits)
    (metis append_take_drop_id Un_iff less_irrefl set_append)

subsection \<open>Insertion and deletion in place\<close>

lemma concat_take_drop: "concat (map f xs) = concat (map f (take k xs)) @ concat (map f (drop k xs))"
  by (metis append_take_drop_id concat_append map_append)

lemma u32_of_nat: "n < 2 ^ 32 \<Longrightarrow> u32 (int n) = int n"
  by (simp add: u32_def)

lemma intset_tail_bytes_exact:
  assumes "enc \<in> {2, 4, 8}" and "8 * len < 2 ^ 32" and "from \<le> len"
  shows "intset_tail_bytes len from enc = (len - from) * enc"
proof -
  have diff: "u32 (int len - int from) = int (len - from)"
    using assms(2,3) by (simp add: u32_def flip: of_nat_diff)
  have "(len - from) * enc \<le> len * 8"
    using assms(1) by (intro mult_le_mono) auto
  also have "\<dots> < 2 ^ 32" using assms(2) by simp
  finally have "(len - from) * enc < 2 ^ 32" .
  then have "u32 (int (len - from) * int enc) = int ((len - from) * enc)"
    unfolding of_nat_mult [symmetric] by (rule u32_of_nat)
  moreover have "(if enc = 8 then 8 else if enc = 4 then 4 else 2) = int enc"
    using assms(1) by auto
  ultimately show ?thesis unfolding intset_tail_bytes_def diff by (simp only: nat_int)
qed

lemma intsetResize_Some:
  assumes "encoding is \<in> {2, 4, 8}" and "8 * len < 2 ^ 33"
  shows "intsetResize is len = Some (is\<lparr>contents := realloc (contents is) (len * encoding is)\<rparr>)"
proof -
  have "len * encoding is \<le> len * 8" using assms(1) by (intro mult_le_mono2) auto
  also have "\<dots> \<le> 2 ^ 64 - 1 - 8" using assms(2) by simp
  finally have "len * encoding is \<le> 2 ^ 64 - 1 - 8" .
  then show ?thesis by (simp only: intsetResize_def Let_def if_True)
qed

lemma sorted_insert_split:
  "sorted_wrt (<) xs \<Longrightarrow> search_split xs v False pos \<Longrightarrow>
   sorted_wrt (<) (take pos xs @ v # drop pos xs) \<and> set (take pos xs @ v # drop pos xs) = insert v (set xs)"
proof -
  assume "sorted_wrt (<) xs" and sp: "search_split xs v False pos"
  then have "sorted_wrt (<) (take pos xs @ drop pos xs)" by simp
  then have "sorted_wrt (<) (take pos xs @ v # drop pos xs)"
    using sp by (auto simp: search_split_def sorted_wrt_append simp del: append_take_drop_id)
  moreover have "set (take pos xs) \<union> set (drop pos xs) = set xs"
    by (metis append_take_drop_id set_append)
  ultimately show ?thesis by auto
qed

lemma intset_insert_inv:
  assumes inv: "intset_inv is xs" and sp: "search_split xs v False pos"
    and fits: "int_fits (encoding is) v" and room: "8 * (length xs + 1) < 2 ^ 32"
  shows "\<exists>is1 is2 is3. intsetResize is (ilength is + 1) = Some is1 \<and>
      (if pos < ilength is1 then intsetMoveTail is1 pos (pos + 1) else Some is1) = Some is2 \<and>
      intsetSet0 is2 (int pos) v = Some is3 \<and>
      intset_inv (is3\<lparr>ilength := ilength is3 + 1\<rparr>) (take pos xs @ v # drop pos xs)"
proof -
  let ?e = "encoding is" and ?f = "le_bytes (encoding is)"
  let ?A = "concat (map ?f (take pos xs))" and ?B = "concat (map ?f (drop pos xs))"
  let ?Z = "replicate ?e (0::byte)"
  have e: "?e \<in> {2, 4, 8}" and n: "ilength is = length xs" and c: "contents is = ?A @ ?B"
    and pos: "pos \<le> length xs"
    using inv sp concat_take_drop [of ?f xs pos] by (auto simp: intset_inv_def search_split_def)
  have A: "length ?A = pos * ?e" and B: "length ?B = (length xs - pos) * ?e"
    using pos by (simp_all add: length_concat_const)
  have tot: "length (?A @ ?B) = length xs * ?e" using A B pos
    by (simp add: algebra_simps flip: add_mult_distrib)
  let ?is1 = "is\<lparr>contents := ?A @ ?B @ ?Z\<rparr>"
  have r1: "intsetResize is (ilength is + 1) = Some ?is1"
    using e room n c tot by (simp add: intsetResize_Some realloc_def)
  let ?m = "splice_at (?A @ ?B @ ?Z) (length ?A + length ?Z) ?B"
  let ?is2 = "is\<lparr>contents := ?m\<rparr>"
  have tail: "intset_tail_bytes (length xs) pos ?e = length ?B"
    using e room pos B by (simp add: intset_tail_bytes_exact)
  have r2: "(if pos < ilength ?is1 then intsetMoveTail ?is1 pos (pos + 1) else Some ?is1) = Some ?is2"
  proof (cases "pos < length xs")
    case True
    have "memmove (?A @ ?B @ ?Z) ((pos + 1) * ?e) (pos * ?e) (length ?B) = Some ?m"
      using rdn_middle [of ?A ?B ?Z] A by (simp add: memmove_def wrn_def add.commute)
    then show ?thesis using True e n tail by (auto simp: intsetMoveTail_def)
  next
    case False
    then have "?B = []" using pos by simp
    then show ?thesis using False n by (simp add: splice_at_def)
  qed
  have len_m: "length ?m = (length xs + 1) * ?e" using A B tot by simp
  have "wrn ?m (pos * ?e) (?f v) = Some (splice_at ?m (length ?A) (?f v))"
    using slot_bound [of pos "length xs + 1" ?e] pos A len_m by (simp add: wrn_def)
  also have "splice_at ?m (length ?A) (?f v) = ?A @ ?f v @ ?B" by (rule insert_gap) simp
  finally have r3: "intsetSet0 ?is2 (int pos) v = Some (is\<lparr>contents := ?A @ ?f v @ ?B\<rparr>)"
    using e by (simp add: intsetSet0_wrn)
  have "intset_inv (is\<lparr>contents := ?A @ ?f v @ ?B, ilength := length xs + 1\<rparr>) (take pos xs @ v # drop pos xs)"
    using sorted_insert_split [OF _ sp] inv fits room pos e
    by (auto simp: intset_inv_def dest: in_set_takeD in_set_dropD)
  then show ?thesis using r1 r2 r3 n by auto
qed

lemma intset_delete_inv:
  assumes inv: "intset_inv is xs" and sp: "search_split xs v True pos"
  shows "\<exists>is1 is2. (if pos < ilength is - 1 then intsetMoveTail is (pos + 1) pos else Some is) = Some is1 \<and>
      intsetResize is1 (ilength is - 1) = Some is2 \<and>
      intset_inv (is2\<lparr>ilength := ilength is - 1\<rparr>) (take pos xs @ drop (pos + 1) xs)"
proof -
  let ?e = "encoding is" and ?f = "le_bytes (encoding is)"
  let ?A = "concat (map ?f (take pos xs))" and ?X = "?f (xs ! pos)"
  let ?B = "concat (map ?f (drop (pos + 1) xs))"
  have e: "?e \<in> {2, 4, 8}" and n: "ilength is = length xs" and pos: "pos < length xs"
    and room: "8 * length xs < 2 ^ 32"
    using inv sp by (auto simp: intset_inv_def search_split_def)
  have c: "contents is = ?A @ ?X @ ?B"
    using inv id_take_nth_drop [OF pos] by (metis intset_inv_def concat.simps(2) concat_append
        list.simps(9) map_append Suc_eq_plus1)
  have A: "length ?A = pos * ?e" and B: "length ?B = (length xs - (pos + 1)) * ?e"
    using pos by (simp_all add: length_concat_const)
  have AB: "length ?A + length ?B = (length xs - 1) * ?e"
    using A B pos by (simp flip: add_mult_distrib)
  let ?m = "splice_at (?A @ ?X @ ?B) (length ?A) ?B"
  let ?is1 = "if pos < length xs - 1 then is\<lparr>contents := ?m\<rparr> else is"
  have tail: "intset_tail_bytes (length xs) (pos + 1) ?e = length ?B"
    using e room pos B by (simp add: intset_tail_bytes_exact)
  have r1: "(if pos < ilength is - 1 then intsetMoveTail is (pos + 1) pos else Some is) = Some ?is1"
  proof (cases "pos < length xs - 1")
    case True
    have "memmove (?A @ ?X @ ?B) (pos * ?e) ((pos + 1) * ?e) (length ?B) = Some ?m"
      using rdn_middle [of "?A @ ?X" ?B "[]"] A by (simp add: memmove_def wrn_def add.commute)
    then show ?thesis using True e n tail c by (auto simp: intsetMoveTail_def)
  qed (simp add: n)
  have "take ((length xs - 1) * ?e) (contents ?is1) = ?A @ ?B"
  proof (cases "pos < length xs - 1")
    case True
    then show ?thesis using delete_gap [of ?A ?B ?X] AB by simp
  next
    case False
    then have "?B = []" using pos by simp
    then show ?thesis using False c AB by simp
  qed
  moreover have "(length xs - 1) * ?e \<le> length (contents ?is1)"
    using AB c by auto
  ultimately have "realloc (contents ?is1) ((length xs - 1) * ?e) = ?A @ ?B"
    by (simp add: realloc_def)
  moreover have "encoding ?is1 = ?e" by simp
  ultimately have r2: "intsetResize ?is1 (ilength is - 1) = Some (?is1\<lparr>contents := ?A @ ?B\<rparr>)"
    using intsetResize_Some [of ?is1 "length xs - 1"] e room n by simp
  have "sorted_wrt (<) (take pos xs @ drop (pos + 1) xs)"
  proof -
    have "sorted_wrt (<) (take pos xs @ xs ! pos # drop (pos + 1) xs)"
      using inv id_take_nth_drop [OF pos] by (simp add: intset_inv_def)
    then show ?thesis by (simp add: sorted_wrt_append)
  qed
  then have "intset_inv (?is1\<lparr>contents := ?A @ ?B, ilength := length xs - 1\<rparr>) (take pos xs @ drop (pos + 1) xs)"
    using inv room pos e by (auto simp: intset_inv_def dest: in_set_takeD in_set_dropD)
  then show ?thesis using r1 r2 n by auto
qed

lemma set_remove_split:
  assumes "sorted_wrt (<) xs" and "search_split xs v True pos"
  shows "set (take pos xs @ drop (pos + 1) xs) = set xs - {v}"
proof -
  have pos: "pos < length xs" "xs ! pos = v" using assms(2) by (auto simp: search_split_def)
  then have xs: "xs = take pos xs @ v # drop (pos + 1) xs" using id_take_nth_drop by fastforce
  then have "sorted_wrt (<) (take pos xs @ v # drop (pos + 1) xs)" using assms(1) by simp
  then have "v \<notin> set (take pos xs @ drop (pos + 1) xs)" by (auto simp: sorted_wrt_append)
  moreover have "set xs = insert v (set (take pos xs @ drop (pos + 1) xs))"
    by (subst xs) auto
  ultimately show ?thesis by auto
qed

subsection \<open>Upgrading the encoding in place\<close>

definition upgrade_mid :: "int list \<Rightarrow> nat \<Rightarrow> nat \<Rightarrow> nat \<Rightarrow> nat \<Rightarrow> bytes \<Rightarrow> bool" where
  "upgrade_mid xs cur new p l m \<longleftrightarrow>
     length m = (length xs + 1) * new \<and>
     (\<forall>i < l. slice m (i * cur) cur = le_bytes cur (xs ! i)) \<and>
     (\<forall>j. l \<le> j \<and> j < length xs \<longrightarrow> slice m ((j + p) * new) new = le_bytes new (xs ! j))"

lemma upgrade_mid_step:
  assumes mid: "upgrade_mid xs cur new p (Suc l) m" and l: "l < length xs"
    and enc: "cur \<le> new" and p: "p \<le> 1"
  shows "upgrade_mid xs cur new p l (splice_at m ((l + p) * new) (le_bytes new (xs ! l)))"
proof -
  let ?m = "splice_at m ((l + p) * new) (le_bytes new (xs ! l))"
  have "(l + p) * new + new \<le> (length xs + 1) * new"
    using l p slot_bound [of "l + p" "length xs + 1" new] by simp
  then have fits: "(l + p) * new + length (le_bytes new (xs ! l)) \<le> length m"
    using mid by (simp add: upgrade_mid_def)
  have low: "slice ?m (i * cur) cur = le_bytes cur (xs ! i)" if "i < l" for i
  proof -
    have "i * cur + cur \<le> l * cur" using slot_bound [OF that] .
    also have "\<dots> \<le> (l + p) * new" using enc by (intro mult_le_mono) auto
    finally have "slice ?m (i * cur) cur = slice m (i * cur) cur"
      using fits by (intro slice_splice_before)
    then show ?thesis using mid that by (simp add: upgrade_mid_def)
  qed
  have high: "slice ?m ((j + p) * new) new = le_bytes new (xs ! j)" if "l \<le> j" "j < length xs" for j
  proof (cases "j = l")
    case True
    then show ?thesis using slice_splice_same [OF fits] by simp
  next
    case False
    then have "(l + p) * new + length (le_bytes new (xs ! l)) \<le> (j + p) * new"
      using that slot_bound [of "l + p" "j + p" new] by simp
    then have "slice ?m ((j + p) * new) new = slice m ((j + p) * new) new"
      by (intro slice_splice_after fits)
    then show ?thesis using mid that False by (simp add: upgrade_mid_def)
  qed
  show ?thesis using low high fits mid by (simp add: upgrade_mid_def)
qed

lemma intset_upgrade_loop_mid:
  assumes enc: "cur \<in> {2, 4, 8}" "encoding is \<in> {2, 4, 8}" "cur \<le> encoding is" and p: "p \<le> 1"
    and fits: "\<forall>x \<in> set xs. int_fits cur x"
  shows "l \<le> length xs \<Longrightarrow> upgrade_mid xs cur (encoding is) p l m \<Longrightarrow>
    \<exists>m'. intset_upgrade_loop l cur p (is\<lparr>contents := m\<rparr>) = Some (is\<lparr>contents := m'\<rparr>) \<and>
         upgrade_mid xs cur (encoding is) p 0 m'"
proof (induction l arbitrary: m)
  case 0
  then show ?case by auto
next
  case (Suc l)
  let ?new = "encoding is"
  let ?m = "splice_at m ((l + p) * ?new) (le_bytes ?new (xs ! l))"
  have len: "length m = (length xs + 1) * ?new"
    and sl: "slice m (l * cur) cur = le_bytes cur (xs ! l)"
    using Suc.prems by (auto simp: upgrade_mid_def)
  have "l * cur + cur \<le> (length xs + 1) * ?new"
  proof -
    have "l * cur + cur \<le> length xs * cur" using Suc.prems(1) by (intro slot_bound) simp
    also have "\<dots> \<le> (length xs + 1) * ?new" using enc(3) by (intro mult_le_mono) auto
    finally show ?thesis .
  qed
  then have get: "intsetGetEncoded (is\<lparr>contents := m\<rparr>) (int l) cur = Some (xs ! l)"
    using enc(1) fits Suc.prems(1) sl len by (simp add: intsetGetEncoded_rdn rdn_def le_sint_le_bytes)
  have "(l + p) * ?new + ?new \<le> length m"
    using Suc.prems(1) p len slot_bound [of "l + p" "length xs + 1" ?new] by simp
  then have set: "intsetSet0 (is\<lparr>contents := m\<rparr>) (int (l + p)) (xs ! l) = Some (is\<lparr>contents := ?m\<rparr>)"
    using enc(2) by (subst intsetSet0_wrn) (auto simp: wrn_def nat_add_distrib)
  have "upgrade_mid xs cur ?new p l ?m"
    using upgrade_mid_step [OF Suc.prems(2) _ enc(3) p] Suc.prems(1) by simp
  then show ?case using Suc.IH [of ?m] Suc.prems(1) get set by simp
qed

lemma int_not_fits_outside:
  assumes "\<forall>x \<in> set xs. int_fits enc x" and "\<not> int_fits enc v"
  shows "if v < 0 then \<forall>x \<in> set xs. v < x else \<forall>x \<in> set xs. x < v"
  using assms by (force simp: int_fits_def)

lemma upgrade_mid_start:
  assumes "contents is = concat (map (le_bytes cur) xs)" and "cur \<le> new"
  shows "upgrade_mid xs cur new p (length xs) (realloc (contents is) ((length xs + 1) * new))"
proof -
  have len: "length (contents is) = length xs * cur" using assms(1) by (simp add: length_concat_const)
  have "slice (realloc (contents is) ((length xs + 1) * new)) (i * cur) cur = le_bytes cur (xs ! i)"
    if "i < length xs" for i
  proof -
    have i: "i * cur + cur \<le> length xs * cur" using slot_bound [OF that] .
    also have "\<dots> \<le> (length xs + 1) * new" using assms(2) by (intro mult_le_mono) auto
    finally have "slice (realloc (contents is) ((length xs + 1) * new)) (i * cur) cur
        = slice (contents is) (i * cur) cur"
      using i len by (intro slice_realloc) auto
    then show ?thesis using assms(1) that by (simp add: slice_concat)
  qed
  then show ?thesis by (auto simp: upgrade_mid_def)
qed

lemma upgrade_mid_finish:
  assumes mid: "upgrade_mid xs cur new p 0 m" and p: "p = 0 \<or> p = 1"
  shows "splice_at m ((if p = 1 then 0 else length xs) * new) (le_bytes new v)
       = concat (map (le_bytes new) (if p = 1 then v # xs else xs @ [v]))"
proof (rule concat_eqI [where k = new])
  let ?at = "(if p = 1 then 0 else length xs) * new" and ?ys = "if p = 1 then v # xs else xs @ [v]"
  have fits: "?at + length (le_bytes new v) \<le> length m"
    using mid by (auto simp: upgrade_mid_def)
  then show "length (splice_at m ?at (le_bytes new v)) = length ?ys * new"
    using mid by (simp add: upgrade_mid_def)
  fix i
  assume i: "i < length ?ys"
  show "slice (splice_at m ?at (le_bytes new v)) (i * new) new = le_bytes new (?ys ! i)"
  proof (cases "i * new = ?at")
    case True
    have "le_bytes new (?ys ! i) = le_bytes new v"
      using True i by (cases "new = 0") (auto simp: nth_append)
    then show ?thesis unfolding True using slice_splice_same [OF fits] by (simp only: length_le_bytes)
  next
    case False
    show ?thesis
    proof (cases "p = 1")
      case True
      with False obtain j where j: "i = Suc j" by (cases i) auto
      then have "slice (splice_at m ?at (le_bytes new v)) (i * new) new = slice m (i * new) new"
        using True fits by (intro slice_splice_after) auto
      also have "\<dots> = le_bytes new (xs ! j)" using mid True i j by (auto simp: upgrade_mid_def)
      finally show ?thesis using True j by simp
    next
      case p0: False
      then have "i < length xs" using False i by (cases "i = length xs") auto
      then have "slice (splice_at m ?at (le_bytes new v)) (i * new) new = slice m (i * new) new"
        using p0 fits slot_bound [of i "length xs" new] by (intro slice_splice_before) auto
      also have "\<dots> = le_bytes new (xs ! i)"
        using mid p p0 \<open>i < length xs\<close> by (auto simp: upgrade_mid_def)
      finally show ?thesis using p0 \<open>i < length xs\<close> by (simp add: nth_append)
    qed
  qed
qed

lemma intsetUpgradeAndAdd_inv:
  assumes inv: "intset_inv is xs" and v: "int_fits 8 v" and up: "intsetValueEncoding v > encoding is"
    and room: "8 * (length xs + 1) < 2 ^ 32"
  shows "\<exists>is'. intsetUpgradeAndAdd is v = Some is' \<and>
      intset_inv is' (if v < 0 then v # xs else xs @ [v]) \<and> v \<notin> set xs"
proof -
  let ?cur = "encoding is" and ?new = "intsetValueEncoding v"
  let ?p = "if v < 0 then 1 else 0 :: nat" and ?n = "length xs"
  let ?ys = "if v < 0 then v # xs else xs @ [v]"
  let ?is1 = "is\<lparr>encoding := ?new\<rparr>"
  have e: "?cur \<in> {2, 4, 8}" and c: "contents is = concat (map (le_bytes ?cur) xs)"
    and n: "ilength is = ?n" and fits: "\<forall>x \<in> set xs. int_fits ?cur x" and sorted: "sorted_wrt (<) xs"
    using inv by (auto simp: intset_inv_def)
  have new: "?new \<in> {2, 4, 8}" by (rule intsetValueEncoding_cases)
  have "\<not> int_fits ?cur v" using int_fits_iff_encoding [OF e v] up by simp
  then have out: "if v < 0 then \<forall>x \<in> set xs. v < x else \<forall>x \<in> set xs. x < v"
    using int_not_fits_outside fits by blast
  let ?m = "realloc (contents is) ((?n + 1) * ?new)"
  have r1: "intsetResize ?is1 (ilength ?is1 + 1) = Some (?is1\<lparr>contents := ?m\<rparr>)"
    using intsetResize_Some [of ?is1 "?n + 1"] new room n by simp
  have p: "?p \<le> 1" by simp
  have "upgrade_mid xs ?cur (encoding ?is1) ?p ?n ?m" using upgrade_mid_start [OF c] up by simp
  then obtain m' where r2: "intset_upgrade_loop ?n ?cur ?p (?is1\<lparr>contents := ?m\<rparr>) = Some (?is1\<lparr>contents := m'\<rparr>)"
      and mid: "upgrade_mid xs ?cur ?new ?p 0 m'"
    using intset_upgrade_loop_mid [OF e _ _ p fits order_refl, of ?is1 ?m] new up by auto
  let ?at = "if ?p = 1 then 0 else ?n"
  have "?at * ?new + ?new \<le> length m'" using mid by (auto simp: upgrade_mid_def)
  then have "intsetSet0 (?is1\<lparr>contents := m'\<rparr>) (int ?at) v
      = Some (?is1\<lparr>contents := splice_at m' (?at * ?new) (le_bytes ?new v)\<rparr>)"
    using new by (subst intsetSet0_wrn) (auto simp: wrn_def)
  also have "splice_at m' (?at * ?new) (le_bytes ?new v) = concat (map (le_bytes ?new) ?ys)"
    using upgrade_mid_finish [OF mid] by auto
  finally have r3: "intsetSet0 (?is1\<lparr>contents := m'\<rparr>) (int ?at) v
      = Some (?is1\<lparr>contents := concat (map (le_bytes ?new) ?ys)\<rparr>)" .
  let ?is' = "is\<lparr>encoding := ?new, contents := concat (map (le_bytes ?new) ?ys), ilength := ?n + 1\<rparr>"
  have "intsetUpgradeAndAdd is v = Some ?is'"
    using r1 r2 r3 n by (cases "v < 0") (simp_all add: intsetUpgradeAndAdd_def Let_def)
  moreover have "intset_inv ?is' ?ys"
  proof -
    have "\<forall>x \<in> set ?ys. int_fits ?new x"
      using fits up v int_fits_mono [of ?cur _ ?new] intsetValueEncoding_fits [OF v] by auto
    moreover have "sorted_wrt (<) ?ys" using sorted out by (auto simp: sorted_wrt_append)
    ultimately show ?thesis using new room by (simp add: intset_inv_def)
  qed
  moreover have "v \<notin> set xs" using out by (auto split: if_splits)
  ultimately show ?thesis by blast
qed

subsection \<open>The operations on sets\<close>

lemma intsetAdd_set:
  assumes inv: "intset_inv is xs" and v: "int_fits 8 v" and room: "8 * (length xs + 1) < 2 ^ 32"
  shows "\<exists>is' xs'. intsetAdd is v = Some (is', v \<notin> set xs) \<and> intset_inv is' xs' \<and>
      set xs' = insert v (set xs) \<and> length xs' \<le> length xs + 1"
proof (cases "intsetValueEncoding v > encoding is")
  case True
  from intsetUpgradeAndAdd_inv [OF inv v True room] obtain is' where
    r: "intsetUpgradeAndAdd is v = Some is'" "intset_inv is' (if v < 0 then v # xs else xs @ [v])"
      "v \<notin> set xs" by blast
  have "intsetAdd is v = Some (is', v \<notin> set xs)" using r True by (simp add: intsetAdd_def)
  then show ?thesis using r(2) by (intro exI [of _ is'] exI [of _ "if v < 0 then v # xs else xs @ [v]"]) auto
next
  case False
  obtain found pos where s: "intsetSearch is v = Some (found, pos)" "search_split xs v found pos"
    using intsetSearch_correct [OF inv] by blast
  have sorted: "sorted_wrt (<) xs" using inv by (simp add: intset_inv_def)
  show ?thesis
  proof (cases found)
    case True
    then have "intsetAdd is v = Some (is, v \<notin> set xs)"
      using s False search_split_found [OF s(2)] by (simp add: intsetAdd_def)
    then show ?thesis using inv True search_split_found [OF s(2)]
      by (intro exI [of _ "is"] exI [of _ xs]) auto
  next
    case nf: False
    with s(2) have sp: "search_split xs v False pos" by simp
    have "int_fits (encoding is) v"
      using int_fits_iff_encoding [of "encoding is" v] inv v False by (simp add: intset_inv_def)
    from intset_insert_inv [OF inv sp this room] obtain is1 is2 is3 where
      r: "intsetResize is (ilength is + 1) = Some is1"
        "(if pos < ilength is1 then intsetMoveTail is1 pos (pos + 1) else Some is1) = Some is2"
        "intsetSet0 is2 (int pos) v = Some is3"
        "intset_inv (is3\<lparr>ilength := ilength is3 + 1\<rparr>) (take pos xs @ v # drop pos xs)" by blast
    have "intsetAdd is v = Some (is3\<lparr>ilength := ilength is3 + 1\<rparr>, v \<notin> set xs)"
      using r(1-3) s nf False search_split_found [OF s(2)] by (simp add: intsetAdd_def)
    then show ?thesis using r(4) sorted_insert_split [OF sorted sp]
      by (intro exI [of _ "is3\<lparr>ilength := ilength is3 + 1\<rparr>"] exI [of _ "take pos xs @ v # drop pos xs"]) auto
  qed
qed

lemma intsetRemove_set:
  assumes inv: "intset_inv is xs" and v: "int_fits 8 v"
  shows "\<exists>is' xs'. intsetRemove is v = Some (is', v \<in> set xs) \<and> intset_inv is' xs' \<and>
      set xs' = set xs - {v} \<and> length xs' \<le> length xs"
proof (cases "intsetValueEncoding v > encoding is")
  case True
  then have "v \<notin> set xs"
    using int_fits_iff_encoding [of "encoding is" v] inv v by (auto simp: intset_inv_def)
  then have "intsetRemove is v = Some (is, v \<in> set xs)" using True by (simp add: intsetRemove_def)
  then show ?thesis using inv \<open>v \<notin> set xs\<close> by (intro exI [of _ "is"] exI [of _ xs]) auto
next
  case False
  obtain found pos where s: "intsetSearch is v = Some (found, pos)" "search_split xs v found pos"
    using intsetSearch_correct [OF inv] by blast
  show ?thesis
  proof (cases found)
    case nf: False
    then have "v \<notin> set xs" using search_split_found [OF s(2)] by simp
    moreover from this have "intsetRemove is v = Some (is, v \<in> set xs)"
      using s nf False by (simp add: intsetRemove_def)
    ultimately show ?thesis using inv by (intro exI [of _ "is"] exI [of _ xs]) auto
  next
    case True
    with s(2) have sp: "search_split xs v True pos" by simp
    from intset_delete_inv [OF inv sp] obtain is1 is2 where
      r: "(if pos < ilength is - 1 then intsetMoveTail is (pos + 1) pos else Some is) = Some is1"
        "intsetResize is1 (ilength is - 1) = Some is2"
        "intset_inv (is2\<lparr>ilength := ilength is - 1\<rparr>) (take pos xs @ drop (pos + 1) xs)" by blast
    have "intsetRemove is v = Some (is2\<lparr>ilength := ilength is - 1\<rparr>, v \<in> set xs)"
      using r(1,2) s True False search_split_found [OF s(2)] by (simp add: intsetRemove_def)
    then show ?thesis using r(3) set_remove_split [OF _ sp] inv
      by (intro exI [of _ "is2\<lparr>ilength := ilength is - 1\<rparr>"] exI [of _ "take pos xs @ drop (pos + 1) xs"])
        (auto simp: intset_inv_def)
  qed
qed

lemma intsetFind_set:
  assumes inv: "intset_inv is xs" and v: "int_fits 8 v"
  shows "intsetFind is v = Some (v \<in> set xs)"
proof -
  obtain found pos where s: "intsetSearch is v = Some (found, pos)" "search_split xs v found pos"
    using intsetSearch_correct [OF inv] by blast
  have "intsetValueEncoding v > encoding is \<Longrightarrow> v \<notin> set xs"
    using int_fits_iff_encoding [of "encoding is" v] inv v by (auto simp: intset_inv_def)
  then show ?thesis using s search_split_found [OF s(2)] by (auto simp: intsetFind_def)
qed

lemma intsetNew_inv: "intset_inv intsetNew []"
  by (simp add: intsetNew_def intset_inv_def)

subsection \<open>Validating a serialized intset\<close>

definition intset_blob :: "intset \<Rightarrow> bytes" where
  "intset_blob is = le_bytes 4 (int (encoding is)) @ le_bytes 4 (int (ilength is)) @ contents is"

definition intset_wf :: "intset \<Rightarrow> int list \<Rightarrow> bool" where
  "intset_wf is xs \<longleftrightarrow>
     encoding is \<in> {2, 4, 8} \<and> ilength is = length xs \<and>
     contents is = concat (map (le_bytes (encoding is)) xs) \<and>
     sorted_wrt (<) xs \<and> (\<forall>x \<in> set xs. int_fits (encoding is) x)"

lemma intset_inv_wf: "intset_inv is xs \<longleftrightarrow> intset_wf is xs \<and> 8 * length xs < 2 ^ 32"
  by (auto simp: intset_inv_def intset_wf_def)

definition intset_records :: "intset \<Rightarrow> int list" where
  "intset_records is =
     map (\<lambda>i. le_sint (slice (contents is) (i * encoding is) (encoding is))) [0..<ilength is]"

lemma intset_records_get:
  assumes "encoding is \<in> {2, 4, 8}" and "length (contents is) = ilength is * encoding is"
    and "i < ilength is" and "ilength is < 2 ^ 31"
  shows "intsetGet0 is (i32 (int i)) = Some (intset_records is ! i)"
proof -
  have "i32 (int i) = int i" using assms(3,4) by (intro i32_id) auto
  then show ?thesis using assms slot_bound [OF assms(3), of "encoding is"]
    by (simp add: intsetGet0_def intsetGetEncoded_rdn rdn_def intset_records_def)
qed

lemma intset_records_wf:
  assumes e: "encoding is \<in> {2, 4, 8}" and len: "length (contents is) = ilength is * encoding is"
  shows "intset_wf is xs \<longleftrightarrow> xs = intset_records is \<and> sorted_wrt (<) xs"
proof
  assume wf: "intset_wf is xs"
  have "xs = intset_records is"
  proof (rule nth_equalityI)
    show "length xs = length (intset_records is)" using wf by (simp add: intset_wf_def intset_records_def)
    fix i
    assume i: "i < length xs"
    then have "slice (contents is) (i * encoding is) (encoding is) = le_bytes (encoding is) (xs ! i)"
      using wf by (simp add: intset_wf_def slice_concat)
    then show "xs ! i = intset_records is ! i"
      using wf i by (simp add: intset_wf_def intset_records_def le_sint_le_bytes)
  qed
  then show "xs = intset_records is \<and> sorted_wrt (<) xs" using wf by (simp add: intset_wf_def)
next
  assume asm: "xs = intset_records is \<and> sorted_wrt (<) xs"
  let ?e = "encoding is"
  have sl: "length (slice (contents is) (i * ?e) ?e) = ?e" if "i < ilength is" for i
    using slot_bound [OF that, of ?e] len by simp
  have "contents is = concat (map (le_bytes ?e) (intset_records is))"
  proof (rule concat_eqI)
    show "length (contents is) = length (intset_records is) * ?e" using len by (simp add: intset_records_def)
    fix i
    assume "i < length (intset_records is)"
    then have "i < ilength is" by (simp add: intset_records_def)
    then show "slice (contents is) (i * ?e) ?e = le_bytes ?e (intset_records is ! i)"
      using le_bytes_le_sint [of "slice (contents is) (i * ?e) ?e"] sl by (simp add: intset_records_def)
  qed
  moreover have "\<forall>x \<in> set (intset_records is). int_fits ?e x"
  proof
    fix x
    assume "x \<in> set (intset_records is)"
    then obtain i where i: "i < ilength is" "x = le_sint (slice (contents is) (i * ?e) ?e)"
      by (auto simp: intset_records_def)
    moreover have "slice (contents is) (i * ?e) ?e \<noteq> []" using sl [OF i(1)] e by auto
    ultimately show "int_fits ?e x" using le_sint_fits sl [OF i(1)] by metis
  qed
  moreover have "ilength is = length (intset_records is)" by (simp add: intset_records_def)
  ultimately show "intset_wf is xs" using asm e by (auto simp: intset_wf_def)
qed

lemma intset_validate_loop_sorted:
  assumes get: "\<And>j. j < n \<Longrightarrow> intsetGet0 is (i32 (int j)) = Some (xs ! j)"
  shows "0 < i \<Longrightarrow> intset_validate_loop is (xs ! (i - 1)) i n
    = Some (\<forall>j. i \<le> j \<and> j < n \<longrightarrow> xs ! (j - 1) < xs ! j)"
proof (induction "n - i" arbitrary: i rule: less_induct)
  case less
  show ?case
  proof (cases "i < n")
    case False
    then show ?thesis by (subst intset_validate_loop.simps) auto
  next
    case True
    have IH: "intset_validate_loop is (xs ! i) (i + 1) n
        = Some (\<forall>j. i + 1 \<le> j \<and> j < n \<longrightarrow> xs ! (j - 1) < xs ! j)"
      using less.hyps [of "i + 1"] True by simp
    have "(\<forall>j. i \<le> j \<and> j < n \<longrightarrow> xs ! (j - 1) < xs ! j) \<longleftrightarrow>
        xs ! (i - 1) < xs ! i \<and> (\<forall>j. i + 1 \<le> j \<and> j < n \<longrightarrow> xs ! (j - 1) < xs ! j)"
      using True by (metis Suc_eq_plus1 Suc_leI le_eq_less_or_eq le_SucI Suc_le_lessD)
    then show ?thesis using True get [of i] IH
      by (subst intset_validate_loop.simps) (auto simp: not_le)
  qed
qed

lemma sorted_wrt_adjacent:
  "sorted_wrt (<) (xs :: int list) \<longleftrightarrow> (\<forall>j. 1 \<le> j \<and> j < length xs \<longrightarrow> xs ! (j - 1) < xs ! j)"
proof -
  have "sorted_wrt (<) xs \<longleftrightarrow> (\<forall>i. Suc i < length xs \<longrightarrow> xs ! i < xs ! Suc i)"
    by (rule sorted_wrt_iff_nth_Suc_transp) (auto intro: transpI)
  also have "\<dots> \<longleftrightarrow> (\<forall>j. 1 \<le> j \<and> j < length xs \<longrightarrow> xs ! (j - 1) < xs ! j)"
    by (metis One_nat_def Suc_le_D Suc_pred' diff_Suc_1 less_eq_Suc_le not_less_eq_eq zero_less_Suc le0 lessI Suc_le_eq)
  finally show ?thesis .
qed

lemma intset_of_blob_inverse:
  "encoding is < 2 ^ 32 \<Longrightarrow> ilength is < 2 ^ 32 \<Longrightarrow> intset_of_blob (intset_blob is) = is"
  by (simp add: intset_of_blob_def intset_blob_def slice_def le_uint_le_bytes)

lemma intset_blob_of_blob:
  assumes "8 \<le> length p"
  shows "intset_blob (intset_of_blob p) = p"
proof -
  have 1: "le_bytes 4 (le_uint (slice p 0 4)) = slice p 0 4"
    using assms le_bytes_le_uint [of "slice p 0 4"] by simp
  have 2: "le_bytes 4 (le_uint (slice p 4 4)) = slice p 4 4"
    using assms le_bytes_le_uint [of "slice p 4 4"] by simp
  have "intset_blob (intset_of_blob p) = slice p 0 4 @ slice p 4 4 @ drop 8 p"
    using 1 2 by (simp add: intset_blob_def intset_of_blob_def le_uint_nonneg)
  also have "\<dots> = p"
    by (simp add: slice_def) (metis append_assoc append_take_drop_id drop_drop numeral_Bit0 take_add)
  finally show ?thesis .
qed

lemma intsetValidateIntegrity_deep:
  assumes size: "length p < 2 ^ 32"
  shows "intsetValidateIntegrity p (length p) True =
      Some (\<exists>is xs. p = intset_blob is \<and> intset_wf is xs \<and> xs \<noteq> [])"
proof -
  let ?is = "intset_of_blob p"
  have drop8: "length (contents ?is) = length p - 8" by (simp add: intset_of_blob_def)
  let ?ok = "8 \<le> length p \<and> encoding ?is \<in> {2, 4, 8} \<and> 8 + ilength ?is * encoding ?is = length p \<and>
    0 < ilength ?is \<and> sorted_wrt (<) (intset_records ?is)"
  have spec: "(\<exists>is xs. p = intset_blob is \<and> intset_wf is xs \<and> xs \<noteq> []) \<longleftrightarrow> ?ok"
  proof
    assume "\<exists>is xs. p = intset_blob is \<and> intset_wf is xs \<and> xs \<noteq> []"
    then obtain "is" xs where p: "p = intset_blob is" and wf: "intset_wf is xs" and ne: "xs \<noteq> []" by blast
    have len: "length (contents is) = ilength is * encoding is"
      using wf by (simp add: intset_wf_def length_concat_const)
    have e: "encoding is \<in> {2, 4, 8}" and n: "ilength is = length xs" using wf by (auto simp: intset_wf_def)
    have plen: "length p = 8 + ilength is * encoding is" using p len by (simp add: intset_blob_def)
    have "ilength is \<le> ilength is * encoding is" using e by auto
    then have "ilength is < 2 ^ 32" using plen size by linarith
    moreover have "encoding is < 2 ^ 32" using e by auto
    ultimately have eq: "?is = is" unfolding p by (intro intset_of_blob_inverse)
    have "xs = intset_records is" "sorted_wrt (<) xs" using wf intset_records_wf [OF e len] by auto
    then show ?ok unfolding eq using e plen ne n by auto
  next
    assume ok: ?ok
    have len: "length (contents ?is) = ilength ?is * encoding ?is"
      using ok drop8 by linarith
    have "p = intset_blob ?is" using ok intset_blob_of_blob by simp
    moreover have "intset_wf ?is (intset_records ?is)"
      using ok intset_records_wf [OF _ len] by blast
    moreover have "intset_records ?is \<noteq> []" using ok by (simp add: intset_records_def)
    ultimately show "\<exists>is xs. p = intset_blob is \<and> intset_wf is xs \<and> xs \<noteq> []" by blast
  qed
  show ?thesis
  proof (cases "8 \<le> length p \<and> encoding ?is \<in> {2, 4, 8} \<and> 8 + ilength ?is * encoding ?is = length p \<and> 0 < ilength ?is")
    case False
    then show ?thesis unfolding spec by (auto simp: intsetValidateIntegrity_def Let_def)
  next
    case True
    then have e: "encoding ?is \<in> {2, 4, 8}" and len: "length (contents ?is) = ilength ?is * encoding ?is"
      using drop8 by (blast, linarith)
    have "2 * ilength ?is \<le> ilength ?is * encoding ?is" using e by auto
    also have "\<dots> \<le> length p" using True by linarith
    finally have small: "ilength ?is < 2 ^ 31" using size by simp
    have get: "intsetGet0 ?is (i32 (int j)) = Some (intset_records ?is ! j)" if "j < ilength ?is" for j
      using intset_records_get [OF e len that small] .
    have first: "intsetGet0 ?is 0 = Some (intset_records ?is ! 0)"
      using get [of 0] True by (simp add: i32_def)
    have "intset_validate_loop ?is (intset_records ?is ! 0) 1 (ilength ?is)
        = Some (sorted_wrt (<) (intset_records ?is))"
      using intset_validate_loop_sorted [OF get, of "ilength ?is" 1]
      by (simp add: sorted_wrt_adjacent intset_records_def)
    then show ?thesis unfolding spec using True first
      by (auto simp: intsetValidateIntegrity_def Let_def)
  qed
qed

subsection \<open>The intset as a set of integers\<close>

interpretation intset_store: set_store intset_inv intsetAdd intsetRemove intsetFind "int_fits 8" "2 ^ 29 - 1"
proof unfold_locales
  fix "is" xs v
  assume "intset_inv is xs" and "int_fits 8 v" and "length xs < 2 ^ 29 - 1"
  then show "\<exists>s' xs'. intsetAdd is v = Some (s', v \<notin> set xs) \<and> intset_inv s' xs' \<and>
      set xs' = insert v (set xs) \<and> length xs' \<le> length xs + 1"
    by (intro intsetAdd_set) simp_all
next
  fix "is" xs v
  assume "intset_inv is xs" and "int_fits 8 v"
  then show "\<exists>s' xs'. intsetRemove is v = Some (s', v \<in> set xs) \<and> intset_inv s' xs' \<and>
      set xs' = set xs - {v} \<and> length xs' \<le> length xs"
    by (rule intsetRemove_set)
next
  fix "is" xs v
  assume "intset_inv is xs" and "int_fits 8 v"
  then show "intsetFind is v = Some (v \<in> set xs)" by (rule intsetFind_set)
qed

definition intset_example :: intset where
  "intset_example = \<lparr>encoding = 2, ilength = 2, contents = [251, 255, 7, 0]\<rparr>"

lemma intset_example_inv: "intset_inv intset_example [-5, 7]"
  by (simp add: intset_example_def intset_inv_def int_fits_2 le_bytes_numeral)

text \<open>
  C1: Adding an \<^verbatim>\<open>int64_t\<close> to a well-formed intset of fewer than \<open>2 ^ 29 - 1\<close> elements never
  leaves its memory, keeps it well-formed (sorted, no duplicate, minimal moves, upgraded
  encoding), adds exactly that value and reports success exactly when it was not a member.
\<close>

theorem intsetAdd_correct:
  assumes "intset_inv is xs" and "int_fits 8 v" and "length xs < 2 ^ 29 - 1"
  shows "\<exists>is' xs'. intsetAdd is v = Some (is', v \<notin> set xs) \<and> intset_inv is' xs' \<and>
    set xs' = insert v (set xs) \<and> length xs' \<le> length xs + 1"
  using assms by (rule intset_store.add_law)

theorem intsetAdd_correct_witness:
  "\<exists>is' xs'. intsetAdd intset_example 70000 = Some (is', True) \<and>
    intset_inv is' xs' \<and> set xs' = {70000, -5, 7}"
  using intsetAdd_correct [OF intset_example_inv, of 70000] by (auto simp: int_fits_8)

text \<open>
  C2: The in-place upgrade to a wider encoding (values moved from the last to the first, in
  the buffer they are read from) loses no value: the result holds the old values and the new
  one, at its front when negative and at its end otherwise.
\<close>

theorem intsetUpgradeAndAdd_correct:
  assumes "intset_inv is xs" and "int_fits 8 v" and "intsetValueEncoding v > encoding is"
    and "8 * (length xs + 1) < 2 ^ 32"
  shows "\<exists>is'. intsetUpgradeAndAdd is v = Some is' \<and>
    intset_inv is' (if v < 0 then v # xs else xs @ [v]) \<and> v \<notin> set xs"
  using assms by (rule intsetUpgradeAndAdd_inv)

theorem intsetUpgradeAndAdd_correct_witness:
  "\<exists>is'. intsetUpgradeAndAdd intset_example (-70000) = Some is' \<and> intset_inv is' [-70000, -5, 7]"
  using intsetUpgradeAndAdd_correct [OF intset_example_inv, of "-70000"]
  by (auto simp: int_fits_8 intsetValueEncoding_def intset_example_def)

text \<open>
  C3: Any sequence of additions and removals from the empty intset runs without leaving its
  memory, and afterwards a lookup answers membership in the set the sequence builds.
\<close>

theorem intset_run_correct:
  assumes "\<forall>x \<in> set ops. int_fits 8 (set_op_val x)" and "length ops \<le> 2 ^ 29 - 1"
  shows "\<exists>is. run_set_ops intsetAdd intsetRemove ops intsetNew = Some is \<and>
    (\<forall>v. int_fits 8 v \<longrightarrow> intsetFind is v = Some (v \<in> fold set_op_abs ops {}))"
  using intset_store.run_find [OF intsetNew_inv assms] .

theorem intset_run_correct_witness:
  "\<exists>is. run_set_ops intsetAdd intsetRemove [SAdd 5, SAdd 100000, SAdd (-3), SRem 5] intsetNew = Some is \<and>
    intsetFind is 100000 = Some True \<and> intsetFind is 5 = Some False"
  using intset_run_correct [of "[SAdd 5, SAdd 100000, SAdd (-3), SRem 5]"]
  by (auto simp: int_fits_8)

text \<open>
  C4: The deep integrity check of a serialized intset (below 4GB) accepts exactly the buffers
  that are the serialization of a non-empty well-formed intset, and never reads outside them.
\<close>

theorem intsetValidateIntegrity_exact:
  assumes "length p < 2 ^ 32"
  shows "intsetValidateIntegrity p (length p) True =
    Some (\<exists>is xs. p = intset_blob is \<and> intset_wf is xs \<and> xs \<noteq> [])"
  using assms by (rule intsetValidateIntegrity_deep)

theorem intsetValidateIntegrity_exact_witness:
  "intsetValidateIntegrity [2, 0, 0, 0, 2, 0, 0, 0, 7, 0, 251, 255]
     (length [2, 0, 0, 0, 2, 0, 0, 0, 7, 0, 251, 255 :: byte]) True =
   Some (\<exists>is xs. [2, 0, 0, 0, 2, 0, 0, 0, 7, 0, 251, 255] = intset_blob is \<and> intset_wf is xs \<and> xs \<noteq> [])"
  by (rule intsetValidateIntegrity_exact) simp

end
