(* ===== verification/Util_Num.thy ===== *)
theory Util_Num
  imports Bytes
begin

text \<open>
  The integer conversions of \<^verbatim>\<open>src/redis-stable/src/util.c\<close> (\<^verbatim>\<open>digits10\<close>, \<^verbatim>\<open>ull2string\<close>,
  \<^verbatim>\<open>ll2string\<close>, \<^verbatim>\<open>string2ll\<close>) and the copy of \<^verbatim>\<open>string2ll\<close> in \<^verbatim>\<open>listpack.c\<close>. A string is its
  bytes; \<^verbatim>\<open>unsigned long long\<close> values are \<^typ>\<open>nat\<close>, with the overflow checks of the code
  written out against \<open>ULLONG_MAX\<close>. A parser returns \<^term>\<open>None\<close> where the C function returns 0.
\<close>

definition ULLONG_MAX :: nat where
  "ULLONG_MAX = 18446744073709551615"

definition LLONG_MAX :: nat where
  "LLONG_MAX = 9223372036854775807"

text \<open>\<^verbatim>\<open>LONG_STR_SIZE\<close> of \<^verbatim>\<open>util.h\<close>\<close>

definition LONG_STR_SIZE :: nat where
  "LONG_STR_SIZE = 21"

fun digits10 :: "nat \<Rightarrow> nat" where
  "digits10 v =
     (if v < 10 then 1
      else if v < 100 then 2
      else if v < 1000 then 3
      else if v < 1000000000000 then
        (if v < 100000000 then
           (if v < 1000000 then
              (if v < 10000 then 4 else 5 + (if v \<ge> 100000 then 1 else 0))
            else 7 + (if v \<ge> 10000000 then 1 else 0))
         else if v < 10000000000 then 9 + (if v \<ge> 1000000000 then 1 else 0)
         else 11 + (if v \<ge> 100000000000 then 1 else 0))
      else 12 + digits10 (v div 1000000000000))"

declare digits10.simps [simp del]

definition sdigits10 :: "int \<Rightarrow> nat" where
  "sdigits10 v = (if v < 0 then digits10 (nat (- v)) + 1 else digits10 (nat v))"

text \<open>The table of the two-digit strings.\<close>

definition digits_table :: "bytes" where
  "digits_table = map of_char
     (''0001020304050607080910111213141516171819'' @
      ''2021222324252627282930313233343536373839'' @
      ''4041424344454647484950515253545556575859'' @
      ''6061626364656667686970717273747576777879'' @
      ''8081828384858687888990919293949596979899'')"

text \<open>
  The writing loop of \<^verbatim>\<open>ull2string\<close> and the last one or two digits; \<^verbatim>\<open>dst\<close> is the offset \<open>dst\<close> in
  the buffer \<open>m\<close>.
\<close>

function ull2string_loop :: "bytes \<Rightarrow> nat \<Rightarrow> nat \<Rightarrow> nat \<Rightarrow> bytes option" where
  "ull2string_loop m dst nxt v =
     (if v \<ge> 100 then
        do {
          let i = (v mod 100) * 2;
          m1 \<leftarrow> wrn m (dst + nxt) [digits_table ! (i + 1)];
          m2 \<leftarrow> (if nxt < 1 then None else wrn m1 (dst + nxt - 1) [digits_table ! i]);
          ull2string_loop m2 dst (nxt - 2) (v div 100)
        }
      else if v < 10 then wrn m (dst + nxt) [48 + of_nat v]
      else
        do {
          let i = v * 2;
          m1 \<leftarrow> wrn m (dst + nxt) [digits_table ! (i + 1)];
          if nxt < 1 then None else wrn m1 (dst + nxt - 1) [digits_table ! i]
        })"
  by pat_completeness auto
termination
  by (relation "measure (\<lambda>(m, dst, nxt, v). v)") auto

declare ull2string_loop.simps [simp del]

text \<open>Both printers return the buffer and the C return value.\<close>

definition ull2string :: "bytes \<Rightarrow> nat \<Rightarrow> nat \<Rightarrow> nat \<Rightarrow> (bytes \<times> nat) option" where
  "ull2string m dst dstlen v =
     (let len = digits10 v
      in if len \<ge> dstlen then
           (if dstlen > 0 then map_option (\<lambda>m'. (m', 0)) (wrn m dst [0]) else Some (m, 0))
         else do {
           let nxt = len - 1;
           m1 \<leftarrow> wrn m (dst + nxt + 1) [0];
           m2 \<leftarrow> ull2string_loop m1 dst nxt v;
           Some (m2, len)
         })"

definition ll2string :: "bytes \<Rightarrow> nat \<Rightarrow> nat \<Rightarrow> int \<Rightarrow> (bytes \<times> nat) option" where
  "ll2string m dst dstlen sv =
     (if sv < 0 then
        (if dstlen < 2 then
           (if dstlen > 0 then map_option (\<lambda>m'. (m', 0)) (wrn m dst [0]) else Some (m, 0))
         else do {
           m1 \<leftarrow> wrn m dst [45];
           (m2, len) \<leftarrow> ull2string m1 (dst + 1) (dstlen - 1) (nat (- sv));
           Some (m2, if len = 0 then 0 else len + 1)
         })
      else ull2string m dst dstlen (nat sv))"

fun string2ll_digits :: "nat \<Rightarrow> bytes \<Rightarrow> (nat \<times> bytes) option" where
  "string2ll_digits v [] = Some (v, [])"
| "string2ll_digits v (c # cs) =
     (if c \<ge> 48 \<and> c \<le> 57 then
        (if v > ULLONG_MAX div 10 then None
         else let v = v * 10
              in if v > ULLONG_MAX - unat (c - 48) then None
                 else string2ll_digits (v + unat (c - 48)) cs)
      else Some (v, c # cs))"

definition string2ll :: "bytes \<Rightarrow> int option" where
  "string2ll s =
     (if length s = 0 \<or> length s \<ge> LONG_STR_SIZE then None
      else if length s = 1 \<and> s ! 0 = 48 then Some 0
      else let negative = (s ! 0 = 45); p = (if negative then tl s else s)
           in if p = [] then None
              else if p ! 0 \<ge> 49 \<and> p ! 0 \<le> 57 then
                do {
                  (v, rest) \<leftarrow> string2ll_digits (unat (p ! 0 - 48)) (tl p);
                  if rest \<noteq> [] then None
                  else if negative then (if v > LLONG_MAX + 1 then None else Some (- int v))
                  else if v > LLONG_MAX then None else Some (int v)
                }
              else None)"

definition string2l :: "bytes \<Rightarrow> int option" where
  "string2l s =
     do {
       llval \<leftarrow> string2ll s;
       if llval < - (2 ^ 63) \<or> llval > 2 ^ 63 - 1 then None else Some llval
     }"

text \<open>\<^verbatim>\<open>lpStringToInt64\<close> of \<^verbatim>\<open>listpack.c\<close>, with its own digit loop.\<close>

fun lp_digits_loop :: "nat \<Rightarrow> bytes \<Rightarrow> (nat \<times> bytes) option" where
  "lp_digits_loop v [] = Some (v, [])"
| "lp_digits_loop v (c # cs) =
     (if 48 \<le> c \<and> c \<le> 57 then
        (if v > 18446744073709551615 div 10 then None
         else if v * 10 > 18446744073709551615 - unat (c - 48) then None
         else lp_digits_loop (v * 10 + unat (c - 48)) cs)
      else Some (v, c # cs))"

definition lpStringToInt64 :: "bytes \<Rightarrow> int option" where
  "lpStringToInt64 s =
     (case s of
        [] \<Rightarrow> None
      | c # cs \<Rightarrow>
          (if length s \<ge> LONG_STR_SIZE then None
           else if cs = [] \<and> c = 48 then Some 0
           else let p = (if c = 45 then cs else s)
                in case p of
                     [] \<Rightarrow> None
                   | d # ds \<Rightarrow>
                       (if 49 \<le> d \<and> d \<le> 57 then
                          (case lp_digits_loop (unat (d - 48)) ds of
                             None \<Rightarrow> None
                           | Some (v, rest) \<Rightarrow>
                               (if rest \<noteq> [] then None
                                else if c = 45
                                  then (if v > 9223372036854775808 then None else Some (- int v))
                                else if v > 9223372036854775807 then None else Some (int v)))
                        else None)))"

subsection \<open>Decimal strings\<close>

fun dec :: "nat \<Rightarrow> bytes" where
  "dec n = (if n < 10 then [48 + of_nat n] else dec (n div 10) @ [48 + of_nat (n mod 10)])"

declare dec.simps [simp del]

definition dec_int :: "int \<Rightarrow> bytes" where
  "dec_int v = (if v < 0 then 45 # dec (nat (- v)) else dec (nat v))"

lemma dec_small: "n < 10 \<Longrightarrow> dec n = [48 + of_nat n]"
  by (subst dec.simps) simp

lemma dec_step: "10 \<le> n \<Longrightarrow> dec n = dec (n div 10) @ [48 + of_nat (n mod 10)]"
  by (subst dec.simps) simp

lemma dec_step2: "100 \<le> n \<Longrightarrow>
    dec n = dec (n div 100) @ [48 + of_nat (n mod 100 div 10), 48 + of_nat (n mod 100 mod 10)]"
proof -
  assume n: "100 \<le> n"
  have "n div 10 div 10 = n div 100" by (simp flip: div_mult2_eq)
  moreover have "n div 10 mod 10 = n mod 100 div 10"
    using mod_mult2_eq [of n 10 10] by simp
  moreover have "n mod 10 = n mod 100 mod 10" by (simp add: mod_mod_cancel)
  moreover have "10 \<le> n div 10" using n by simp
  ultimately show ?thesis using n by (simp add: dec_step [of n] dec_step [of "n div 10"])
qed

lemma length_dec_pos: "0 < length (dec n)"
  by (subst dec.simps) simp

lemma length_dec_less: "length (dec n) \<le> k \<longleftrightarrow> n < 10 ^ k" if "0 < k"
  using that
proof (induction k arbitrary: n)
  case (Suc k)
  show ?case
  proof (cases "n < 10")
    case True
    have "10 \<le> 10 * (10::nat) ^ k" by simp
    then have "n < 10 ^ Suc k" using True unfolding power_Suc by linarith
    then show ?thesis using True by (simp add: dec_small)
  next
    case False
    then have "length (dec n) \<le> Suc k \<longleftrightarrow> length (dec (n div 10)) \<le> k" by (simp add: dec_step)
    also have "\<dots> \<longleftrightarrow> n div 10 < 10 ^ k"
    proof (cases k)
      case 0
      then show ?thesis using False length_dec_pos [of "n div 10"] by auto
    next
      case (Suc j)
      then show ?thesis using Suc.IH by simp
    qed
    also have "\<dots> \<longleftrightarrow> n < 10 ^ Suc k" by (simp add: div_less_iff_less_mult mult.commute)
    finally show ?thesis .
  qed
qed simp

lemma length_dec_eq: "0 < k \<Longrightarrow> 10 ^ k \<le> v \<Longrightarrow> v < 10 ^ Suc k \<Longrightarrow> length (dec v) = Suc k"
  using length_dec_less [of "Suc k" v] length_dec_less [of k v] by simp

lemma length_dec_shift: "10 ^ j \<le> v \<Longrightarrow> length (dec v) = j + length (dec (v div 10 ^ j))"
proof (induction j arbitrary: v)
  case (Suc j)
  have "10 \<le> 10 * (10::nat) ^ j" by simp
  then have "10 \<le> v" using Suc.prems unfolding power_Suc by linarith
  moreover have "10 ^ j \<le> v div 10" using Suc.prems by (simp add: less_eq_div_iff_mult_less_eq mult.commute)
  then have "length (dec (v div 10)) = j + length (dec (v div 10 div 10 ^ j))" by (rule Suc.IH)
  ultimately show ?case by (simp add: dec_step flip: div_mult2_eq)
qed simp

lemma digits10_dec: "digits10 v = length (dec v)"
proof (induction v rule: digits10.induct)
  case (1 v)
  consider "v < 10" | "10 \<le> v" "v < 10000" | "10000 \<le> v" "v < 100000000"
    | "100000000 \<le> v" "v < 1000000000000" | "1000000000000 \<le> v"
    by linarith
  then show ?case
  proof cases
    case 1
    then show ?thesis by (subst digits10.simps) (simp add: dec_small)
  next
    case 2
    then consider "10 \<le> v" "v < 100"
      | "100 \<le> v" "v < 1000"
      | "1000 \<le> v" "v < 10000"
      by linarith
    then show ?thesis
    proof cases
      case 1
      then show ?thesis using length_dec_eq [of 1 v] by (subst digits10.simps) simp
    next
      case 2
      then show ?thesis using length_dec_eq [of 2 v] by (subst digits10.simps) simp
    next
      case 3
      then show ?thesis using length_dec_eq [of 3 v] by (subst digits10.simps) simp
    qed
  next
    case 3
    then consider "10000 \<le> v" "v < 100000"
      | "100000 \<le> v" "v < 1000000"
      | "1000000 \<le> v" "v < 10000000"
      | "10000000 \<le> v" "v < 100000000"
      by linarith
    then show ?thesis
    proof cases
      case 1
      then show ?thesis using length_dec_eq [of 4 v] by (subst digits10.simps) simp
    next
      case 2
      then show ?thesis using length_dec_eq [of 5 v] by (subst digits10.simps) simp
    next
      case 3
      then show ?thesis using length_dec_eq [of 6 v] by (subst digits10.simps) simp
    next
      case 4
      then show ?thesis using length_dec_eq [of 7 v] by (subst digits10.simps) simp
    qed
  next
    case 4
    then consider "100000000 \<le> v" "v < 1000000000"
      | "1000000000 \<le> v" "v < 10000000000"
      | "10000000000 \<le> v" "v < 100000000000"
      | "100000000000 \<le> v" "v < 1000000000000"
      by linarith
    then show ?thesis
    proof cases
      case 1
      then show ?thesis using length_dec_eq [of 8 v] by (subst digits10.simps) simp
    next
      case 2
      then show ?thesis using length_dec_eq [of 9 v] by (subst digits10.simps) simp
    next
      case 3
      then show ?thesis using length_dec_eq [of 10 v] by (subst digits10.simps) simp
    next
      case 4
      then show ?thesis using length_dec_eq [of 11 v] by (subst digits10.simps) simp
    qed
  next
    case 5
    then have "length (dec v) = 12 + length (dec (v div 1000000000000))"
      using length_dec_shift [of 12 v] by simp
    then show ?thesis using 5 "1.IH" by (subst digits10.simps) simp
  qed
qed

subsection \<open>Printing\<close>

lemma digits_table_eq:
  "digits_table = concat (map (\<lambda>i. [48 + of_nat (i div 10), 48 + of_nat (i mod 10)]) [0..<100])"
  unfolding digits_table_def by code_simp

lemma digit_pairs_nth:
  fixes f g :: "nat \<Rightarrow> byte"
  assumes "i < n"
  shows "concat (map (\<lambda>i. [f i, g i]) [0..<n]) ! (i * 2) = f i"
    and "concat (map (\<lambda>i. [f i, g i]) [0..<n]) ! (i * 2 + 1) = g i"
  using assms
proof (induction n)
  case (Suc n)
  have len: "length (concat (map (\<lambda>i. [f i, g i]) [0..<n])) = n * 2"
    by (induction n) simp_all
  {
    case 1
    then show ?case using Suc len by (cases "i = n") (simp_all add: nth_append)
  next
    case 2
    then show ?case using Suc len by (cases "i = n") (auto simp: nth_append)
  }
qed simp_all

lemmas digits_table_nth =
  digit_pairs_nth [of _ 100 "\<lambda>i. 48 + of_nat (i div 10)" "\<lambda>i. 48 + of_nat (i mod 10)",
    folded digits_table_eq]

lemma ull2string_loop_dec:
  "length (dec v) = nxt + 1 \<Longrightarrow> dst + nxt < length m \<Longrightarrow>
   ull2string_loop m dst nxt v = Some (splice_at m dst (dec v))"
proof (induction v arbitrary: m nxt rule: less_induct)
  case (less v)
  consider "v < 10" | "10 \<le> v" "v < 100" | "100 \<le> v" by linarith
  then show ?case
  proof cases
    case 1
    then show ?thesis using less.prems by (subst ull2string_loop.simps) (simp add: dec_small wrn_def)
  next
    case 2
    then have "v div 10 < 10" by simp
    with 2 have d: "dec v = [48 + of_nat (v div 10), 48 + of_nat (v mod 10)]"
      by (simp add: dec_step [of v] dec_small [of "v div 10"])
    then have nxt: "nxt = 1" using less.prems(1) by simp
    have "ull2string_loop m dst nxt v =
        Some (splice_at (splice_at m (dst + 1) [48 + of_nat (v mod 10)]) dst [48 + of_nat (v div 10)])"
      using 2 less.prems(2) digits_table_nth [of v] nxt
      by (subst ull2string_loop.simps) (simp add: wrn_def)
    also have "\<dots> = Some (splice_at m dst (dec v))"
      using splice_append [of dst "[48 + of_nat (v div 10)]" "[48 + of_nat (v mod 10)]" m] less.prems(2) nxt d
      by simp
    finally show ?thesis .
  next
    case 3
    let ?x = "48 + of_nat (v mod 100 div 10) :: byte" and ?y = "48 + of_nat (v mod 100 mod 10) :: byte"
    have d: "dec v = dec (v div 100) @ [?x, ?y]" using 3 by (rule dec_step2)
    then have len: "length (dec (v div 100)) = nxt - 2 + 1" "2 \<le> nxt"
      using less.prems(1) length_dec_pos [of "v div 100"] by (simp_all del: length_greater_0_conv)
    let ?m1 = "splice_at m (dst + nxt) [?y]" and ?m2 = "splice_at m (dst + nxt - 1) [?x, ?y]"
    have m2: "splice_at ?m1 (dst + nxt - 1) [?x] = ?m2"
      using splice_append [of "dst + nxt - 1" "[?x]" "[?y]" m] less.prems(2) len(2) by simp
    have "ull2string_loop m dst nxt v = ull2string_loop ?m2 dst (nxt - 2) (v div 100)"
      using 3 less.prems(2) digits_table_nth [of "v mod 100"] len(2) m2
      by (subst ull2string_loop.simps) (simp add: wrn_def)
    also have "\<dots> = Some (splice_at ?m2 dst (dec (v div 100)))"
      using len less.prems(2) 3 by (intro less.IH) auto
    also have "splice_at ?m2 dst (dec (v div 100)) = splice_at m dst (dec v)"
    proof -
      have "dst + nxt - 1 = dst + length (dec (v div 100))" using len by simp
      then show ?thesis
        using splice_append [of dst "dec (v div 100)" "[?x, ?y]" m] len less.prems(2) d by simp
    qed
    finally show ?thesis .
  qed
qed

lemma ull2string_dec:
  assumes "length (dec v) < dstlen" and "dst + dstlen \<le> length m"
  shows "ull2string m dst dstlen v = Some (splice_at m dst (dec v @ [0]), length (dec v))"
proof -
  let ?n = "length (dec v)"
  have n: "0 < ?n" by (rule length_dec_pos)
  have e: "Suc (?n - Suc 0) = ?n" "Suc (dst + (?n - Suc 0)) = dst + ?n" using n by (simp_all del: length_greater_0_conv)
  have "ull2string_loop (splice_at m (dst + ?n) [0]) dst (?n - 1) v
      = Some (splice_at (splice_at m (dst + ?n) [0]) dst (dec v))"
    using assms n by (intro ull2string_loop_dec) auto
  then show ?thesis using assms n splice_append [of dst "dec v" "[0]" m]
    by (simp add: ull2string_def digits10_dec wrn_def Let_def e)
qed

lemma ll2string_dec_int:
  assumes "length (dec_int v) < dstlen" and "dst + dstlen \<le> length m"
  shows "ll2string m dst dstlen v = Some (splice_at m dst (dec_int v @ [0]), length (dec_int v))"
proof (cases "v < 0")
  case True
  let ?n = "nat (- v)"
  have len: "length (dec ?n) < dstlen - 1" and two: "\<not> dstlen < 2"
    using assms True length_dec_pos [of ?n] by (auto simp: dec_int_def)
  have "ull2string (splice_at m dst [45]) (dst + 1) (dstlen - 1) ?n
      = Some (splice_at (splice_at m dst [45]) (dst + 1) (dec ?n @ [0]), length (dec ?n))"
    using len assms(2) two by (intro ull2string_dec) auto
  moreover have "splice_at (splice_at m dst [45]) (dst + 1) (dec ?n @ [0]) = splice_at m dst (45 # dec ?n @ [0])"
    using assms(2) len two by (simp add: splice_at_def min_def add.commute)
  ultimately show ?thesis using True two assms(2) length_dec_pos [of ?n]
    by (simp add: ll2string_def dec_int_def wrn_def)
next
  case False
  then show ?thesis using ull2string_dec assms by (simp add: ll2string_def dec_int_def)
qed

subsection \<open>Parsing\<close>

definition is_digit :: "byte \<Rightarrow> bool" where
  "is_digit c \<longleftrightarrow> 48 \<le> c \<and> c \<le> 57"

definition dval :: "nat \<Rightarrow> bytes \<Rightarrow> nat" where
  "dval = foldl (\<lambda>a c. a * 10 + unat (c - 48))"

lemma dval_simps [simp]: "dval a [] = a" "dval a (c # cs) = dval (a * 10 + unat (c - 48)) cs"
  "dval a (s @ t) = dval (dval a s) t"
  by (simp_all add: dval_def)

lemma dval_ge: "a \<le> dval a s"
proof (induction s arbitrary: a)
  case (Cons c s)
  show ?case using Cons.IH [of "a * 10 + unat (c - 48)"] by simp
qed simp

lemma digit_word: "n < 10 \<Longrightarrow> unat (48 + of_nat n :: byte) = 48 + n"
  by (simp add: unat_word_ariths unat_of_nat)

lemma digit_value: "n < 10 \<Longrightarrow> unat (48 + of_nat n - 48 :: byte) = n"
  by (simp add: unat_of_nat)

lemma is_digit_of_nat: "n < 10 \<Longrightarrow> is_digit (48 + of_nat n)"
  by (simp add: is_digit_def word_le_nat_alt digit_word)

lemma is_digitE:
  assumes "is_digit c"
  obtains n where "n < 10" "c = 48 + of_nat n" "unat (c - 48) = n"
proof
  have "48 \<le> unat c" "unat c \<le> 57" using assms by (simp_all add: is_digit_def word_le_nat_alt)
  moreover have e: "unat (c - 48) = unat c - 48"
    using assms by (simp add: is_digit_def unat_sub)
  ultimately show "unat (c - 48) < 10" by simp
  show "c = 48 + of_nat (unat (c - 48))" by simp
qed simp

lemma dec_digits: "c \<in> set (dec n) \<Longrightarrow> is_digit c"
proof (induction n rule: less_induct)
  case (less n)
  show ?case
  proof (cases "n < 10")
    case False
    then show ?thesis
      using less.IH [of "n div 10"] less.prems by (auto simp: dec_step is_digit_of_nat)
  qed (use less.prems in \<open>simp add: dec_small is_digit_of_nat\<close>)
qed

lemma dval_dec [simp]: "dval 0 (dec n) = n"
proof (induction n rule: less_induct)
  case (less n)
  show ?case
  proof (cases "n < 10")
    case False
    then show ?thesis using less.IH [of "n div 10"] by (simp add: dec_step unat_of_nat)
  qed (simp add: dec_small unat_of_nat)
qed

lemma dec_inj: "dec m = dec n \<longleftrightarrow> m = n"
  by (metis dval_dec)

lemma dec_snoc: "0 < v \<Longrightarrow> is_digit c \<Longrightarrow> dec v @ [c] = dec (v * 10 + unat (c - 48))"
  by (erule is_digitE) (simp add: dec_step [of "v * 10 + _"])

lemma dec_prefix_le: "dec n = dec v @ cs \<Longrightarrow> v \<le> n"
  by (metis dval_dec dval_simps(3) dval_ge)

lemma string2ll_digits_dec:
  "0 < v \<Longrightarrow> dec n = dec v @ cs \<Longrightarrow> n \<le> ULLONG_MAX \<Longrightarrow> string2ll_digits v cs = Some (n, [])"
proof (induction cs arbitrary: v)
  case Nil
  then show ?case by (simp add: dec_inj)
next
  case (Cons c cs)
  have c: "is_digit c" using Cons.prems(2) dec_digits [of c n] by simp
  then have n: "dec n = dec (v * 10 + unat (c - 48)) @ cs"
    using Cons.prems dec_snoc [of v c] by (metis append.assoc append_Cons append_Nil)
  then have "v * 10 + unat (c - 48) \<le> ULLONG_MAX" using Cons.prems(3) dec_prefix_le by fastforce
  moreover from this have "v \<le> ULLONG_MAX div 10"
    by (simp add: less_eq_div_iff_mult_less_eq)
  moreover have "string2ll_digits (v * 10 + unat (c - 48)) cs = Some (n, [])"
    using Cons.prems n by (intro Cons.IH) auto
  ultimately show ?case using c by (auto simp: is_digit_def Let_def)
qed

lemma string2ll_digits_sound:
  "string2ll_digits v cs = Some (n, []) \<Longrightarrow> 0 < v \<Longrightarrow> v \<le> ULLONG_MAX \<Longrightarrow>
   dec n = dec v @ cs \<and> n \<le> ULLONG_MAX"
proof (induction cs arbitrary: v)
  case (Cons c cs)
  then have c: "is_digit c" and step: "string2ll_digits (v * 10 + unat (c - 48)) cs = Some (n, [])"
    and le: "v * 10 \<le> ULLONG_MAX - unat (c - 48)"
    by (auto simp: is_digit_def Let_def split: if_splits)
  have "unat (c - 48) \<le> ULLONG_MAX" using c by (auto elim!: is_digitE simp: ULLONG_MAX_def)
  with le have "v * 10 + unat (c - 48) \<le> ULLONG_MAX" by simp
  then have "dec n = dec (v * 10 + unat (c - 48)) @ cs \<and> n \<le> ULLONG_MAX"
    using step Cons.prems(2) by (intro Cons.IH) auto
  then show ?case using dec_snoc [OF Cons.prems(2) c] by (metis append.assoc append_Cons append_Nil)
qed simp

lemma hd_dec: "0 < n \<Longrightarrow> hd (dec n) \<noteq> 48"
proof (induction n rule: less_induct)
  case (less n)
  show ?case
  proof (cases "n < 10")
    case True
    then have "unat (48 + of_nat n :: byte) \<noteq> unat (48 :: byte)"
      using less.prems by (simp add: digit_word)
    then show ?thesis using True by (auto simp: dec_small)
  next
    case False
    then have "0 < n div 10" by (simp add: div_greater_zero_iff)
    then show ?thesis
      using less.IH [of "n div 10"] False length_dec_pos [of "n div 10"] by (simp add: dec_step)
  qed
qed

lemma dec_Cons_pos:
  assumes "0 < n"
  obtains c cs where "dec n = c # cs" "49 \<le> c" "c \<le> 57"
proof -
  obtain c cs where d: "dec n = c # cs" using length_dec_pos [of n] by (cases "dec n") auto
  then have "is_digit c" "c \<noteq> 48" using dec_digits [of c n] hd_dec [OF assms] by auto
  then have "48 \<le> unat c" "unat c \<noteq> unat (48 :: byte)" "unat c \<le> 57"
    by (simp_all add: is_digit_def word_le_nat_alt word_unat_eq_iff)
  then have "49 \<le> c" "c \<le> 57" by (simp_all add: word_le_nat_alt)
  with d show thesis by (rule that)
qed

lemma string2ll_digits_iff:
  assumes "49 \<le> c" "c \<le> 57"
  shows "string2ll_digits (unat (c - 48)) cs = Some (n, []) \<longleftrightarrow> dec n = c # cs \<and> n \<le> ULLONG_MAX"
proof -
  have u: "49 \<le> unat c" "unat c \<le> 57" using assms by (simp_all add: word_le_nat_alt)
  then have dig: "is_digit c" by (simp add: is_digit_def word_le_nat_alt)
  then have "unat (c - 48) = unat c - 48" by (simp add: is_digit_def unat_sub)
  then have pos: "0 < unat (c - 48)" "unat (c - 48) \<le> ULLONG_MAX"
    using u by (simp_all add: ULLONG_MAX_def)
  moreover have "dec (unat (c - 48)) = [c]"
    using dig by (auto elim!: is_digitE simp: dec_small)
  ultimately show ?thesis
    using string2ll_digits_sound [of "unat (c - 48)" cs n]
      string2ll_digits_dec [of "unat (c - 48)" n cs] by auto
qed

lemma length_dec_64: "n \<le> LLONG_MAX + 1 \<Longrightarrow> length (dec n) \<le> 19"
  by (simp add: length_dec_less LLONG_MAX_def)

lemma string2ll_dec_int:
  assumes "- (2 ^ 63) \<le> v" "v < 2 ^ 63"
  shows "string2ll (dec_int v) = Some v"
proof -
  have b: "nat \<bar>v\<bar> \<le> LLONG_MAX + 1" "0 \<le> v \<Longrightarrow> nat v \<le> LLONG_MAX"
    using assms by (simp_all add: LLONG_MAX_def)
  then have U: "nat \<bar>v\<bar> \<le> ULLONG_MAX" by (simp add: LLONG_MAX_def ULLONG_MAX_def)
  show ?thesis
  proof (cases "v = 0")
    case True
    then show ?thesis by (simp add: dec_int_def dec_small string2ll_def LONG_STR_SIZE_def)
  next
    case False
    then have "0 < nat \<bar>v\<bar>" by simp
    then obtain c cs where d: "dec (nat \<bar>v\<bar>) = c # cs" "49 \<le> c" "c \<le> 57"
      by (rule dec_Cons_pos)
    then have "string2ll_digits (unat (c - 48)) cs = Some (nat \<bar>v\<bar>, [])"
      using U by (simp add: string2ll_digits_iff)
    moreover have "length cs < 19" using length_dec_64 [OF b(1)] d(1) by simp
    moreover have "c \<noteq> 48" "c \<noteq> 45" using d(2) by auto
    ultimately have
      "string2ll (c # cs) = (if nat \<bar>v\<bar> > LLONG_MAX then None else Some \<bar>v\<bar>)"
      "string2ll (45 # c # cs) = (if nat \<bar>v\<bar> > LLONG_MAX + 1 then None else Some (- \<bar>v\<bar>))"
      using d(2,3) by (simp_all add: string2ll_def LONG_STR_SIZE_def)
    then show ?thesis using d(1) b by (cases "v < 0") (simp_all add: dec_int_def)
  qed
qed

lemma string2ll_sound:
  assumes "string2ll s = Some v"
  shows "s = dec_int v \<and> - (2 ^ 63) \<le> v \<and> v < 2 ^ 63"
proof (cases "length s = 1 \<and> s ! 0 = 48")
  case True
  then have "s = [48]" by (cases s) auto
  then show ?thesis using assms by (simp add: string2ll_def dec_int_def dec_small LONG_STR_SIZE_def)
next
  case False
  define p where "p = (if s ! 0 = 45 then tl s else s)"
  obtain n where n: "49 \<le> p ! 0" "p ! 0 \<le> 57" "p \<noteq> []" "s \<noteq> []"
      "string2ll_digits (unat (p ! 0 - 48)) (tl p) = Some (n, [])"
    and v: "if s ! 0 = 45 then n \<le> LLONG_MAX + 1 \<and> v = - int n else n \<le> LLONG_MAX \<and> v = int n"
    using assms False
    by (auto simp: string2ll_def Let_def p_def split: if_splits bind_splits)
  then have d: "dec n = p" "n \<le> ULLONG_MAX"
    using string2ll_digits_iff [of "p ! 0" "tl p" n] by (auto simp: neq_Nil_conv)
  have "n \<noteq> 0"
  proof
    assume "n = 0"
    then have "p ! 0 = 48" using d(1) by (auto simp: dec_small)
    then show False using n(1) by simp
  qed
  show ?thesis
  proof (cases "s ! 0 = 45")
    case True
    then have "s = 45 # dec n" using d(1) n(4) by (cases s) (auto simp: p_def)
    then show ?thesis using True v \<open>n \<noteq> 0\<close> by (auto simp: dec_int_def LLONG_MAX_def)
  next
    case False
    then show ?thesis using v d(1) by (auto simp: dec_int_def LLONG_MAX_def p_def)
  qed
qed

lemma lp_digits_loop_eq: "lp_digits_loop v cs = string2ll_digits v cs"
  by (induction cs arbitrary: v) (auto simp: ULLONG_MAX_def Let_def)

lemma length_dec_int_64:
  "- (2 ^ 63) \<le> v \<Longrightarrow> v < 2 ^ 63 \<Longrightarrow> length (dec_int v) \<le> 20"
  using length_dec_64 [of "nat v"] length_dec_64 [of "nat (- v)"]
  by (simp add: dec_int_def LLONG_MAX_def nat_le_iff)

lemma sdigits10_dec_int: "sdigits10 v = length (dec_int v)"
  by (simp add: sdigits10_def dec_int_def digits10_dec)

lemma ull2string_short:
  assumes "dstlen \<le> length (dec v)" and "dst + dstlen \<le> length m"
  shows "ull2string m dst dstlen v = Some (splice_at m dst (if dstlen = 0 then [] else [0]), 0)"
  using assms by (simp add: ull2string_def digits10_dec wrn_def splice_at_def)

lemma ll2string_short:
  assumes "dstlen \<le> length (dec_int v)" and "dst + dstlen \<le> length m"
  shows "ll2string m dst dstlen v =
    Some (splice_at m dst (if dstlen = 0 then [] else if v < 0 \<and> 2 \<le> dstlen then [45, 0] else [0]), 0)"
proof (cases "v < 0 \<and> 2 \<le> dstlen")
  case True
  then have "ull2string (splice_at m dst [45]) (dst + 1) (dstlen - 1) (nat (- v))
      = Some (splice_at (splice_at m dst [45]) (dst + 1) [0], 0)"
    using assms by (subst ull2string_short) (simp_all add: dec_int_def)
  moreover have "splice_at (splice_at m dst [45]) (dst + 1) [0] = splice_at m dst [45, 0]"
    using assms True by (simp add: splice_at_def min_def)
  ultimately show ?thesis using True assms(2) by (simp add: ll2string_def wrn_def)
next
  case False
  then show ?thesis using assms
    by (auto simp: ll2string_def wrn_def splice_at_def ull2string_short dec_int_def)
qed

lemma lpStringToInt64_eq: "lpStringToInt64 s = string2ll s"
proof (cases s)
  case (Cons c cs)
  have "LLONG_MAX + 1 = 9223372036854775808" by (simp add: LLONG_MAX_def)
  then show ?thesis using Cons
    by (auto simp: lpStringToInt64_def string2ll_def lp_digits_loop_eq LLONG_MAX_def Let_def
        split: list.splits option.splits)
qed (simp add: lpStringToInt64_def string2ll_def)

subsection \<open>Properties\<close>

text \<open>
  C21: \<^verbatim>\<open>string2ll\<close> accepts exactly the canonical decimal representations of the 64-bit signed integers
  (no spaces, no plus sign, no leading zero, no "-0", no overflow) and returns the integer they
  denote, as the comment above it promises.
\<close>

theorem string2ll_canonical:
  "string2ll s = Some v \<longleftrightarrow> s = dec_int v \<and> - (2 ^ 63) \<le> v \<and> v < 2 ^ 63"
  using string2ll_sound string2ll_dec_int by blast

text \<open>
  C22: what \<^verbatim>\<open>ll2string\<close> prints, \<^verbatim>\<open>string2ll\<close> reads back: with room for the digits and the NUL it writes
  the decimal form of the integer and a terminating NUL at \<open>dst\<close>, leaves every other byte of the
  buffer alone and returns the length; with less room it returns 0 and writes nothing beyond
  \<open>dst + dstlen\<close>. Twenty-one bytes are always enough.
\<close>

theorem ll2string_roundtrip:
  assumes "- (2 ^ 63) \<le> v" and "v < 2 ^ 63" and "dst + dstlen \<le> length m"
  shows "\<exists>w len. ll2string m dst dstlen v = Some (splice_at m dst w, len) \<and> length w \<le> dstlen \<and>
    (if sdigits10 v < dstlen then w = take len w @ [0] \<and> string2ll (take len w) = Some v else len = 0)
    \<and> (LONG_STR_SIZE \<le> dstlen \<longrightarrow> sdigits10 v < dstlen)"
proof -
  have b: "LONG_STR_SIZE \<le> dstlen \<longrightarrow> sdigits10 v < dstlen"
    using length_dec_int_64 [OF assms(1,2)] by (simp add: sdigits10_dec_int LONG_STR_SIZE_def)
  show ?thesis
  proof (cases "sdigits10 v < dstlen")
    case True
    then show ?thesis
      using b ll2string_dec_int [OF _ assms(3)] string2ll_dec_int [OF assms(1,2)]
      by (intro exI [of _ "dec_int v @ [0]"] exI [of _ "length (dec_int v)"])
         (simp add: sdigits10_dec_int)
  next
    case False
    then show ?thesis
      using b ll2string_short [OF _ assms(3)]
      by (intro exI [of _ "if dstlen = 0 then [] else if v < 0 \<and> 2 \<le> dstlen then [45, 0] else [0]"]
            exI [of _ 0]) (simp add: sdigits10_dec_int)
  qed
qed

theorem ll2string_roundtrip_witness:
  "\<exists>w len. ll2string (replicate 24 7) 1 21 (-1024) = Some (splice_at (replicate 24 7) 1 w, len)
    \<and> length w \<le> 21 \<and> (if sdigits10 (-1024) < 21
        then w = take len w @ [0] \<and> string2ll (take len w) = Some (-1024) else len = 0)
    \<and> (LONG_STR_SIZE \<le> 21 \<longrightarrow> sdigits10 (-1024) < 21)"
  by (rule ll2string_roundtrip) simp_all

text \<open>
  C23: \<^verbatim>\<open>lpStringToInt64\<close>, the copy of the parser that the listpack uses to choose the integer
  encoding, agrees with \<^verbatim>\<open>string2ll\<close> on every string.
\<close>

theorem lpStringToInt64_string2ll: "lpStringToInt64 s = string2ll s"
  by (rule lpStringToInt64_eq)

end
