(* ===== verification/Listpack_Enc.thy ===== *)
theory Listpack_Enc
  imports Util_Num
begin

text \<open>
  Entry encodings of \<^verbatim>\<open>src/redis-stable/src/listpack.c\<close>: the encoding bytes, integer and string
  encodings, the reverse-encoded entry length ("backlen"), and the decoders. A listpack is the byte
  buffer \<open>m\<close> of its allocation and a pointer into it is an offset. Reading outside the allocation is
  \<^term>\<open>None\<close>.
\<close>

subsection \<open>Encoding bytes\<close>

definition LP_HDR_SIZE :: nat where "LP_HDR_SIZE = 6"
definition LP_HDR_NUMELE_UNKNOWN :: nat where "LP_HDR_NUMELE_UNKNOWN = 65535"
definition LP_INTBUF_SIZE :: nat where "LP_INTBUF_SIZE = 21"
definition LP_EOF :: byte where "LP_EOF = 0xFF"
definition UINT32_MAX :: nat where "UINT32_MAX = 4294967295"
definition UINT64_MAX :: nat where "UINT64_MAX = 18446744073709551615"

definition LP_ENCODING_IS_7BIT_UINT :: "byte \<Rightarrow> bool" where
  "LP_ENCODING_IS_7BIT_UINT b \<longleftrightarrow> b AND 0x80 = 0"
definition LP_ENCODING_IS_6BIT_STR :: "byte \<Rightarrow> bool" where
  "LP_ENCODING_IS_6BIT_STR b \<longleftrightarrow> b AND 0xC0 = 0x80"
definition LP_ENCODING_IS_13BIT_INT :: "byte \<Rightarrow> bool" where
  "LP_ENCODING_IS_13BIT_INT b \<longleftrightarrow> b AND 0xE0 = 0xC0"
definition LP_ENCODING_IS_12BIT_STR :: "byte \<Rightarrow> bool" where
  "LP_ENCODING_IS_12BIT_STR b \<longleftrightarrow> b AND 0xF0 = 0xE0"
definition LP_ENCODING_IS_16BIT_INT :: "byte \<Rightarrow> bool" where
  "LP_ENCODING_IS_16BIT_INT b \<longleftrightarrow> b AND 0xFF = 0xF1"
definition LP_ENCODING_IS_24BIT_INT :: "byte \<Rightarrow> bool" where
  "LP_ENCODING_IS_24BIT_INT b \<longleftrightarrow> b AND 0xFF = 0xF2"
definition LP_ENCODING_IS_32BIT_INT :: "byte \<Rightarrow> bool" where
  "LP_ENCODING_IS_32BIT_INT b \<longleftrightarrow> b AND 0xFF = 0xF3"
definition LP_ENCODING_IS_64BIT_INT :: "byte \<Rightarrow> bool" where
  "LP_ENCODING_IS_64BIT_INT b \<longleftrightarrow> b AND 0xFF = 0xF4"
definition LP_ENCODING_IS_32BIT_STR :: "byte \<Rightarrow> bool" where
  "LP_ENCODING_IS_32BIT_STR b \<longleftrightarrow> b AND 0xFF = 0xF0"

text \<open>The string lengths, read at the offset \<open>p\<close> of the entry.\<close>

definition LP_ENCODING_6BIT_STR_LEN :: "bytes \<Rightarrow> nat \<Rightarrow> nat option" where
  "LP_ENCODING_6BIT_STR_LEN m p = do { b \<leftarrow> rd m p; Some (unat (b AND 0x3F)) }"

definition LP_ENCODING_12BIT_STR_LEN :: "bytes \<Rightarrow> nat \<Rightarrow> nat option" where
  "LP_ENCODING_12BIT_STR_LEN m p =
     do { b \<leftarrow> rd m p; c \<leftarrow> rd m (p + 1); Some (push_bit 8 (unat (b AND 0xF)) OR unat c) }"

definition LP_ENCODING_32BIT_STR_LEN :: "bytes \<Rightarrow> nat \<Rightarrow> nat option" where
  "LP_ENCODING_32BIT_STR_LEN m p = map_option (\<lambda>bs. nat (le_uint bs)) (rdn m (p + 1) 4)"

subsection \<open>Encoders\<close>

text \<open>\<^verbatim>\<open>lpEncodeIntegerGetType\<close>: the bytes it stores in \<^verbatim>\<open>intenc\<close>; their number is \<^verbatim>\<open>enclen\<close>.\<close>

definition lpEncodeIntegerGetType :: "int \<Rightarrow> bytes" where
  "lpEncodeIntegerGetType v =
     (if v \<ge> 0 \<and> v \<le> 127 then [word_of_int v]
      else if v \<ge> -4096 \<and> v \<le> 4095 then
        (let v = (if v < 0 then 2 ^ 13 + v else v)
         in [word_of_int (v div 256) OR 0xC0, word_of_int (v mod 256)])
      else if v \<ge> -32768 \<and> v \<le> 32767 then
        (let v = (if v < 0 then 2 ^ 16 + v else v) in 0xF1 # le_bytes 2 v)
      else if v \<ge> -8388608 \<and> v \<le> 8388607 then
        (let v = (if v < 0 then 2 ^ 24 + v else v) in 0xF2 # le_bytes 3 v)
      else if v \<ge> -2147483648 \<and> v \<le> 2147483647 then
        (let v = (if v < 0 then 2 ^ 32 + v else v) in 0xF3 # le_bytes 4 v)
      else (let uv = v mod 2 ^ 64 in 0xF4 # le_bytes 8 uv))"

text \<open>
  \<^verbatim>\<open>lpEncodeGetType\<close>: \<^term>\<open>Some intenc\<close> for \<^verbatim>\<open>LP_ENCODING_INT\<close>, \<^term>\<open>None\<close> for \<^verbatim>\<open>LP_ENCODING_STRING\<close>,
  and \<^verbatim>\<open>enclen\<close>.
\<close>

definition lpEncodeGetType :: "bytes \<Rightarrow> bytes option \<times> nat" where
  "lpEncodeGetType ele =
     (case lpStringToInt64 ele of
        Some v \<Rightarrow> (let intenc = lpEncodeIntegerGetType v in (Some intenc, length intenc))
      | None \<Rightarrow>
          (None, if length ele < 64 then 1 + length ele
                 else if length ele < 4096 then 2 + length ele
                 else 5 + length ele))"

definition lpEncodeBacklen :: "nat \<Rightarrow> bytes" where
  "lpEncodeBacklen l =
     (if l \<le> 127 then [of_nat l]
      else if l < 16383 then [of_nat (drop_bit 7 l), of_nat (l AND 127) OR 128]
      else if l < 2097151 then
        [of_nat (drop_bit 14 l), of_nat (drop_bit 7 l AND 127) OR 128, of_nat (l AND 127) OR 128]
      else if l < 268435455 then
        [of_nat (drop_bit 21 l), of_nat (drop_bit 14 l AND 127) OR 128,
         of_nat (drop_bit 7 l AND 127) OR 128, of_nat (l AND 127) OR 128]
      else
        [of_nat (drop_bit 28 l), of_nat (drop_bit 21 l AND 127) OR 128,
         of_nat (drop_bit 14 l AND 127) OR 128, of_nat (drop_bit 7 l AND 127) OR 128,
         of_nat (l AND 127) OR 128])"

definition lpEncodeBacklenBytes :: "nat \<Rightarrow> nat" where
  "lpEncodeBacklenBytes l =
     (if l \<le> 127 then 1 else if l < 16383 then 2 else if l < 2097151 then 3
      else if l < 268435455 then 4 else 5)"

definition lpEncodeString :: "bytes \<Rightarrow> bytes" where
  "lpEncodeString s =
     (let len = length s
      in if len < 64 then (of_nat len OR 0x80) # s
         else if len < 4096 then [of_nat (len div 256) OR 0xE0, of_nat (len mod 256)] @ s
         else (0xF0 # le_bytes 4 (int len)) @ s)"

subsection \<open>Decoders\<close>

text \<open>\<^verbatim>\<open>p[-k]\<close>\<close>

definition rd_back :: "bytes \<Rightarrow> nat \<Rightarrow> nat \<Rightarrow> byte option" where
  "rd_back m p k = (if k \<le> p then rd m (p - k) else None)"

definition lpDecodeBacklen :: "bytes \<Rightarrow> nat \<Rightarrow> nat option" where
  "lpDecodeBacklen m p =
     do {
       b0 \<leftarrow> rd m p;
       if b0 AND 128 = 0 then Some (unat (b0 AND 127))
       else do {
         let val = unat (b0 AND 127);
         b1 \<leftarrow> rd_back m p 1;
         if b1 AND 128 = 0 then Some (val OR push_bit 7 (unat (b1 AND 127)))
         else do {
           let val = val OR push_bit 7 (unat (b1 AND 127));
           b2 \<leftarrow> rd_back m p 2;
           if b2 AND 128 = 0 then Some (val OR push_bit 14 (unat (b2 AND 127)))
           else do {
             let val = val OR push_bit 14 (unat (b2 AND 127));
             b3 \<leftarrow> rd_back m p 3;
             if b3 AND 128 = 0 then Some (val OR push_bit 21 (unat (b3 AND 127)))
             else do {
               let val = val OR push_bit 21 (unat (b3 AND 127));
               b4 \<leftarrow> rd_back m p 4;
               if b4 AND 128 = 0 then Some (val OR push_bit 28 (unat (b4 AND 127)))
               else Some UINT64_MAX
             }
           }
         }
       }
     }"

definition lpCurrentEncodedSizeUnsafe :: "bytes \<Rightarrow> nat \<Rightarrow> nat option" where
  "lpCurrentEncodedSizeUnsafe m p =
     do {
       b \<leftarrow> rd m p;
       if LP_ENCODING_IS_7BIT_UINT b then Some 1
       else if LP_ENCODING_IS_6BIT_STR b then map_option (\<lambda>l. 1 + l) (LP_ENCODING_6BIT_STR_LEN m p)
       else if LP_ENCODING_IS_13BIT_INT b then Some 2
       else if LP_ENCODING_IS_16BIT_INT b then Some 3
       else if LP_ENCODING_IS_24BIT_INT b then Some 4
       else if LP_ENCODING_IS_32BIT_INT b then Some 5
       else if LP_ENCODING_IS_64BIT_INT b then Some 9
       else if LP_ENCODING_IS_12BIT_STR b then map_option (\<lambda>l. 2 + l) (LP_ENCODING_12BIT_STR_LEN m p)
       else if LP_ENCODING_IS_32BIT_STR b then
         map_option (\<lambda>l. (5 + l) mod 2 ^ 32) (LP_ENCODING_32BIT_STR_LEN m p)
       else if b = LP_EOF then Some 1
       else Some 0
     }"

definition lpCurrentEncodedSizeBytes :: "byte \<Rightarrow> nat" where
  "lpCurrentEncodedSizeBytes b =
     (if LP_ENCODING_IS_7BIT_UINT b then 1
      else if LP_ENCODING_IS_6BIT_STR b then 1
      else if LP_ENCODING_IS_13BIT_INT b then 1
      else if LP_ENCODING_IS_16BIT_INT b then 1
      else if LP_ENCODING_IS_24BIT_INT b then 1
      else if LP_ENCODING_IS_32BIT_INT b then 1
      else if LP_ENCODING_IS_64BIT_INT b then 1
      else if LP_ENCODING_IS_12BIT_STR b then 2
      else if LP_ENCODING_IS_32BIT_STR b then 5
      else if b = LP_EOF then 1
      else 0)"

definition lpSkip :: "bytes \<Rightarrow> nat \<Rightarrow> nat option" where
  "lpSkip m p =
     do {
       entrylen \<leftarrow> lpCurrentEncodedSizeUnsafe m p;
       Some (p + (entrylen + lpEncodeBacklenBytes entrylen))
     }"

text \<open>
  What \<^verbatim>\<open>lpGet\<close> gives: a pointer into the listpack and the string length (\<open>LpStr\<close>), NULL and the
  integer (\<open>LpInt\<close>), or the caller's \<^verbatim>\<open>intbuf\<close> and the length printed in it (\<open>LpBuf\<close>).
\<close>

datatype lp_get = LpStr nat nat | LpInt int | LpBuf bytes nat

text \<open>\<^verbatim>\<open>p[1] | p[2] << 8 | ...\<close> over \<open>n\<close> bytes.\<close>

definition lp_uval :: "bytes \<Rightarrow> nat \<Rightarrow> nat \<Rightarrow> int option" where
  "lp_uval m p n = map_option le_uint (rdn m (p + 1) n)"

text \<open>The unsigned to signed conversion and the choice between \<^verbatim>\<open>intbuf\<close> and the value.\<close>

definition lp_get_int :: "bytes option \<Rightarrow> int \<Rightarrow> int \<Rightarrow> int \<Rightarrow> lp_get option" where
  "lp_get_int intbuf uval negstart negmax =
     (let val = (if uval \<ge> negstart then - (negmax - uval) - 1 else uval)
      in case intbuf of
           Some buf \<Rightarrow> map_option (\<lambda>(b, n). LpBuf b n) (ll2string buf 0 LP_INTBUF_SIZE val)
         | None \<Rightarrow> Some (LpInt val))"

definition lpGetWithBuf :: "bytes \<Rightarrow> nat \<Rightarrow> bytes option \<Rightarrow> lp_get option" where
  "lpGetWithBuf m p intbuf =
     do {
       encoding \<leftarrow> rd m p;
       if LP_ENCODING_IS_6BIT_STR encoding then
         map_option (\<lambda>count. LpStr (p + 1) count) (LP_ENCODING_6BIT_STR_LEN m p)
       else if LP_ENCODING_IS_12BIT_STR encoding then
         map_option (\<lambda>count. LpStr (p + 2) count) (LP_ENCODING_12BIT_STR_LEN m p)
       else if LP_ENCODING_IS_32BIT_STR encoding then
         map_option (\<lambda>count. LpStr (p + 5) count) (LP_ENCODING_32BIT_STR_LEN m p)
       else if LP_ENCODING_IS_7BIT_UINT encoding then
         lp_get_int intbuf (uint (encoding AND 0x7f)) (int UINT64_MAX) 0
       else if LP_ENCODING_IS_13BIT_INT encoding then do {
         b1 \<leftarrow> rd m (p + 1);
         lp_get_int intbuf (push_bit 8 (uint (encoding AND 0x1f)) OR uint b1) (2 ^ 12) 8191
       }
       else if LP_ENCODING_IS_16BIT_INT encoding then
         do { uval \<leftarrow> lp_uval m p 2; lp_get_int intbuf uval (2 ^ 15) 65535 }
       else if LP_ENCODING_IS_24BIT_INT encoding then
         do { uval \<leftarrow> lp_uval m p 3; lp_get_int intbuf uval (2 ^ 23) (int UINT32_MAX div 256) }
       else if LP_ENCODING_IS_32BIT_INT encoding then
         do { uval \<leftarrow> lp_uval m p 4; lp_get_int intbuf uval (2 ^ 31) (int UINT32_MAX) }
       else if LP_ENCODING_IS_64BIT_INT encoding then
         do { uval \<leftarrow> lp_uval m p 8; lp_get_int intbuf uval (2 ^ 63) (int UINT64_MAX) }
       else lp_get_int intbuf (12345678900000000 + uint encoding) (int UINT64_MAX) 0
     }"

text \<open>
  \<^verbatim>\<open>lpGetWithSize\<close> also stores the size of the whole entry in \<^verbatim>\<open>entry_size\<close>; in the last branch it
  leaves \<^verbatim>\<open>entry_size\<close> as it was (\<open>es0\<close>).
\<close>

definition lpGetWithSize :: "bytes \<Rightarrow> nat \<Rightarrow> bytes option \<Rightarrow> nat \<Rightarrow> (lp_get \<times> nat) option" where
  "lpGetWithSize m p intbuf es0 =
     do {
       b \<leftarrow> rd m p;
       if LP_ENCODING_IS_7BIT_UINT b then
         map_option (\<lambda>r. (r, 2)) (lp_get_int intbuf (uint (b AND 0x7f)) (int UINT64_MAX) 0)
       else if LP_ENCODING_IS_6BIT_STR b then do {
         count \<leftarrow> LP_ENCODING_6BIT_STR_LEN m p;
         Some (LpStr (p + 1) count, 1 + count + lpEncodeBacklenBytes (count + 1))
       }
       else if LP_ENCODING_IS_13BIT_INT b then do {
         b1 \<leftarrow> rd m (p + 1);
         map_option (\<lambda>r. (r, 3))
           (lp_get_int intbuf (push_bit 8 (uint (b AND 0x1f)) OR uint b1) (2 ^ 12) 8191)
       }
       else if LP_ENCODING_IS_16BIT_INT b then do {
         uval \<leftarrow> lp_uval m p 2;
         map_option (\<lambda>r. (r, 4)) (lp_get_int intbuf uval (2 ^ 15) 65535)
       }
       else if LP_ENCODING_IS_24BIT_INT b then do {
         uval \<leftarrow> lp_uval m p 3;
         map_option (\<lambda>r. (r, 5)) (lp_get_int intbuf uval (2 ^ 23) (int UINT32_MAX div 256))
       }
       else if LP_ENCODING_IS_32BIT_INT b then do {
         uval \<leftarrow> lp_uval m p 4;
         map_option (\<lambda>r. (r, 6)) (lp_get_int intbuf uval (2 ^ 31) (int UINT32_MAX))
       }
       else if LP_ENCODING_IS_64BIT_INT b then do {
         uval \<leftarrow> lp_uval m p 8;
         map_option (\<lambda>r. (r, 10)) (lp_get_int intbuf uval (2 ^ 63) (int UINT64_MAX))
       }
       else if LP_ENCODING_IS_12BIT_STR b then do {
         count \<leftarrow> LP_ENCODING_12BIT_STR_LEN m p;
         Some (LpStr (p + 2) count, 2 + count + lpEncodeBacklenBytes (count + 2))
       }
       else if LP_ENCODING_IS_32BIT_STR b then do {
         count \<leftarrow> LP_ENCODING_32BIT_STR_LEN m p;
         Some (LpStr (p + 5) count, 5 + count + lpEncodeBacklenBytes (count + 5))
       }
       else map_option (\<lambda>r. (r, es0))
         (lp_get_int intbuf (12345678900000000 + uint b) (int UINT64_MAX) 0)
     }"

definition lpGet :: "bytes \<Rightarrow> nat \<Rightarrow> bytes option \<Rightarrow> lp_get option" where
  "lpGet m p intbuf = lpGetWithBuf m p intbuf"

text \<open>\<^verbatim>\<open>lpGetValue\<close>: the string pointer and \<^verbatim>\<open>slen\<close> (an \<^verbatim>\<open>unsigned int\<close>), or \<^verbatim>\<open>lval\<close>.\<close>

definition lpGetValue :: "bytes \<Rightarrow> nat \<Rightarrow> lp_get option" where
  "lpGetValue m p =
     do {
       r \<leftarrow> lpGet m p None;
       Some (case r of LpStr q count \<Rightarrow> LpStr q (count mod 2 ^ 32) | _ \<Rightarrow> r)
     }"

definition lpGetIntegerValue :: "bytes \<Rightarrow> nat \<Rightarrow> int option option" where
  "lpGetIntegerValue m p =
     do {
       r \<leftarrow> lpGet m p None;
       Some (case r of LpInt v \<Rightarrow> Some v | _ \<Rightarrow> None)
     }"

definition lpEntrySizeInteger :: "int \<Rightarrow> nat" where
  "lpEntrySizeInteger lval =
     (let enclen = length (lpEncodeIntegerGetType lval) in enclen + lpEncodeBacklenBytes enclen)"

definition lpEstimateBytesRepeatedInteger :: "int \<Rightarrow> nat \<Rightarrow> nat" where
  "lpEstimateBytesRepeatedInteger lval rep = (LP_HDR_SIZE + lpEntrySizeInteger lval * rep + 1) mod 2 ^ 64"

subsection \<open>Classification of the encoding byte\<close>

lemma enc_class:
  "LP_ENCODING_IS_7BIT_UINT b \<longleftrightarrow> unat b < 128"
  "LP_ENCODING_IS_6BIT_STR b \<longleftrightarrow> 128 \<le> unat b \<and> unat b < 192"
  "LP_ENCODING_IS_13BIT_INT b \<longleftrightarrow> 192 \<le> unat b \<and> unat b < 224"
  "LP_ENCODING_IS_12BIT_STR b \<longleftrightarrow> 224 \<le> unat b \<and> unat b < 240"
proof -
  have m: "NOT (mask 7) = (0x80 :: byte)" "NOT (mask 6) = (0xC0 :: byte)"
    "NOT (mask 5) = (0xE0 :: byte)" "NOT (mask 4) = (0xF0 :: byte)"
    by (simp_all add: mask_eq_exp_minus_1)
  show "LP_ENCODING_IS_7BIT_UINT b \<longleftrightarrow> unat b < 128"
    using and_high_eq [of b 7 0] unat_byte_less [of b]
    by (simp add: LP_ENCODING_IS_7BIT_UINT_def m div_eq_0_iff)
  show "LP_ENCODING_IS_6BIT_STR b \<longleftrightarrow> 128 \<le> unat b \<and> unat b < 192"
    using and_high_eq [of b 6 "0x80"] by (simp add: LP_ENCODING_IS_6BIT_STR_def m) linarith
  show "LP_ENCODING_IS_13BIT_INT b \<longleftrightarrow> 192 \<le> unat b \<and> unat b < 224"
    using and_high_eq [of b 5 "0xC0"] by (simp add: LP_ENCODING_IS_13BIT_INT_def m) linarith
  show "LP_ENCODING_IS_12BIT_STR b \<longleftrightarrow> 224 \<le> unat b \<and> unat b < 240"
    using and_high_eq [of b 4 "0xE0"] by (simp add: LP_ENCODING_IS_12BIT_STR_def m) linarith
qed

lemma and_0xFF: "b AND 0xFF = (b :: byte)"
proof -
  have "(0xFF :: byte) = - 1" by simp
  then show ?thesis by (simp only: and.right_neutral)
qed

lemma enc_class_full:
  "LP_ENCODING_IS_32BIT_STR b \<longleftrightarrow> unat b = 240"
  "LP_ENCODING_IS_16BIT_INT b \<longleftrightarrow> unat b = 241"
  "LP_ENCODING_IS_24BIT_INT b \<longleftrightarrow> unat b = 242"
  "LP_ENCODING_IS_32BIT_INT b \<longleftrightarrow> unat b = 243"
  "LP_ENCODING_IS_64BIT_INT b \<longleftrightarrow> unat b = 244"
  "b = LP_EOF \<longleftrightarrow> unat b = 255"
  by (simp_all only: LP_ENCODING_IS_16BIT_INT_def LP_ENCODING_IS_24BIT_INT_def LP_EOF_def
      LP_ENCODING_IS_32BIT_INT_def LP_ENCODING_IS_64BIT_INT_def LP_ENCODING_IS_32BIT_STR_def
      and_0xFF word_unat_eq_iff) simp_all

lemmas lp_class = enc_class enc_class_full

lemma low_mask:
  "unat (b AND 0x7F :: byte) = unat b mod 128" "unat (b AND 0x3F :: byte) = unat b mod 64"
  "unat (b AND 0x1F :: byte) = unat b mod 32" "unat (b AND 0xF :: byte) = unat b mod 16"
proof -
  have m: "mask 7 = (0x7F :: byte)" "mask 6 = (0x3F :: byte)" "mask 5 = (0x1F :: byte)" "mask 4 = (0xF :: byte)"
    by (simp_all add: mask_eq_exp_minus_1)
  show "unat (b AND 0x7F :: byte) = unat b mod 128" "unat (b AND 0x3F :: byte) = unat b mod 64"
    "unat (b AND 0x1F :: byte) = unat b mod 32" "unat (b AND 0xF :: byte) = unat b mod 16"
    using and_low_bits [of b 7] and_low_bits [of b 6] and_low_bits [of b 5] and_low_bits [of b 4]
    by (simp_all add: m)
qed

lemma high_bit_clear: "b AND 128 = (0 :: byte) \<longleftrightarrow> unat b < 128"
  using enc_class(1) [of b] by (simp add: LP_ENCODING_IS_7BIT_UINT_def)

lemma or_tag:
  "x < 128 \<Longrightarrow> unat (of_nat x OR 0x80 :: byte) = x + 128"
  "x < 32 \<Longrightarrow> unat (of_nat x OR 0xC0 :: byte) = x + 192"
  "x < 16 \<Longrightarrow> unat (of_nat x OR 0xE0 :: byte) = x + 224"
  using or_high_byte [of x 7 1] or_high_byte [of x 5 6] or_high_byte [of x 4 14]
  by (simp_all add: push_bit_eq_mult)

subsection \<open>The backlen\<close>

lemma length_lpEncodeBacklen [simp]: "length (lpEncodeBacklen l) = lpEncodeBacklenBytes l"
  by (simp add: lpEncodeBacklen_def lpEncodeBacklenBytes_def)

lemma lpEncodeBacklenBytes_bounds: "1 \<le> lpEncodeBacklenBytes l" "lpEncodeBacklenBytes l \<le> 5"
  by (simp_all add: lpEncodeBacklenBytes_def)

lemma and_127: "x AND 127 = x mod 128" for x :: nat
  using and_low_nat [of x 7] by (simp add: mask_eq_exp_minus_1)

lemma backlen_byte:
  "unat (of_nat (x AND 127) OR 128 :: byte) = x mod 128 + 128"
  by (simp add: and_127 or_tag)

lemma backlen_or:
  "a < 128 \<Longrightarrow> a OR push_bit 7 b = a + b * 128"
  "a < 16384 \<Longrightarrow> a OR push_bit 14 b = a + b * 16384"
  "a < 2097152 \<Longrightarrow> a OR push_bit 21 b = a + b * 2097152"
  "a < 268435456 \<Longrightarrow> a OR push_bit 28 b = a + b * 268435456" for a b :: nat
  using or_low [of a 7 b] or_low [of a 14 b] or_low [of a 21 b] or_low [of a 28 b] by simp_all

lemma base128:
  fixes l :: nat
  shows "l mod 128 + l div 128 mod 128 * 128 = l mod 16384"
    and "l mod 16384 + l div 16384 mod 128 * 16384 = l mod 2097152"
    and "l mod 2097152 + l div 2097152 mod 128 * 2097152 = l mod 268435456"
  using mod_mult2_eq [of l 128 128] mod_mult2_eq [of l 16384 128] mod_mult2_eq [of l 2097152 128]
  by simp_all

lemma lpDecodeBacklen_encode:
  assumes "l < 2 ^ 35"
  shows "lpDecodeBacklen (A @ lpEncodeBacklen l @ B) (length A + lpEncodeBacklenBytes l - 1) = Some l"
proof -
  have small: "unat (of_nat x :: byte) = x" if "x < 128" for x using that by (simp add: unat_of_nat)
  note rules = lpEncodeBacklen_def lpEncodeBacklenBytes_def lpDecodeBacklen_def rd_back_def
    rd_def nth_append high_bit_clear low_mask backlen_byte backlen_or base128 drop_bit_nat_def small Let_def
  consider "l \<le> 127" | "127 < l" "l < 16383" | "16383 \<le> l" "l < 2097151"
    | "2097151 \<le> l" "l < 268435455" | "268435455 \<le> l" by linarith
  then show ?thesis
  proof cases
    case 1
    then show ?thesis by (simp add: rules)
  next
    case 2
    have lt: "l div 128 < 128" using 2 by simp
    show ?thesis using 2 mod_div_mult_eq [of l 128] by (simp add: rules lt)
  next
    case 3
    have lt: "l div 16384 < 128" using 3 by simp
    show ?thesis using 3 mod_div_mult_eq [of l 16384] by (simp add: rules lt)
  next
    case 4
    have lt: "l div 2097152 < 128" using 4 by simp
    show ?thesis using 4 mod_div_mult_eq [of l 2097152] by (simp add: rules lt)
  next
    case 5
    have lt: "l div 268435456 < 128" using 5 assms by simp
    show ?thesis using 5 mod_div_mult_eq [of l 268435456] by (simp add: rules lt)
  qed
qed

subsection \<open>Entries inside a larger buffer\<close>

lemma str_len_extend:
  "opt_sim (=) (LP_ENCODING_6BIT_STR_LEN e i) (LP_ENCODING_6BIT_STR_LEN (A @ e @ B) (length A + i))"
  "opt_sim (=) (LP_ENCODING_12BIT_STR_LEN e i) (LP_ENCODING_12BIT_STR_LEN (A @ e @ B) (length A + i))"
  "opt_sim (=) (LP_ENCODING_32BIT_STR_LEN e i) (LP_ENCODING_32BIT_STR_LEN (A @ e @ B) (length A + i))"
  unfolding LP_ENCODING_6BIT_STR_LEN_def LP_ENCODING_12BIT_STR_LEN_def LP_ENCODING_32BIT_STR_LEN_def
    add.assoc
  by (intro opt_sim_intros rd_extend rdn_extend refl)+

lemma lpCurrentEncodedSizeUnsafe_extend:
  "opt_sim (=) (lpCurrentEncodedSizeUnsafe e i) (lpCurrentEncodedSizeUnsafe (A @ e @ B) (length A + i))"
  unfolding lpCurrentEncodedSizeUnsafe_def
  by (intro opt_sim_intros str_len_extend rd_extend refl)

lemma lp_uval_extend: "opt_sim (=) (lp_uval e i n) (lp_uval (A @ e @ B) (length A + i) n)"
  unfolding lp_uval_def add.assoc by (intro opt_sim_intros rdn_extend refl)

text \<open>The shift of a pointer by the offset at which the entry stands.\<close>

fun lp_shift :: "nat \<Rightarrow> lp_get \<Rightarrow> lp_get" where
  "lp_shift k (LpStr q n) = LpStr (k + q) n"
| "lp_shift k r = r"

definition shifted :: "nat \<Rightarrow> lp_get \<Rightarrow> lp_get \<Rightarrow> bool" where
  "shifted k r s \<longleftrightarrow> s = lp_shift k r"

definition shifted_fst :: "nat \<Rightarrow> lp_get \<times> nat \<Rightarrow> lp_get \<times> nat \<Rightarrow> bool" where
  "shifted_fst k r s \<longleftrightarrow> s = (lp_shift k (fst r), snd r)"

lemma get_int_extend:
  "opt_sim (shifted k) (lp_get_int buf u s x) (lp_get_int buf u s x)"
  "opt_sim (shifted_fst k) (map_option (\<lambda>r. (r, n)) (lp_get_int buf u s x))
     (map_option (\<lambda>r. (r, n)) (lp_get_int buf u s x))"
  by (auto simp: lp_get_int_def Let_def opt_sim_def shifted_def shifted_fst_def split: option.splits)

lemma shifted_simps [simp]:
  "shifted k (LpStr q n) (LpStr q' n') \<longleftrightarrow> q' = k + q \<and> n' = n"
  "shifted_fst k (LpStr q n, a) (LpStr q' n', a') \<longleftrightarrow> q' = k + q \<and> n' = n \<and> a' = a"
  by (auto simp: shifted_def shifted_fst_def)

lemma lpGetWithBuf_extend:
  "opt_sim (shifted (length A)) (lpGetWithBuf e i buf) (lpGetWithBuf (A @ e @ B) (length A + i) buf)"
  unfolding lpGetWithBuf_def add.assoc
  by (intro opt_sim_bind opt_sim_if opt_sim_map str_len_extend rd_extend lp_uval_extend get_int_extend)
     simp_all

lemma lpGetWithSize_extend:
  "opt_sim (shifted_fst (length A)) (lpGetWithSize e i buf es0)
     (lpGetWithSize (A @ e @ B) (length A + i) buf es0)"
  unfolding lpGetWithSize_def add.assoc [of "length A" i]
  by (intro opt_sim_bind opt_sim_if opt_sim_Some str_len_extend rd_extend lp_uval_extend get_int_extend)
     simp_all

subsection \<open>Elements\<close>

text \<open>The abstract value of an entry: a string, or a 64-bit integer.\<close>

datatype lp_elem = EStr bytes | EInt int

fun elem_ok :: "lp_elem \<Rightarrow> bool" where
  "elem_ok (EStr s) \<longleftrightarrow> length s < 2 ^ 32 - 5"
| "elem_ok (EInt v) \<longleftrightarrow> - (2 ^ 63) \<le> v \<and> v < 2 ^ 63"

fun enc_elem :: "lp_elem \<Rightarrow> bytes" where
  "enc_elem (EStr s) = lpEncodeString s"
| "enc_elem (EInt v) = lpEncodeIntegerGetType v"

text \<open>What a client sees: integers are shown in decimal.\<close>

fun elem_str :: "lp_elem \<Rightarrow> bytes" where
  "elem_str (EStr s) = s"
| "elem_str (EInt v) = dec_int v"

text \<open>The element that stands for a string given by the client.\<close>

definition elem_of_str :: "bytes \<Rightarrow> lp_elem" where
  "elem_of_str s = (case lpStringToInt64 s of Some v \<Rightarrow> EInt v | None \<Rightarrow> EStr s)"

lemma elem_str_of_str [simp]: "elem_str (elem_of_str s) = s"
  using string2ll_sound by (auto simp: elem_of_str_def lpStringToInt64_eq split: option.split)

definition str_hdr :: "bytes \<Rightarrow> nat" where
  "str_hdr s = (if length s < 64 then 1 else if length s < 4096 then 2 else 5)"

fun elem_get :: "lp_elem \<Rightarrow> lp_get" where
  "elem_get (EStr s) = LpStr (str_hdr s) (length s)"
| "elem_get (EInt v) = LpInt v"

lemma tag_byte [simp]:
  "n < 64 \<Longrightarrow> unat (of_nat n OR 0x80 :: byte) = n + 128"
  "n < 16 \<Longrightarrow> unat (of_nat n OR 0xE0 :: byte) = n + 224"
  by (simp_all add: or_tag)

lemma str_enc:
  assumes "length s < 2 ^ 32 - 5"
  shows "lpCurrentEncodedSizeUnsafe (lpEncodeString s) 0 = Some (length (lpEncodeString s)) \<and>
    lpGetWithBuf (lpEncodeString s) 0 buf = Some (LpStr (str_hdr s) (length s)) \<and>
    lpGetWithSize (lpEncodeString s) 0 buf es0 = Some (LpStr (str_hdr s) (length s),
          length (lpEncodeString s) + lpEncodeBacklenBytes (length (lpEncodeString s))) \<and>
    slice (lpEncodeString s) (str_hdr s) (length s) = s \<and>
    lpEncodeString s \<noteq> [] \<and> hd (lpEncodeString s) \<noteq> LP_EOF \<and>
    length (lpEncodeString s) = str_hdr s + length s \<and>
    lpCurrentEncodedSizeBytes (hd (lpEncodeString s)) = str_hdr s"
proof -
  note rules = lpEncodeString_def lpCurrentEncodedSizeUnsafe_def lpGetWithBuf_def lpGetWithSize_def
    LP_ENCODING_6BIT_STR_LEN_def LP_ENCODING_12BIT_STR_LEN_def LP_ENCODING_32BIT_STR_LEN_def
    lp_class rd_def rdn_def slice_def str_hdr_def low_mask Let_def lpCurrentEncodedSizeBytes_def
  consider "length s < 64" | "64 \<le> length s" "length s < 4096" | "4096 \<le> length s" by linarith
  then show ?thesis
  proof cases
    case 1
    then have "(length s + 128) mod 64 = length s" by (simp add: mod_add_eq [symmetric])
    with 1 show ?thesis by (simp add: rules)
  next
    case 2
    have d: "length s div 256 < 16" using 2 by simp
    have "(length s div 256 + 224) mod 16 = length s div 256"
      using d by (simp add: mod_add_eq [symmetric])
    moreover have "push_bit 8 (length s div 256) OR length s mod 256 = length s"
      using or_low [of "length s mod 256" 8 "length s div 256"] by (simp add: or.commute)
    ultimately show ?thesis using 2 d by (simp add: rules unat_of_nat)
  next
    case 3
    have "nat (le_uint (le_bytes 4 (int (length s)))) = length s"
      using assms by (simp add: le_uint_le_bytes)
    then show ?thesis using 3 assms by (simp add: rules add.commute [of "length s" 5])
  qed
qed

text \<open>The integer encodings: a tag byte and the two's complement bytes.\<close>

definition int_result :: "bytes option \<Rightarrow> int \<Rightarrow> lp_get option" where
  "int_result buf v =
     (case buf of
        Some b \<Rightarrow> map_option (\<lambda>(b, n). LpBuf b n) (ll2string b 0 LP_INTBUF_SIZE v)
      | None \<Rightarrow> Some (LpInt v))"

lemma int_enc_le:
  assumes "int_fits n v" "0 < n" and "u = (if v < 0 then 256 ^ n + v else v)"
  shows "lp_uval (t # le_bytes n u) 0 n = Some u"
    and "lp_get_int buf u (128 * 256 ^ (n - 1)) (256 ^ n - 1) = int_result buf v"
proof -
  have "(256 :: int) ^ n = 256 * 256 ^ (n - 1)" using assms(2) by (cases n) auto
  moreover have b: "- (256 ^ n) \<le> 2 * v" "2 * v < 256 ^ n" using assms(1) by (auto simp: int_fits_def)
  moreover have "u mod 256 ^ n = u" using b assms(3) by (intro mod_pos_pos_trivial) auto
  ultimately show "lp_uval (t # le_bytes n u) 0 n = Some u"
    "lp_get_int buf u (128 * 256 ^ (n - 1)) (256 ^ n - 1) = int_result buf v"
    using assms(3)
    by (simp_all add: lp_uval_def rdn_def slice_def le_uint_le_bytes lp_get_int_def int_result_def)
qed

text \<open>The shapes of an integer encoding.\<close>

lemma int_enc_cases:
  assumes "- (2 ^ 63) \<le> v" "v < 2 ^ 63"
  obtains (i7) "0 \<le> v" "v \<le> 127" "lpEncodeIntegerGetType v = [word_of_int v]"
  | (i13) u where "u = (if v < 0 then 8192 + v else v)" "-4096 \<le> v" "v \<le> 4095"
      "lpEncodeIntegerGetType v = [word_of_int (u div 256) OR 0xC0, word_of_int (u mod 256)]"
  | (i16) u where "u = (if v < 0 then 256 ^ 2 + v else v)" "int_fits 2 v"
      "lpEncodeIntegerGetType v = 0xF1 # le_bytes 2 u"
  | (i24) u where "u = (if v < 0 then 256 ^ 3 + v else v)" "int_fits 3 v"
      "lpEncodeIntegerGetType v = 0xF2 # le_bytes 3 u"
  | (i32) u where "u = (if v < 0 then 256 ^ 4 + v else v)" "int_fits 4 v"
      "lpEncodeIntegerGetType v = 0xF3 # le_bytes 4 u"
  | (i64) u where "u = (if v < 0 then 256 ^ 8 + v else v)" "int_fits 8 v"
      "lpEncodeIntegerGetType v = 0xF4 # le_bytes 8 u"
proof -
  let ?e = "lpEncodeIntegerGetType v"
  have m64: "v mod 2 ^ 64 = (if v < 0 then 256 ^ 8 + v else v)"
  proof (cases "v < 0")
    case True
    have "v mod 2 ^ 64 = (v + 2 ^ 64) mod 2 ^ 64" by simp
    also have "\<dots> = v + 2 ^ 64" using True assms by (intro mod_pos_pos_trivial) auto
    finally show ?thesis using True by simp
  qed (use assms in simp)
  consider "0 \<le> v \<and> v \<le> 127" | "\<not> (0 \<le> v \<and> v \<le> 127)" "-4096 \<le> v \<and> v \<le> 4095"
    | "\<not> (-4096 \<le> v \<and> v \<le> 4095)" "-32768 \<le> v \<and> v \<le> 32767"
    | "\<not> (-32768 \<le> v \<and> v \<le> 32767)" "-8388608 \<le> v \<and> v \<le> 8388607"
    | "\<not> (-8388608 \<le> v \<and> v \<le> 8388607)" "-2147483648 \<le> v \<and> v \<le> 2147483647"
    | "\<not> (-2147483648 \<le> v \<and> v \<le> 2147483647)" by blast
  then show thesis
  proof cases
    case 1 then show thesis by (intro i7) (auto simp: lpEncodeIntegerGetType_def)
  next
    case 2 then show thesis by (intro i13 [OF refl]) (auto simp: lpEncodeIntegerGetType_def Let_def)
  next
    case 3 then show thesis
      by (intro i16 [OF refl]) (auto simp: lpEncodeIntegerGetType_def Let_def int_fits_def)
  next
    case 4 then show thesis
      by (intro i24 [OF refl]) (auto simp: lpEncodeIntegerGetType_def Let_def int_fits_def)
  next
    case 5 then show thesis
      by (intro i32 [OF refl]) (auto simp: lpEncodeIntegerGetType_def Let_def int_fits_def)
  next
    case 6
    then have "?e = 0xF4 # le_bytes 8 (v mod 2 ^ 64)" by (auto simp: lpEncodeIntegerGetType_def Let_def)
    with 6 assms m64 show thesis by (intro i64 [OF refl]) (auto simp: int_fits_def)
  qed
qed

lemma byte_of_int7:
  assumes "0 \<le> v" "v \<le> 127"
  shows "unat (word_of_int v :: byte) < 128" "uint (word_of_int v AND 0x7F :: byte) = v"
proof -
  show *: "unat (word_of_int v :: byte) < 128"
    using assms by (simp add: unat_eq_nat_uint uint_word_of_int_8)
  have "uint (word_of_int v AND 0x7F :: byte) = int (unat (word_of_int v :: byte) mod 128)"
    by (metis low_mask(1) uint_nat)
  then show "uint (word_of_int v AND 0x7F :: byte) = v"
    using assms by (simp add: unat_eq_nat_uint uint_word_of_int_8)
qed

lemma byte_of_int13:
  assumes "0 \<le> u" "u < 8192"
  shows "192 \<le> unat (word_of_int (u div 256) OR 0xC0 :: byte)"
    and "unat (word_of_int (u div 256) OR 0xC0 :: byte) < 224"
    and "push_bit 8 (uint ((word_of_int (u div 256) OR 0xC0) AND 0x1F :: byte)) OR
      uint (word_of_int (u mod 256) :: byte) = u"
proof -
  define d e where "d = nat (u div 256)" and "e = nat (u mod 256)"
  have d: "u div 256 = int d" "d < 32" and e: "u mod 256 = int e" "e < 256"
    using assms by (auto simp: d_def e_def nat_less_iff)
  have tag: "unat (word_of_int (u div 256) OR 0xC0 :: byte) = d + 192"
    using d or_tag(2) [of d] by simp
  then show "192 \<le> unat (word_of_int (u div 256) OR 0xC0 :: byte)"
    and "unat (word_of_int (u div 256) OR 0xC0 :: byte) < 224" using d by simp_all
  have "uint ((word_of_int (u div 256) OR 0xC0) AND 0x1F :: byte) = int ((d + 192) mod 32)"
    using tag by (metis low_mask(3) uint_nat)
  also have "(d + 192) mod 32 = d" using d by (simp add: mod_add_eq [symmetric])
  finally have lo: "uint ((word_of_int (u div 256) OR 0xC0) AND 0x1F :: byte) = int d" .
  have "uint (word_of_int (u mod 256) :: byte) = int e"
    by (simp only: uint_word_of_int_8) (use e in simp)
  moreover have "push_bit 8 (int d) OR int e = int (e OR push_bit 8 d)"
    by (simp only: of_nat_or_eq of_nat_push_bit or.commute)
  moreover have "\<dots> = int d * 256 + int e" using e or_low [of e 8 d] by simp
  moreover have "\<dots> = u" using d e div_mult_mod_eq [of u 256] by simp
  ultimately show "push_bit 8 (uint ((word_of_int (u div 256) OR 0xC0) AND 0x1F :: byte)) OR
      uint (word_of_int (u mod 256) :: byte) = u" using lo by (simp only:)
qed

lemma int_enc:
  assumes "- (2 ^ 63) \<le> v" "v < 2 ^ 63"
  shows "lpCurrentEncodedSizeUnsafe (lpEncodeIntegerGetType v) 0 = Some (length (lpEncodeIntegerGetType v)) \<and>
    lpGetWithBuf (lpEncodeIntegerGetType v) 0 buf = int_result buf v \<and>
    lpGetWithSize (lpEncodeIntegerGetType v) 0 buf es0 =
      map_option (\<lambda>r. (r, length (lpEncodeIntegerGetType v) +
        lpEncodeBacklenBytes (length (lpEncodeIntegerGetType v)))) (int_result buf v) \<and>
    lpEncodeIntegerGetType v \<noteq> [] \<and> hd (lpEncodeIntegerGetType v) \<noteq> LP_EOF \<and>
    length (lpEncodeIntegerGetType v) \<le> 9 \<and>
    lpCurrentEncodedSizeBytes (hd (lpEncodeIntegerGetType v)) = 1"
proof -
  note rules = lpCurrentEncodedSizeUnsafe_def lpGetWithBuf_def lpGetWithSize_def rd_def
    lp_class low_mask lpCurrentEncodedSizeBytes_def lpEncodeBacklenBytes_def
    UINT32_MAX_def UINT64_MAX_def
  from assms show ?thesis
  proof (cases rule: int_enc_cases)
    case i7
    have "lp_get_int buf v 18446744073709551615 0 = int_result buf v"
      using i7 by (simp add: lp_get_int_def int_result_def)
    then show ?thesis using i7 byte_of_int7 [OF i7(1,2)] by (simp add: rules numeral_2_eq_2)
  next
    case (i13 u)
    have get: "lp_get_int buf u 4096 8191 = int_result buf v"
      using i13 by (simp add: lp_get_int_def int_result_def)
    have "0 \<le> u" "u < 8192" using i13(1,2,3) by (auto split: if_splits)
    note bs = byte_of_int13 [OF this]
    show ?thesis using i13(4) get bs by (simp add: rules numeral_3_eq_3)
  next
    case (i16 u)
    with int_enc_le(1) [OF i16(2) _ i16(1), of "0xF1"] int_enc_le(2) [OF i16(2) _ i16(1), of buf]
    show ?thesis by (simp add: rules)
  next
    case (i24 u)
    with int_enc_le(1) [OF i24(2) _ i24(1), of "0xF2"] int_enc_le(2) [OF i24(2) _ i24(1), of buf]
    show ?thesis by (simp add: rules)
  next
    case (i32 u)
    with int_enc_le(1) [OF i32(2) _ i32(1), of "0xF3"] int_enc_le(2) [OF i32(2) _ i32(1), of buf]
    show ?thesis by (simp add: rules)
  next
    case (i64 u)
    with int_enc_le(1) [OF i64(2) _ i64(1), of "0xF4"] int_enc_le(2) [OF i64(2) _ i64(1), of buf]
    show ?thesis by (simp add: rules)
  qed
qed

subsection \<open>Raw entries\<close>

text \<open>
  An entry is its payload, which the size decoder measures exactly, followed by the backlen of the
  payload. \<^verbatim>\<open>enc_elem\<close> gives such payloads; integers stored in a wider encoding than
  necessary are payloads too.
\<close>

definition lp_entry :: "bytes \<Rightarrow> bool" where
  "lp_entry e \<longleftrightarrow> lpCurrentEncodedSizeUnsafe e 0 = Some (length e) \<and> e \<noteq> [] \<and> hd e \<noteq> LP_EOF"

definition raw :: "bytes \<Rightarrow> bytes" where
  "raw e = e @ lpEncodeBacklen (length e)"

lemma length_raw: "length (raw e) = length e + lpEncodeBacklenBytes (length e)"
  by (simp add: raw_def)

lemma lp_entry_enc_elem: "elem_ok x \<Longrightarrow> lp_entry (enc_elem x)"
  by (cases x) (simp_all add: lp_entry_def str_enc int_enc)

lemma lp_entry_length: "lp_entry e \<Longrightarrow> 0 < length e \<and> length e < 2 ^ 32"
proof -
  assume e: "lp_entry e"
  have a: "LP_ENCODING_6BIT_STR_LEN e 0 = Some l \<Longrightarrow> l < 64" for l
    by (auto simp: LP_ENCODING_6BIT_STR_LEN_def low_mask split: bind_splits)
  have "push_bit 8 (x mod 16) OR unat (c :: byte) = unat c + (x mod 16) * 256" for x c
    using or_low [of "unat c" 8 "x mod 16"] unat_byte_less [of c] by (simp add: or.commute)
  moreover have "unat (c :: byte) + (x mod 16) * 256 < 4096" for x c
    using unat_byte_less [of c] by (simp add: trans_less_add1) 
  ultimately have b: "LP_ENCODING_12BIT_STR_LEN e 0 = Some l \<Longrightarrow> l < 4096" for l
    by (auto simp: LP_ENCODING_12BIT_STR_LEN_def low_mask split: bind_splits)
  show ?thesis using e a b
    by (auto simp: lp_entry_def lpCurrentEncodedSizeUnsafe_def split: bind_splits if_splits)
qed

lemma rd_raw: "e \<noteq> [] \<Longrightarrow> rd (A @ raw e @ B) (length A) = Some (hd e)"
  by (simp add: rd_def nth_append raw_def hd_conv_nth)

lemma cur_size_raw:
  assumes "lp_entry e"
  shows "lpCurrentEncodedSizeUnsafe (A @ raw e @ B) (length A) = Some (length e)"
  using opt_simD [OF lpCurrentEncodedSizeUnsafe_extend [of e 0 A "lpEncodeBacklen (length e) @ B"]] assms
  by (simp add: lp_entry_def raw_def)

lemma lpSkip_raw: "lp_entry e \<Longrightarrow> lpSkip (A @ raw e @ B) (length A) = Some (length A + length (raw e))"
  by (simp add: lpSkip_def cur_size_raw length_raw)

lemma lpDecodeBacklen_raw:
  assumes "lp_entry e"
  shows "lpDecodeBacklen (A @ raw e @ B) (length A + length (raw e) - 1) = Some (length e)"
  using lpDecodeBacklen_encode [of "length e" "A @ e" B] lp_entry_length [OF assms]
  by (simp add: raw_def add.assoc)

lemma lenbytes_entry:
  assumes "lp_entry e"
  shows "0 < lpCurrentEncodedSizeBytes (hd e)" "lpCurrentEncodedSizeBytes (hd e) \<le> length e"
proof -
  have "rd e 0 = Some (hd e)" using assms by (auto simp: lp_entry_def rd_def hd_conv_nth)
  moreover have "length e \<noteq> 0" using assms by (simp add: lp_entry_def)
  moreover have "rdn e (0 + 1) 4 = Some x \<Longrightarrow> 5 \<le> length e" for x by (auto simp: rdn_def split: if_splits)
  ultimately show "0 < lpCurrentEncodedSizeBytes (hd e)" "lpCurrentEncodedSizeBytes (hd e) \<le> length e"
    using assms
    by (auto simp: lp_entry_def lpCurrentEncodedSizeUnsafe_def lpCurrentEncodedSizeBytes_def
        LP_ENCODING_32BIT_STR_LEN_def Suc_le_eq split: if_splits)
qed

subsection \<open>Properties\<close>

text \<open>
  C19: the reverse-encoded length written by \<^verbatim>\<open>lpEncodeBacklen\<close> after an entry, read backwards from its
  last byte by \<^verbatim>\<open>lpDecodeBacklen\<close>, is the entry length, for every length below 2 to the 35, whatever bytes
  surround it, and it has the number of bytes \<^verbatim>\<open>lpEncodeBacklenBytes\<close> announces.
\<close>

theorem lpBacklen_roundtrip:
  assumes "l < 2 ^ 35"
  shows "lpDecodeBacklen (A @ lpEncodeBacklen l @ B) (length A + lpEncodeBacklenBytes l - 1) = Some l
    \<and> length (lpEncodeBacklen l) = lpEncodeBacklenBytes l"
  using lpDecodeBacklen_encode [OF assms] by simp

theorem lpBacklen_roundtrip_witness:
  "lpDecodeBacklen ([1, 2] @ lpEncodeBacklen 16383 @ [255]) (length [1, 2 :: byte] + lpEncodeBacklenBytes 16383 - 1)
    = Some 16383 \<and> length (lpEncodeBacklen 16383) = lpEncodeBacklenBytes 16383"
  by (rule lpBacklen_roundtrip) simp

text \<open>
  C20: \<^verbatim>\<open>lpGetWithBuf\<close> is the branch-reduced copy of \<^verbatim>\<open>lpGetWithSize\<close>: on every buffer, valid or corrupt,
  and at every offset it gives the same value.
\<close>

theorem lpGetWithBuf_lpGetWithSize:
  "lpGetWithBuf m p buf = map_option fst (lpGetWithSize m p buf es0)"
  by (auto simp: lpGetWithBuf_def lpGetWithSize_def lp_class map_option_bind option.map_comp comp_def
      option.map_ident map_conv_bind_option split: bind_split)

end
