(* ===== verification/Listpack.thy ===== *)
theory Listpack
  imports Listpack_Enc
begin

text \<open>
  Header, integrity checks, navigation and lookup of \<^verbatim>\<open>src/redis-stable/src/listpack.c\<close>. A pointer
  is an offset in the allocation \<open>m\<close>; NULL is the inner \<^term>\<open>None\<close> of a \<^typ>\<open>nat option\<close>. A failing
  assertion and a read outside the allocation are the outer \<^term>\<open>None\<close>.
\<close>

subsection \<open>Header\<close>

definition lpGetTotalBytes :: "bytes \<Rightarrow> nat option" where
  "lpGetTotalBytes m = map_option (\<lambda>bs. nat (le_uint bs)) (rdn m 0 4)"

definition lpGetNumElements :: "bytes \<Rightarrow> nat option" where
  "lpGetNumElements m = map_option (\<lambda>bs. nat (le_uint bs)) (rdn m 4 2)"

definition lpSetTotalBytes :: "bytes \<Rightarrow> int \<Rightarrow> bytes option" where
  "lpSetTotalBytes m v = wrn m 0 (le_bytes 4 v)"

definition lpSetNumElements :: "bytes \<Rightarrow> int \<Rightarrow> bytes option" where
  "lpSetNumElements m v = wrn m 4 (le_bytes 2 v)"

definition lpBytes :: "bytes \<Rightarrow> nat option" where
  "lpBytes m = lpGetTotalBytes m"

definition LISTPACK_MAX_SAFETY_SIZE :: nat where
  "LISTPACK_MAX_SAFETY_SIZE = 2 ^ 30"

definition lpSafeToAdd :: "bytes option \<Rightarrow> nat \<Rightarrow> bool option" where
  "lpSafeToAdd lp add =
     do {
       len \<leftarrow> (case lp of Some m \<Rightarrow> lpGetTotalBytes m | None \<Rightarrow> Some 0);
       Some (\<not> (len + add) mod 2 ^ 64 > LISTPACK_MAX_SAFETY_SIZE)
     }"

definition lpNew :: "nat \<Rightarrow> bytes option" where
  "lpNew capacity =
     do {
       let m = replicate (if capacity > LP_HDR_SIZE + 1 then capacity else LP_HDR_SIZE + 1) 0;
       m \<leftarrow> lpSetTotalBytes m (int (LP_HDR_SIZE + 1));
       m \<leftarrow> lpSetNumElements m 0;
       wrn m LP_HDR_SIZE [LP_EOF]
     }"

definition lpShrinkToFit :: "bytes \<Rightarrow> bytes option" where
  "lpShrinkToFit m =
     do { n \<leftarrow> lpGetTotalBytes m; Some (if n < length m then realloc m n else m) }"

subsection \<open>Validation of one entry\<close>

text \<open>The result of \<^verbatim>\<open>lpValidateNext\<close>: 0, or 1 with the advanced pointer.\<close>

datatype lp_check = Invalid | Valid "nat option"

definition lp_out_of_range :: "nat \<Rightarrow> nat \<Rightarrow> bool" where
  "lp_out_of_range lpbytes p \<longleftrightarrow> p < LP_HDR_SIZE \<or> p > lpbytes - 1"

definition lpValidateNext :: "bytes \<Rightarrow> nat option \<Rightarrow> nat \<Rightarrow> lp_check option" where
  "lpValidateNext m pp lpbytes =
     (case pp of
        None \<Rightarrow> Some Invalid
      | Some p \<Rightarrow>
          if lp_out_of_range lpbytes p then Some Invalid
          else do {
            b \<leftarrow> rd m p;
            if b = LP_EOF then Some (Valid None)
            else do {
              let lenbytes = lpCurrentEncodedSizeBytes b;
              if lenbytes = 0 then Some Invalid
              else if lp_out_of_range lpbytes (p + lenbytes) then Some Invalid
              else do {
                entrylen \<leftarrow> lpCurrentEncodedSizeUnsafe m p;
                let encodedBacklen = lpEncodeBacklenBytes entrylen;
                let entrylen = entrylen + encodedBacklen;
                if lp_out_of_range lpbytes (p + entrylen) then Some Invalid
                else do {
                  let p = p + entrylen;
                  prevlen \<leftarrow> lpDecodeBacklen m (p - 1);
                  if (prevlen + encodedBacklen) mod 2 ^ 64 \<noteq> entrylen then Some Invalid
                  else Some (Valid (Some p))
                }
              }
            }
          })"

definition lpAssertValidEntry :: "bytes \<Rightarrow> nat \<Rightarrow> nat \<Rightarrow> unit option" where
  "lpAssertValidEntry m lpbytes p =
     do {
       r \<leftarrow> lpValidateNext m (Some p) lpbytes;
       (case r of Valid _ \<Rightarrow> Some () | Invalid \<Rightarrow> None)
     }"

definition ASSERT_INTEGRITY :: "bytes \<Rightarrow> nat \<Rightarrow> unit option" where
  "ASSERT_INTEGRITY m p =
     do { n \<leftarrow> lpGetTotalBytes m; if p \<ge> LP_HDR_SIZE \<and> p < n then Some () else None }"

definition ASSERT_INTEGRITY_LEN :: "bytes \<Rightarrow> nat \<Rightarrow> nat \<Rightarrow> unit option" where
  "ASSERT_INTEGRITY_LEN m p len =
     do { n \<leftarrow> lpGetTotalBytes m; if p \<ge> LP_HDR_SIZE \<and> p + len < n then Some () else None }"

subsection \<open>Navigation\<close>

definition lpNextWithBytes :: "bytes \<Rightarrow> nat \<Rightarrow> nat \<Rightarrow> nat option option" where
  "lpNextWithBytes m p lpbytes =
     do {
       p \<leftarrow> lpSkip m p;
       b \<leftarrow> rd m p;
       if b = LP_EOF then Some None
       else do { lpAssertValidEntry m lpbytes p; Some (Some p) }
     }"

definition lpNext :: "bytes \<Rightarrow> nat \<Rightarrow> nat option option" where
  "lpNext m p =
     do {
       p \<leftarrow> lpSkip m p;
       b \<leftarrow> rd m p;
       if b = LP_EOF then Some None
       else do { n \<leftarrow> lpBytes m; lpAssertValidEntry m n p; Some (Some p) }
     }"

text \<open>
  In \<^verbatim>\<open>lpPrev\<close> the sum \<^verbatim>\<open>prevlen + lpEncodeBacklenBytes(prevlen)\<close> wraps at 64 bits, which matters when
  \<^verbatim>\<open>lpDecodeBacklen\<close> reports an error as \<^verbatim>\<open>UINT64_MAX\<close>; a pointer before the header fails the assertion.
\<close>

definition lpPrev :: "bytes \<Rightarrow> nat \<Rightarrow> nat option option" where
  "lpPrev m p =
     (if p = LP_HDR_SIZE then Some None
      else if p = 0 then None
      else do {
        let p = p - 1;
        prevlen \<leftarrow> lpDecodeBacklen m p;
        let prevlen = (prevlen + lpEncodeBacklenBytes prevlen) mod 2 ^ 64;
        if p + 1 < prevlen then None
        else do {
          let p = p + 1 - prevlen;
          n \<leftarrow> lpBytes m;
          lpAssertValidEntry m n p;
          Some (Some p)
        }
      })"

definition lpFirst :: "bytes \<Rightarrow> nat option option" where
  "lpFirst m =
     do {
       let p = LP_HDR_SIZE;
       b \<leftarrow> rd m p;
       if b = LP_EOF then Some None
       else do { n \<leftarrow> lpBytes m; lpAssertValidEntry m n p; Some (Some p) }
     }"

definition lpLast :: "bytes \<Rightarrow> nat option option" where
  "lpLast m = do { n \<leftarrow> lpGetTotalBytes m; if n = 0 then None else lpPrev m (n - 1) }"

lemma lpSkip_advances: "lpSkip m p = Some q \<Longrightarrow> p < q"
proof -
  assume "lpSkip m p = Some q"
  then obtain n where "q = p + (n + lpEncodeBacklenBytes n)" by (auto simp: lpSkip_def split: bind_splits)
  then show "p < q" using lpEncodeBacklenBytes_bounds(1) [of n] by linarith
qed

lemma lpNext_advances:
  assumes "lpNext m p = Some (Some q)"
  shows "p < q" "q < length m"
proof -
  obtain k where "lpSkip m p = Some q" "rd m q = Some k"
    using assms by (auto simp: lpNext_def split: bind_splits if_splits)
  then show "p < q" "q < length m" by (auto simp: rd_def lpSkip_advances split: if_splits)
qed

lemma lpNext_measure: "lpNext m p = Some (Some q) \<Longrightarrow> length m - q < length m - p"
  using lpNext_advances [of m p q] by simp

text \<open>The scan of \<^verbatim>\<open>lpLength\<close>.\<close>

function lp_count_loop :: "bytes \<Rightarrow> nat option \<Rightarrow> nat \<Rightarrow> nat option" where
  "lp_count_loop m None count = Some count"
| "lp_count_loop m (Some p) count =
     do { q \<leftarrow> lpNext m p; lp_count_loop m q ((count + 1) mod 2 ^ 32) }"
  by pat_completeness auto
termination
  by (relation "measure (\<lambda>(m, p, c). case p of None \<Rightarrow> 0 | Some p \<Rightarrow> 1 + (length m - p))")
     (auto split: option.split simp: lpNext_measure)

text \<open>\<^verbatim>\<open>lpLength\<close> returns the count, and may store it in the header.\<close>

definition lpLength :: "bytes \<Rightarrow> (bytes \<times> nat) option" where
  "lpLength m =
     do {
       numele \<leftarrow> lpGetNumElements m;
       if numele \<noteq> LP_HDR_NUMELE_UNKNOWN then Some (m, numele)
       else do {
         p \<leftarrow> lpFirst m;
         count \<leftarrow> lp_count_loop m p 0;
         m' \<leftarrow> (if count < LP_HDR_NUMELE_UNKNOWN then lpSetNumElements m (int count) else Some m);
         Some (m', count)
       }
     }"

text \<open>The two scans of \<^verbatim>\<open>lpSeek\<close>, over the number of steps left.\<close>

fun lp_seek_forward :: "bytes \<Rightarrow> nat option \<Rightarrow> nat \<Rightarrow> nat option option" where
  "lp_seek_forward m ele 0 = Some ele"
| "lp_seek_forward m None (Suc n) = Some None"
| "lp_seek_forward m (Some p) (Suc n) = do { ele \<leftarrow> lpNext m p; lp_seek_forward m ele n }"

fun lp_seek_backward :: "bytes \<Rightarrow> nat option \<Rightarrow> nat \<Rightarrow> nat option option" where
  "lp_seek_backward m ele 0 = Some ele"
| "lp_seek_backward m None (Suc n) = Some None"
| "lp_seek_backward m (Some p) (Suc n) = do { ele \<leftarrow> lpPrev m p; lp_seek_backward m ele n }"

definition lp_seek_scan :: "bytes \<Rightarrow> bool \<Rightarrow> int \<Rightarrow> nat option option" where
  "lp_seek_scan m forward index =
     (if forward then do { ele \<leftarrow> lpFirst m; lp_seek_forward m ele (nat index) }
      else do { ele \<leftarrow> lpLast m; lp_seek_backward m ele (nat (- 1 - index)) })"

definition lpSeek :: "bytes \<Rightarrow> int \<Rightarrow> nat option option" where
  "lpSeek m index =
     do {
       numele \<leftarrow> lpGetNumElements m;
       if numele \<noteq> LP_HDR_NUMELE_UNKNOWN then
         (let index = (if index < 0 then int numele + index else index)
          in if index < 0 then Some None
             else if index \<ge> int numele then Some None
             else if index > int numele div 2 then lp_seek_scan m False (index - int numele)
             else lp_seek_scan m True index)
       else lp_seek_scan m (\<not> index < 0) index
     }"

subsection \<open>Lookup\<close>

text \<open>A comparison callback gets the listpack, the entry, its own data and the value of the entry.\<close>

type_synonym 'u lpCmp = "bytes \<Rightarrow> nat \<Rightarrow> 'u \<Rightarrow> lp_get \<Rightarrow> ('u \<times> int) option"

text \<open>
  One turn of the loop of \<^verbatim>\<open>lpFindCbInternal\<close>: whether the entry matched, and the new values of
  \<^verbatim>\<open>user\<close>, \<^verbatim>\<open>skipcnt\<close>, \<^verbatim>\<open>p\<close> and \<^verbatim>\<open>entry_size\<close>.
\<close>

definition lp_find_turn ::
    "'u lpCmp \<Rightarrow> nat \<Rightarrow> bytes \<Rightarrow> nat \<Rightarrow> nat \<Rightarrow> 'u \<Rightarrow> nat \<Rightarrow> nat \<Rightarrow> (bool \<times> 'u \<times> nat \<times> nat \<times> nat) option" where
  "lp_find_turn cmp skip m lp_bytes p user skipcnt entry_size =
     (if skipcnt = 0 then do {
        (val, entry_size) \<leftarrow> lpGetWithSize m p None entry_size;
        (case val of
           LpStr _ _ \<Rightarrow> if p \<ge> LP_HDR_SIZE \<and> p + entry_size < lp_bytes then Some () else None
         | _ \<Rightarrow> Some ());
        (user, c) \<leftarrow> cmp m p user val;
        Some (c = 0, user, skip, p + entry_size, entry_size)
      }
      else do {
        p \<leftarrow> lpSkip m p;
        Some (False, user, skipcnt - 1, p, entry_size)
      })"

text \<open>The validation of the next entry, by the slower call only near the end.\<close>

definition lp_find_check :: "bytes \<Rightarrow> nat \<Rightarrow> nat \<Rightarrow> unit option" where
  "lp_find_check m lp_bytes p =
     (if p + 8 \<ge> lp_bytes then lpAssertValidEntry m lp_bytes p
      else if p \<ge> LP_HDR_SIZE \<and> p < lp_bytes then Some () else None)"

partial_function (option) lp_find_loop ::
    "'u lpCmp \<Rightarrow> nat \<Rightarrow> bytes \<Rightarrow> nat \<Rightarrow> nat \<Rightarrow> 'u \<Rightarrow> nat \<Rightarrow> nat \<Rightarrow> ('u \<times> nat option) option" where
  "lp_find_loop cmp skip m lp_bytes p user skipcnt entry_size =
     do {
       (found, user, skipcnt, p', entry_size) \<leftarrow> lp_find_turn cmp skip m lp_bytes p user skipcnt entry_size;
       if found then Some (user, Some p)
       else do {
         lp_find_check m lp_bytes p';
         b \<leftarrow> rd m p';
         if b = LP_EOF then Some (user, None)
         else lp_find_loop cmp skip m lp_bytes p' user skipcnt entry_size
       }
     }"

definition lpFindCbInternal ::
    "bytes \<Rightarrow> nat option \<Rightarrow> 'u \<Rightarrow> 'u lpCmp \<Rightarrow> nat \<Rightarrow> ('u \<times> nat option) option" where
  "lpFindCbInternal m p user cmp skip =
     do {
       lp_bytes \<leftarrow> lpBytes m;
       p \<leftarrow> (case p of None \<Rightarrow> lpFirst m | Some p \<Rightarrow> Some (Some p));
       (case p of
          None \<Rightarrow> Some (user, None)
        | Some p \<Rightarrow> lp_find_loop cmp skip m lp_bytes p user 0 123456789)
     }"

definition lpFindCb :: "bytes \<Rightarrow> nat option \<Rightarrow> 'u \<Rightarrow> 'u lpCmp \<Rightarrow> nat \<Rightarrow> ('u \<times> nat option) option" where
  "lpFindCb m p user cmp skip = lpFindCbInternal m p user cmp skip"

record lpFindArg =
  fa_s :: bytes
  vencoding :: nat
  vll :: int

definition UCHAR_MAX :: nat where "UCHAR_MAX = 255"

definition lpFindCmp :: "lpFindArg lpCmp" where
  "lpFindCmp m p arg v =
     (case v of
        LpStr q slen \<Rightarrow>
          (if slen = length (fa_s arg)
           then do { bs \<leftarrow> rdn m q slen; Some (arg, if bs = fa_s arg then 0 else 1) }
           else Some (arg, 1))
      | LpInt ll \<Rightarrow>
          (let arg =
             (if vencoding arg = 0 then
                (if length (fa_s arg) \<ge> 32 \<or> length (fa_s arg) = 0 then arg\<lparr>vencoding := UCHAR_MAX\<rparr>
                 else case lpStringToInt64 (fa_s arg) of
                        None \<Rightarrow> arg\<lparr>vencoding := UCHAR_MAX\<rparr>
                      | Some i \<Rightarrow> arg\<lparr>vencoding := 1, vll := i\<rparr>)
              else arg)
           in Some (arg, if vencoding arg \<noteq> UCHAR_MAX \<and> ll = vll arg then 0 else 1))
      | LpBuf _ _ \<Rightarrow> None)"

definition lpFind :: "bytes \<Rightarrow> nat option \<Rightarrow> bytes \<Rightarrow> nat \<Rightarrow> nat option option" where
  "lpFind m p s skip =
     map_option snd (lpFindCbInternal m p \<lparr>fa_s = s, vencoding = 0, vll = 0\<rparr> lpFindCmp skip)"

text \<open>
  \<^verbatim>\<open>lpCompare\<close>, with the optional cache \<^verbatim>\<open>(cached_longval, cached_valid)\<close>.
\<close>

definition lpCompare :: "bytes \<Rightarrow> nat \<Rightarrow> bytes \<Rightarrow> (int \<times> int) option \<Rightarrow> (bool \<times> (int \<times> int) option) option" where
  "lpCompare m p s cached =
     do {
       b \<leftarrow> rd m p;
       if b = LP_EOF then Some (False, cached)
       else do {
         v \<leftarrow> lpGet m p None;
         (case v of
            LpStr q sz \<Rightarrow>
              (if length s = sz then do { bs \<leftarrow> rdn m q (length s); Some (bs = s, cached) }
               else Some (False, cached))
          | LpInt sz \<Rightarrow>
              (case cached of
                 Some (longval, valid) \<Rightarrow>
                   (let (longval, valid) =
                      (if valid = 0 then
                         (case lpStringToInt64 s of Some l \<Rightarrow> (l, 1) | None \<Rightarrow> (longval, - 1))
                       else (longval, valid))
                    in Some (valid = 1 \<and> sz = longval, Some (longval, valid)))
               | None \<Rightarrow>
                   (case lpStringToInt64 s of
                      Some sval \<Rightarrow> Some (sz = sval, None)
                    | None \<Rightarrow> Some (False, None)))
          | LpBuf _ _ \<Rightarrow> None)
       }
     }"

subsection \<open>Validation of a whole listpack\<close>

definition lpValidateFirst :: "bytes \<Rightarrow> nat option option" where
  "lpValidateFirst m =
     do { b \<leftarrow> rd m LP_HDR_SIZE; Some (if b = LP_EOF then None else Some LP_HDR_SIZE) }"

lemma lpValidateNext_advances:
  "lpValidateNext m (Some p) n = Some (Valid (Some q)) \<Longrightarrow> p < q \<and> q < n"
proof -
  assume a: "lpValidateNext m (Some p) n = Some (Valid (Some q))"
  then obtain k where "q = p + (k + lpEncodeBacklenBytes k)" "\<not> lp_out_of_range n q"
    by (auto simp: lpValidateNext_def Let_def split: bind_splits if_splits)
  then show ?thesis using lpEncodeBacklenBytes_bounds(1) [of k]
    by (auto simp: lp_out_of_range_def LP_HDR_SIZE_def)
qed

lemma lpValidateNext_measure:
  "lpValidateNext m (Some p) n = Some (Valid (Some q)) \<Longrightarrow> n - q < n - p"
  using lpValidateNext_advances [of m p n q] by auto

text \<open>
  The entry scan of \<^verbatim>\<open>lpValidateIntegrity\<close>: \<^term>\<open>None\<close> inside for an early return of 0, else the final
  pointer and the count. \<open>cb\<close> is the optional callback with its data \<open>ud\<close>.
\<close>

type_synonym 'd lpEntryCb = "bytes \<Rightarrow> nat \<Rightarrow> nat \<Rightarrow> 'd \<Rightarrow> ('d \<times> bool) option"

function lp_validate_loop ::
    "'d lpEntryCb option \<Rightarrow> bytes \<Rightarrow> nat \<Rightarrow> nat \<Rightarrow> nat \<Rightarrow> 'd \<Rightarrow> nat \<Rightarrow> (nat \<times> nat) option option" where
  "lp_validate_loop cb m n numele p ud count =
     do {
       b \<leftarrow> rd m p;
       if b = LP_EOF then Some (Some (p, count))
       else do {
         r \<leftarrow> lpValidateNext m (Some p) n;
         (case r of
            Invalid \<Rightarrow> Some None
          | Valid None \<Rightarrow> Some None
          | Valid (Some q) \<Rightarrow> do {
              (ud', ok) \<leftarrow> (case cb of None \<Rightarrow> Some (ud, True) | Some f \<Rightarrow> f m p numele ud);
              if \<not> ok then Some None
              else lp_validate_loop cb m n numele q ud' ((count + 1) mod 2 ^ 32)
            })
       }
     }"
  by pat_completeness auto
termination
  by (relation "measure (\<lambda>(cb, m, n, numele, p, ud, count). n - p)") (auto simp: lpValidateNext_measure)

declare lp_validate_loop.simps [simp del]

definition lpValidateIntegrity :: "bytes \<Rightarrow> nat \<Rightarrow> bool \<Rightarrow> 'd lpEntryCb option \<Rightarrow> 'd \<Rightarrow> bool option" where
  "lpValidateIntegrity m sz deep cb ud =
     (if sz < LP_HDR_SIZE + 1 then Some False
      else do {
        n \<leftarrow> lpGetTotalBytes m;
        if n \<noteq> sz then Some False
        else do {
          e \<leftarrow> rd m (sz - 1);
          if e \<noteq> LP_EOF then Some False
          else if \<not> deep then Some True
          else do {
            numele \<leftarrow> lpGetNumElements m;
            r \<leftarrow> lp_validate_loop cb m n numele LP_HDR_SIZE ud 0;
            Some (case r of
                    None \<Rightarrow> False
                  | Some (p, count) \<Rightarrow>
                      p = sz - 1 \<and> (numele = LP_HDR_NUMELE_UNKNOWN \<or> numele = count))
          }
        }
      })"

subsection \<open>Well-formed listpacks\<close>

text \<open>
  A well-formed listpack: the total size, the element count (or 65535 for "unknown"), the raw
  entries with the payloads \<open>es\<close>, the end marker, and the unused rest \<open>sl\<close> of the allocation.
\<close>

definition lp_body :: "bytes list \<Rightarrow> bytes" where
  "lp_body es = concat (map raw es)"

definition lp_size :: "bytes list \<Rightarrow> nat" where
  "lp_size es = LP_HDR_SIZE + 1 + length (lp_body es)"

definition lp_hdr :: "nat \<Rightarrow> nat \<Rightarrow> bytes" where
  "lp_hdr t n = le_bytes 4 (int t) @ le_bytes 2 (int n)"

definition lp_image :: "nat \<Rightarrow> bytes list \<Rightarrow> bytes \<Rightarrow> bytes" where
  "lp_image n es sl = lp_hdr (lp_size es) n @ lp_body es @ LP_EOF # sl"

definition lp_wf :: "nat \<Rightarrow> bytes list \<Rightarrow> bool" where
  "lp_wf n es \<longleftrightarrow> (\<forall>e \<in> set es. lp_entry e) \<and> lp_size es < 2 ^ 32 \<and>
     (n = LP_HDR_NUMELE_UNKNOWN \<or> n = length es \<and> n < LP_HDR_NUMELE_UNKNOWN)"

text \<open>The offset at which the entry behind the entries \<open>xs\<close> starts.\<close>

definition lp_off :: "bytes list \<Rightarrow> nat" where
  "lp_off xs = LP_HDR_SIZE + length (lp_body xs)"

lemma lp_body_simps [simp]:
  "lp_body [] = []" "lp_body (e # es) = raw e @ lp_body es" "lp_body (xs @ ys) = lp_body xs @ lp_body ys"
  by (simp_all add: lp_body_def)

lemma length_lp_hdr [simp]: "length (lp_hdr t n) = LP_HDR_SIZE"
  by (simp add: lp_hdr_def LP_HDR_SIZE_def)

lemma lp_off_Nil [simp]: "lp_off [] = LP_HDR_SIZE"
  by (simp add: lp_off_def)

lemma lp_off_snoc: "lp_off (xs @ [e]) = lp_off xs + length (raw e)"
  by (simp add: lp_off_def)

lemma lp_size_off: "lp_size es = lp_off es + 1"
  by (simp add: lp_size_def lp_off_def)

lemma length_lp_image: "length (lp_image n es sl) = lp_size es + length sl"
  by (simp add: lp_image_def lp_size_def)

lemma length_raw_pos:
  assumes "e \<noteq> []"
  shows "2 \<le> length (raw e)"
proof -
  have "1 \<le> length e" using assms by (simp add: Suc_le_eq)
  then show ?thesis using lpEncodeBacklenBytes_bounds(1) [of "length e"] by (simp add: length_raw)
qed

lemma lp_off_append_ge: "lp_off xs \<le> lp_off (xs @ ys)"
  by (simp add: lp_off_def)

lemma lp_image_split:
  "lp_image n (xs @ ys) sl =
     (lp_hdr (lp_size (xs @ ys)) n @ lp_body xs) @ (lp_body ys @ LP_EOF # sl)"
  "length (lp_hdr t k @ lp_body xs) = lp_off xs"
  by (simp_all add: lp_image_def lp_off_def)

lemma lp_wf_count: "lp_wf n es \<Longrightarrow> n < 65536"
  by (auto simp: lp_wf_def LP_HDR_NUMELE_UNKNOWN_def)

lemma lp_wf_append: "lp_wf n (xs @ ys) \<Longrightarrow> (\<forall>e \<in> set xs. lp_entry e) \<and> (\<forall>e \<in> set ys. lp_entry e)"
  by (auto simp: lp_wf_def)

lemma hdr_rdn:
  "rdn (lp_hdr t k @ X) 0 4 = Some (le_bytes 4 (int t))"
  "rdn (lp_hdr t k @ X) 4 2 = Some (le_bytes 2 (int k))"
  by (simp_all add: lp_hdr_def rdn_def slice_def)

lemma lpGetTotalBytes_image: "lp_wf n es \<Longrightarrow> lpGetTotalBytes (lp_image n es sl) = Some (lp_size es)"
  by (simp add: lpGetTotalBytes_def lp_image_def hdr_rdn le_uint_le_bytes lp_wf_def)

lemma lpGetNumElements_image: "lp_wf n es \<Longrightarrow> lpGetNumElements (lp_image n es sl) = Some n"
  using lp_wf_count [of n es] by (simp add: lpGetNumElements_def lp_image_def hdr_rdn le_uint_le_bytes)

lemma rd_eof: "rd (lp_image n es sl) (lp_off es) = Some LP_EOF"
  using rd_append [of "lp_hdr (lp_size es) n @ lp_body es" "LP_EOF # sl" 0]
  by (simp add: lp_image_def lp_off_def rd_def)

text \<open>An image, focussed on the entry \<open>e\<close> behind the entries \<open>xs\<close>.\<close>

lemma lp_image_focus:
  obtains A B where "lp_image n (xs @ e # ys) sl = A @ raw e @ B" "length A = lp_off xs"
  using that [of "lp_hdr (lp_size (xs @ e # ys)) n @ lp_body xs" "lp_body ys @ LP_EOF # sl"]
  by (simp add: lp_image_def lp_off_def)

lemma image_entry:
  assumes "lp_entry e"
  shows "rd (lp_image n (xs @ e # ys) sl) (lp_off xs) = Some (hd e)"
    and "lpSkip (lp_image n (xs @ e # ys) sl) (lp_off xs) = Some (lp_off (xs @ [e]))"
    and "lpCurrentEncodedSizeUnsafe (lp_image n (xs @ e # ys) sl) (lp_off xs) = Some (length e)"
    and "lpDecodeBacklen (lp_image n (xs @ e # ys) sl) (lp_off (xs @ [e]) - 1) = Some (length e)"
proof -
  obtain A B where im: "lp_image n (xs @ e # ys) sl = A @ raw e @ B" and A: "length A = lp_off xs"
    by (rule lp_image_focus)
  show "rd (lp_image n (xs @ e # ys) sl) (lp_off xs) = Some (hd e)"
    using assms rd_raw [of e A B] by (simp add: im A [symmetric] lp_entry_def)
  show "lpSkip (lp_image n (xs @ e # ys) sl) (lp_off xs) = Some (lp_off (xs @ [e]))"
    using lpSkip_raw [OF assms, of A B] by (simp add: im A lp_off_snoc)
  show "lpCurrentEncodedSizeUnsafe (lp_image n (xs @ e # ys) sl) (lp_off xs) = Some (length e)"
    using cur_size_raw [OF assms, of A B] by (simp add: im A)
  show "lpDecodeBacklen (lp_image n (xs @ e # ys) sl) (lp_off (xs @ [e]) - 1) = Some (length e)"
    using lpDecodeBacklen_raw [OF assms, of A B] by (simp add: im A lp_off_snoc)
qed

lemma entry_no_wrap:
  "lp_entry e \<Longrightarrow> (length e + lpEncodeBacklenBytes (length e)) mod 18446744073709551616 =
    length e + lpEncodeBacklenBytes (length e)"
  using lp_entry_length [of e] lpEncodeBacklenBytes_bounds(2) [of "length e"] by simp

lemma lpValidateNext_image:
  assumes "lp_wf n (xs @ e # ys)"
  shows "lpValidateNext (lp_image n (xs @ e # ys) sl) (Some (lp_off xs)) (lp_size (xs @ e # ys))
    = Some (Valid (Some (lp_off (xs @ [e]))))"
proof -
  have e: "lp_entry e" using assms by (simp add: lp_wf_def)
  have sz: "lp_size (xs @ e # ys) = lp_off xs + length (raw e) + length (lp_body ys) + 1"
    by (simp add: lp_size_def lp_off_def)
  have hdr: "LP_HDR_SIZE \<le> lp_off xs" by (simp add: lp_off_def)
  have ne: "hd e \<noteq> LP_EOF" using e by (simp add: lp_entry_def)
  show ?thesis
    using image_entry [OF e, of n xs ys sl] lenbytes_entry [OF e] lp_entry_length [OF e] ne hdr
    by (simp add: lpValidateNext_def lp_out_of_range_def sz lp_off_snoc length_raw Let_def
        entry_no_wrap [OF e])
qed

lemma lpValidateNext_eof:
  "lpValidateNext (lp_image n es sl) (Some (lp_off es)) (lp_size es) = Some (Valid None)"
  using rd_eof [of n es sl]
  by (simp add: lpValidateNext_def lp_out_of_range_def lp_size_off lp_off_def)

lemma lpAssertValidEntry_image:
  assumes "lp_wf n (xs @ ys)"
  shows "lpAssertValidEntry (lp_image n (xs @ ys) sl) (lp_size (xs @ ys)) (lp_off xs) = Some ()"
proof (cases ys)
  case Nil
  then show ?thesis by (simp add: lpAssertValidEntry_def lpValidateNext_eof)
next
  case (Cons e zs)
  then show ?thesis using assms by (simp add: lpAssertValidEntry_def lpValidateNext_image)
qed

subsection \<open>Navigation over a well-formed listpack\<close>

text \<open>The pointer to the entry behind \<open>xs\<close>, NULL at the end.\<close>

definition lp_ptr :: "bytes list \<Rightarrow> bytes list \<Rightarrow> nat option" where
  "lp_ptr xs ys = (if ys = [] then None else Some (lp_off xs))"

lemma lp_ptr_simps [simp]: "lp_ptr xs [] = None" "lp_ptr xs (y # ys) = Some (lp_off xs)"
  by (simp_all add: lp_ptr_def)

lemma lpNext_image:
  assumes "lp_wf n (xs @ e # ys)"
  shows "lpNext (lp_image n (xs @ e # ys) sl) (lp_off xs) = Some (lp_ptr (xs @ [e]) ys)"
proof -
  have e: "lp_entry e" using assms by (simp add: lp_wf_def)
  show ?thesis
  proof (cases ys)
    case Nil
    then show ?thesis using image_entry(2) [OF e, of n xs "[]" sl] rd_eof [of n "xs @ [e]" sl]
      by (simp add: lpNext_def)
  next
    case (Cons f zs)
    then have f: "lp_entry f" using assms by (simp add: lp_wf_def)
    then have "hd f \<noteq> LP_EOF" by (simp add: lp_entry_def)
    then show ?thesis
      using Cons image_entry(2) [OF e, of n xs ys sl] image_entry(1) [OF f, of n "xs @ [e]" zs sl]
        lpAssertValidEntry_image [of n "xs @ [e]" ys sl] lpGetTotalBytes_image [OF assms] assms
      by (simp add: lpNext_def lpBytes_def)
  qed
qed

lemma lpNextWithBytes_image:
  "lp_wf n es \<Longrightarrow> lpNextWithBytes (lp_image n es sl) p (lp_size es) = lpNext (lp_image n es sl) p"
  by (simp add: lpNext_def lpNextWithBytes_def lpBytes_def lpGetTotalBytes_image cong: if_cong)

lemma lpFirst_image:
  assumes "lp_wf n es"
  shows "lpFirst (lp_image n es sl) = Some (lp_ptr [] es)"
proof (cases es)
  case Nil
  then show ?thesis using rd_eof [of n es sl] by (simp add: lpFirst_def)
next
  case (Cons e ys)
  then have e: "lp_entry e" using assms by (simp add: lp_wf_def)
  then have "hd e \<noteq> LP_EOF" by (simp add: lp_entry_def)
  then show ?thesis
    using Cons image_entry(1) [OF e, of n "[]" ys sl] lpAssertValidEntry_image [of n "[]" es sl]
      lpGetTotalBytes_image [OF assms] assms
    by (simp add: lpFirst_def lpBytes_def)
qed

lemma lpPrev_image:
  assumes "lp_wf n (xs @ e # ys)"
  shows "lpPrev (lp_image n (xs @ e # ys) sl) (lp_off (xs @ [e])) = Some (Some (lp_off xs))"
proof -
  have e: "lp_entry e" using assms by (simp add: lp_wf_def)
  then have "2 \<le> length (raw e)" by (intro length_raw_pos) (simp add: lp_entry_def)
  then have "LP_HDR_SIZE < lp_off (xs @ [e])" by (auto simp: lp_off_def)
  then show ?thesis
    using image_entry(4) [OF e, of n xs ys sl] lpAssertValidEntry_image [OF assms, of sl]
      lpGetTotalBytes_image [OF assms] entry_no_wrap [OF e] lp_entry_length [OF e]
    by (simp add: lpPrev_def lpBytes_def lp_off_snoc length_raw)
qed

lemma lpPrev_first [simp]: "lpPrev m LP_HDR_SIZE = Some None"
  by (simp add: lpPrev_def)

lemma lpLast_image:
  assumes "lp_wf n es"
  shows "lpLast (lp_image n es sl) = Some (if es = [] then None else Some (lp_off (butlast es)))"
proof (cases es rule: rev_cases)
  case Nil
  then show ?thesis using lpGetTotalBytes_image [OF assms, of sl] by (simp add: lpLast_def lp_size_off)
next
  case (snoc xs e)
  then show ?thesis
    using lpGetTotalBytes_image [OF assms, of sl] lpPrev_image [of n xs e "[]" sl] assms
    by (simp add: lpLast_def lp_size_off)
qed

lemma lp_count_loop_image:
  "lp_wf n (xs @ ys) \<Longrightarrow> c + length ys < 2 ^ 32 \<Longrightarrow>
   lp_count_loop (lp_image n (xs @ ys) sl) (lp_ptr xs ys) c = Some (c + length ys)"
proof (induction ys arbitrary: xs c)
  case (Cons e ys)
  then have "lp_count_loop (lp_image n ((xs @ [e]) @ ys) sl) (lp_ptr (xs @ [e]) ys) (c + 1)
      = Some (c + 1 + length ys)"
    by (intro Cons.IH) auto
  then show ?case using Cons.prems lpNext_image [of n xs e ys sl] by simp
qed simp

lemma lp_seek_forward_image:
  "lp_wf n (xs @ ys) \<Longrightarrow>
   lp_seek_forward (lp_image n (xs @ ys) sl) (lp_ptr xs ys) k
     = Some (lp_ptr (xs @ take k ys) (drop k ys))"
proof (induction k arbitrary: xs ys)
  case (Suc k)
  show ?case
  proof (cases ys)
    case (Cons e zs)
    then show ?thesis
      using Suc.IH [of "xs @ [e]" zs] Suc.prems lpNext_image [of n xs e zs sl] by simp
  qed simp
qed simp

lemma lpPrev_take:
  assumes "lp_wf n es" "i \<le> length es"
  shows "lpPrev (lp_image n es sl) (lp_off (take i es))
    = Some (if i = 0 then None else Some (lp_off (take (i - 1) es)))"
proof (cases i)
  case (Suc h)
  then have h: "take i es = take h es @ [es ! h]" "take h es @ es ! h # drop (Suc h) es = es"
    using assms by (simp_all add: take_Suc_conv_app_nth id_take_nth_drop [symmetric])
  then show ?thesis
    using lpPrev_image [of n "take h es" "es ! h" "drop (Suc h) es" sl] assms(1) Suc by simp
qed simp

lemma lp_seek_backward_image:
  "lp_wf n es \<Longrightarrow> k \<le> length es \<Longrightarrow>
   lp_seek_backward (lp_image n es sl)
     (if k = 0 then None else Some (lp_off (take (k - 1) es))) j
   = Some (if k \<le> j then None else Some (lp_off (take (k - 1 - j) es)))"
proof (induction j arbitrary: k)
  case (Suc j)
  show ?case
  proof (cases "k = 0")
    case False
    then have "lp_seek_backward (lp_image n es sl)
       (if k - 1 = 0 then None else Some (lp_off (take (k - 1 - 1) es))) j
     = Some (if k - 1 \<le> j then None else Some (lp_off (take (k - 1 - 1 - j) es)))"
      using Suc.prems by (intro Suc.IH) auto
    moreover have "k - 1 \<le> j \<longleftrightarrow> k \<le> Suc j" using False by linarith
    ultimately show ?thesis
      using False Suc.prems lpPrev_take [of n es "k - 1" sl] by (simp del: take_Suc)
  qed simp
qed simp

lemma lpSetNumElements_image: "lpSetNumElements (lp_image n es sl) (int k) = Some (lp_image k es sl)"
  by (simp add: lpSetNumElements_def lp_image_def wrn_def splice_at_def lp_hdr_def LP_HDR_SIZE_def)

lemma lp_size_ge: "\<forall>e \<in> set es. lp_entry e \<Longrightarrow> 7 + 2 * length es \<le> lp_size es"
proof (induction es)
  case (Cons e es)
  then have "2 \<le> length (raw e)" by (intro length_raw_pos) (simp add: lp_entry_def)
  then show ?case using Cons by (simp add: lp_size_def)
qed (simp add: lp_size_def LP_HDR_SIZE_def)

lemma lp_wf_length: "lp_wf n es \<Longrightarrow> length es < 2 ^ 31"
  using lp_size_ge [of es] by (simp add: lp_wf_def)

lemma lpLength_image:
  assumes "lp_wf n es"
  shows "\<exists>n'. lp_wf n' es \<and> lpLength (lp_image n es sl) = Some (lp_image n' es sl, length es)"
proof (cases "n = LP_HDR_NUMELE_UNKNOWN")
  case True
  have "lp_count_loop (lp_image n es sl) (lp_ptr [] es) 0 = Some (length es)"
    using lp_count_loop_image [of n "[]" es 0 sl] lp_wf_length [OF assms] assms by simp
  then have "lpLength (lp_image n es sl) =
      Some (if length es < LP_HDR_NUMELE_UNKNOWN then lp_image (length es) es sl else lp_image n es sl, length es)"
    using True assms by (simp add: lpLength_def lpGetNumElements_image lpFirst_image lpSetNumElements_image)
  moreover have "lp_wf (length es) es" if "length es < LP_HDR_NUMELE_UNKNOWN"
    using assms that by (simp add: lp_wf_def)
  ultimately show ?thesis using assms by (cases "length es < LP_HDR_NUMELE_UNKNOWN") auto
next
  case False
  then show ?thesis using assms
    by (intro exI [of _ n]) (auto simp: lpLength_def lpGetNumElements_image lp_wf_def)
qed

lemma lp_seek_scan_image:
  assumes "lp_wf n es"
  shows "0 \<le> i \<Longrightarrow> lp_seek_scan (lp_image n es sl) True i =
      Some (if nat i < length es then Some (lp_off (take (nat i) es)) else None)"
    and "i < 0 \<Longrightarrow> lp_seek_scan (lp_image n es sl) False i =
      Some (if - i \<le> int (length es) then Some (lp_off (take (nat (int (length es) + i)) es)) else None)"
proof -
  show "lp_seek_scan (lp_image n es sl) True i =
      Some (if nat i < length es then Some (lp_off (take (nat i) es)) else None)" if "0 \<le> i"
    using lp_seek_forward_image [of n "[]" es sl "nat i"] assms
    by (simp add: lp_seek_scan_def lpFirst_image lp_ptr_def)
  assume i: "i < 0"
  have last: "lpLast (lp_image n es sl) =
      Some (if length es = 0 then None else Some (lp_off (take (length es - 1) es)))"
    using lpLast_image [OF assms] by (simp add: butlast_conv_take)
  have "length es - 1 - nat (- 1 - i) = nat (int (length es) + i)" if "\<not> length es \<le> nat (- 1 - i)"
    using that i by linarith
  moreover have "length es \<le> nat (- 1 - i) \<longleftrightarrow> \<not> - i \<le> int (length es)" using i by linarith
  ultimately show "lp_seek_scan (lp_image n es sl) False i =
      Some (if - i \<le> int (length es) then Some (lp_off (take (nat (int (length es) + i)) es)) else None)"
    using lp_seek_backward_image [OF assms order_refl, of sl "nat (- 1 - i)"] last
    by (simp add: lp_seek_scan_def)
qed

lemma lpSeek_image:
  assumes "lp_wf n es"
  defines "k i \<equiv> (if i < 0 then int (length es) + i else i)"
  shows "lpSeek (lp_image n es sl) i =
    Some (if 0 \<le> k i \<and> k i < int (length es) then Some (lp_off (take (nat (k i)) es)) else None)"
proof -
  note g = lpGetNumElements_image [OF assms(1), of sl]
  show ?thesis
  proof (cases "n = LP_HDR_NUMELE_UNKNOWN")
    case True
    then show ?thesis
      using lp_seek_scan_image [OF assms(1), of i sl]
      unfolding lpSeek_def g bind.bind_lunit by (auto simp: k_def nat_less_iff)
  next
    case False
    then have n: "n = length es" using assms(1) by (simp add: lp_wf_def)
    show ?thesis
      using False lp_seek_scan_image [OF assms(1), of "k i" sl]
        lp_seek_scan_image [OF assms(1), of "k i - int n" sl]
      unfolding lpSeek_def g bind.bind_lunit
      by (auto simp: k_def n nat_less_iff Let_def)
  qed
qed

subsection \<open>Reading elements\<close>

abbreviation enc_all :: "lp_elem list \<Rightarrow> bytes list" where
  "enc_all xs \<equiv> map enc_elem xs"

lemma elem_get_enc:
  assumes "elem_ok x"
  shows "lpGetWithBuf (enc_elem x) 0 None = Some (elem_get x)"
    and "lpGetWithSize (enc_elem x) 0 None es0 = Some (elem_get x, length (raw (enc_elem x)))"
  using assms by (cases x; simp add: str_enc int_enc int_result_def length_raw)+

lemma lp_get_image:
  assumes "elem_ok x"
  shows "lpGetWithBuf (lp_image n (us @ enc_elem x # vs) sl) (lp_off us) None =
      Some (lp_shift (lp_off us) (elem_get x))"
    and "lpGetWithSize (lp_image n (us @ enc_elem x # vs) sl) (lp_off us) None es0 =
      Some (lp_shift (lp_off us) (elem_get x), length (raw (enc_elem x)))"
proof -
  obtain A B where "lp_image n (us @ enc_elem x # vs) sl = A @ raw (enc_elem x) @ B" "length A = lp_off us"
    by (rule lp_image_focus)
  note focus = this
  let ?B = "lpEncodeBacklen (length (enc_elem x)) @ B"
  show "lpGetWithBuf (lp_image n (us @ enc_elem x # vs) sl) (lp_off us) None =
      Some (lp_shift (lp_off us) (elem_get x))"
    using opt_simD [OF lpGetWithBuf_extend [of A "enc_elem x" 0 None ?B]] elem_get_enc(1) [OF assms] focus
    by (simp add: raw_def shifted_def)
  show "lpGetWithSize (lp_image n (us @ enc_elem x # vs) sl) (lp_off us) None es0 =
      Some (lp_shift (lp_off us) (elem_get x), length (raw (enc_elem x)))"
    using opt_simD [OF lpGetWithSize_extend [of A "enc_elem x" 0 None es0 ?B]] elem_get_enc(2) [OF assms] focus
    by (simp add: raw_def shifted_fst_def)
qed

text \<open>The bytes of a string element are where the decoder says.\<close>

definition holds_str :: "bytes \<Rightarrow> nat \<Rightarrow> lp_elem \<Rightarrow> bool" where
  "holds_str m p x \<longleftrightarrow>
     (case x of EStr s \<Rightarrow> rdn m (p + str_hdr s) (length s) = Some s | EInt _ \<Rightarrow> True)"

lemma holds_str_image:
  assumes "elem_ok x"
  shows "holds_str (lp_image n (us @ enc_elem x # vs) sl) (lp_off us) x"
proof (cases x)
  case (EStr s)
  obtain A B where f: "lp_image n (us @ enc_elem x # vs) sl = A @ raw (enc_elem x) @ B" "length A = lp_off us"
    by (rule lp_image_focus)
  have "rdn (lpEncodeString s) (str_hdr s) (length s) = Some s"
    using EStr assms by (simp add: rdn_def str_enc)
  then show ?thesis
    using opt_simD [OF rdn_extend [of "lpEncodeString s" "str_hdr s" "length s" A
          "lpEncodeBacklen (length (lpEncodeString s)) @ B"]] f EStr
    by (simp add: holds_str_def raw_def)
qed (simp add: holds_str_def)

subsection \<open>Lookup with a comparison callback\<close>

text \<open>
  The contract of a callback: on the value of an element it runs, keeps the invariant of its data and
  says whether the element has the property.
\<close>

locale lp_comparator =
  fixes cmp :: "'u lpCmp" and I :: "'u \<Rightarrow> bool" and P :: "lp_elem \<Rightarrow> bool"
  assumes cmp_law: "elem_ok x \<Longrightarrow> I u \<Longrightarrow> holds_str m p x \<Longrightarrow>
    \<exists>u' c. cmp m p u (lp_shift p (elem_get x)) = Some (u', c) \<and> I u' \<and> (c = 0 \<longleftrightarrow> P x)"

text \<open>The first element with the property, looking at every \<open>skip + 1\<close>-th after \<open>c\<close> skipped ones.\<close>

fun find_idx :: "nat \<Rightarrow> ('a \<Rightarrow> bool) \<Rightarrow> nat \<Rightarrow> 'a list \<Rightarrow> nat option" where
  "find_idx skip P c [] = None"
| "find_idx skip P c (x # xs) =
     (if c = 0 then (if P x then Some 0 else map_option Suc (find_idx skip P skip xs))
      else map_option Suc (find_idx skip P (c - 1) xs))"

lemma lp_find_check_image:
  assumes "lp_wf n (xs @ ys)"
  shows "lp_find_check (lp_image n (xs @ ys) sl) (lp_size (xs @ ys)) (lp_off xs) = Some ()"
  using lpAssertValidEntry_image [OF assms, of sl] by (simp add: lp_find_check_def lp_off_def)

lemma rd_image_eof:
  assumes "lp_wf n (xs @ ys)"
  shows "\<exists>b. rd (lp_image n (xs @ ys) sl) (lp_off xs) = Some b \<and> (b = LP_EOF \<longleftrightarrow> ys = [])"
proof (cases ys)
  case Nil
  then show ?thesis using rd_eof [of n xs sl] by simp
next
  case (Cons e zs)
  then have "lp_entry e" using assms by (simp add: lp_wf_def)
  then show ?thesis using image_entry(1) [of e n xs zs sl] Cons by (simp add: lp_entry_def)
qed

context lp_comparator
begin

lemma find_turn:
  assumes "elem_ok x" "I u" and "lp_wf n (us @ enc_elem x # vs)"
    and m_def: "m = lp_image n (us @ enc_elem x # vs) sl"
  shows "\<exists>u' es'. lp_find_turn cmp skip m (lp_size (us @ enc_elem x # vs)) (lp_off us) u c es0 =
      Some (c = 0 \<and> P x, u', if c = 0 then skip else c - 1, lp_off (us @ [enc_elem x]), es') \<and> I u'"
proof (cases "c = 0")
  case True
  obtain u' d where cmp: "cmp m (lp_off us) u (lp_shift (lp_off us) (elem_get x)) = Some (u', d)"
    "I u'" "d = 0 \<longleftrightarrow> P x"
    using cmp_law [OF assms(1,2) holds_str_image [OF assms(1)]] by (metis m_def)
  have lt: "lp_off us + length (raw (enc_elem x)) < lp_size (us @ enc_elem x # vs)"
    by (simp add: lp_off_def lp_size_def)
  have chk: "(case lp_shift (lp_off us) (elem_get x) of
      LpStr _ _ \<Rightarrow> if lp_off us \<ge> LP_HDR_SIZE \<and> lp_off us + length (raw (enc_elem x)) < lp_size (us @ enc_elem x # vs)
        then Some () else None
    | _ \<Rightarrow> Some ()) = Some ()"
    using lt by (cases x) (simp_all add: lp_off_def)
  show ?thesis
    using True cmp(2,3)
    by (simp add: lp_find_turn_def m_def lp_get_image(2) [OF assms(1)] chk cmp(1) [unfolded m_def] lp_off_snoc)
next
  case False
  then show ?thesis using assms(2) lpSkip_raw image_entry(2) [OF lp_entry_enc_elem [OF assms(1)], of n us vs sl]
    by (simp add: lp_find_turn_def m_def)
qed

lemma find_loop:
  assumes "lp_wf n (us @ enc_all vs)" "\<forall>x \<in> set vs. elem_ok x" "vs \<noteq> []" "I u"
  shows "\<exists>u'. I u' \<and> lp_find_loop cmp skip (lp_image n (us @ enc_all vs) sl) (lp_size (us @ enc_all vs))
      (lp_off us) u c es0 =
      Some (u', map_option (\<lambda>j. lp_off (us @ take j (enc_all vs))) (find_idx skip P c vs))"
  using assms
proof (induction vs arbitrary: us u c es0)
  case (Cons x vs)
  let ?m = "lp_image n (us @ enc_all (x # vs)) sl" and ?N = "lp_size (us @ enc_all (x # vs))"
  let ?us = "us @ [enc_elem x]" and ?c = "if c = 0 then skip else c - 1"
  obtain u' es' where turn: "lp_find_turn cmp skip ?m ?N (lp_off us) u c es0 =
      Some (c = 0 \<and> P x, u', ?c, lp_off ?us, es')" "I u'"
    using find_turn [of x u n us "enc_all vs" ?m sl skip c es0] Cons.prems by auto
  have wf: "lp_wf n (?us @ enc_all vs)" using Cons.prems(1) by simp
  obtain b where b: "rd ?m (lp_off ?us) = Some b" "b = LP_EOF \<longleftrightarrow> vs = []"
    using rd_image_eof [OF wf, of sl] by auto
  note unf = lp_find_loop.simps [of cmp skip ?m ?N "lp_off us" u c es0]
  have chk: "lp_find_check ?m ?N (lp_off ?us) = Some ()"
    using lp_find_check_image [OF wf, of sl] by simp
  show ?case
  proof (cases "c = 0 \<and> P x \<or> vs = []")
    case True
    then show ?thesis using turn(2) b chk unfolding unf turn(1) by auto
  next
    case False
    then obtain u2 where "I u2" "lp_find_loop cmp skip (lp_image n (?us @ enc_all vs) sl)
        (lp_size (?us @ enc_all vs)) (lp_off ?us) u' ?c es' =
        Some (u2, map_option (\<lambda>j. lp_off (?us @ take j (enc_all vs))) (find_idx skip P ?c vs))"
      using Cons.IH [of ?us u' ?c es'] wf Cons.prems turn(2) by auto
    then show ?thesis using False b chk unfolding unf turn(1)
      by (auto simp: option.map_comp comp_def)
  qed
qed simp

lemma find_cb:
  assumes "lp_wf n (enc_all xs)" "\<forall>x \<in> set xs. elem_ok x" "i < length xs" "I u"
    and "p = Some (lp_off (take i (enc_all xs))) \<or> p = None \<and> i = 0"
  shows "\<exists>u'. I u' \<and> lpFindCbInternal (lp_image n (enc_all xs) sl) p u cmp skip =
      Some (u', map_option (\<lambda>j. lp_off (take (i + j) (enc_all xs))) (find_idx skip P 0 (drop i xs)))"
proof -
  have split: "enc_all xs = enc_all (take i xs) @ enc_all (drop i xs)"
    by (metis append_take_drop_id map_append)
  have start: "(case p of None \<Rightarrow> lpFirst (lp_image n (enc_all xs) sl) | Some p \<Rightarrow> Some (Some p))
      = Some (Some (lp_off (enc_all (take i xs))))"
    using assms(3,5) lpFirst_image [OF assms(1), of sl] by (auto simp: lp_ptr_def take_map)
  have ok: "\<forall>x \<in> set (drop i xs). elem_ok x" using assms(2) by (meson in_set_dropD)
  have "take (i + j) (enc_all xs) = enc_all (take i xs) @ take j (enc_all (drop i xs))" for j
    by (simp add: take_add take_map drop_map)
  then show ?thesis
    using find_loop [of n "enc_all (take i xs)" "drop i xs" u skip sl 0 123456789] assms ok
    by (simp add: lpFindCbInternal_def lpBytes_def lpGetTotalBytes_image start split [symmetric])
qed

end

text \<open>\<^verbatim>\<open>lpFindCmp\<close> meets the contract: it recognises the elements shown to clients as \<open>s\<close>.\<close>

lemma dec_int_iff: "- (2 ^ 63) \<le> v \<Longrightarrow> v < 2 ^ 63 \<Longrightarrow> dec_int v = s \<longleftrightarrow> lpStringToInt64 s = Some v"
  using string2ll_dec_int [of v] string2ll_sound [of s v] unfolding lpStringToInt64_eq by auto

lemma lpStringToInt64_length: "lpStringToInt64 s = Some v \<Longrightarrow> 0 < length s \<and> length s < 21"
  by (auto simp: lpStringToInt64_eq string2ll_def LONG_STR_SIZE_def split: if_splits)

definition find_inv :: "bytes \<Rightarrow> lpFindArg \<Rightarrow> bool" where
  "find_inv s arg \<longleftrightarrow> fa_s arg = s \<and>
     (vencoding arg = 0 \<or> vencoding arg = UCHAR_MAX \<and> lpStringToInt64 s = None \<or>
      vencoding arg = 1 \<and> lpStringToInt64 s = Some (vll arg))"

interpretation lp_find_cmp: lp_comparator lpFindCmp "find_inv s" "\<lambda>x. elem_str x = s" for s
proof
  fix x u m p
  assume ok: "elem_ok x" and inv: "find_inv s u" and str: "holds_str m p x"
  show "\<exists>u' c. lpFindCmp m p u (lp_shift p (elem_get x)) = Some (u', c) \<and> find_inv s u' \<and>
      (c = 0 \<longleftrightarrow> elem_str x = s)"
  proof (cases x)
    case (EStr t)
    then show ?thesis using inv str by (auto simp: lpFindCmp_def find_inv_def holds_str_def)
  next
    case (EInt v)
    have "lpStringToInt64 s = None" if "32 \<le> length s \<or> s = []"
      using that lpStringToInt64_length [of s] by (cases "lpStringToInt64 s") auto
    moreover have "elem_str x = s \<longleftrightarrow> lpStringToInt64 s = Some v"
      using EInt ok dec_int_iff [of v s] by simp
    ultimately show ?thesis using inv EInt
      by (cases "lpStringToInt64 s")
         (auto simp: lpFindCmp_def find_inv_def UCHAR_MAX_def Let_def)
  qed
qed

text \<open>The positions at which the search compares, and what \<open>find_idx\<close> returns.\<close>

definition visited :: "nat \<Rightarrow> nat \<Rightarrow> nat \<Rightarrow> bool" where
  "visited skip c j \<longleftrightarrow> c \<le> j \<and> (j - c) mod (skip + 1) = 0"

lemma visited_0 [simp]: "visited skip c 0 \<longleftrightarrow> c = 0"
  by (auto simp: visited_def)

lemma visited_Suc: "visited skip c (Suc j) \<longleftrightarrow> visited skip (if c = 0 then skip else c - 1) j"
proof (cases "c = 0")
  case True
  show ?thesis
  proof (cases "skip \<le> j")
    case le: True
    then have "(Suc j - 0) mod (skip + 1) = (j - skip) mod (skip + 1)"
      by (metis Suc_eq_plus1 diff_Suc_Suc diff_zero le_mod_geq Suc_le_mono)
    then show ?thesis using True le by (simp add: visited_def)
  qed (use True in \<open>simp add: visited_def\<close>)
qed (cases c; simp add: visited_def)

lemma find_idx_Some:
  "find_idx skip P c xs = Some j \<Longrightarrow> j < length xs \<and> P (xs ! j) \<and> visited skip c j \<and>
     (\<forall>i<j. visited skip c i \<longrightarrow> \<not> P (xs ! i))"
proof (induction xs arbitrary: c j)
  case (Cons x xs)
  show ?case
  proof (cases "c = 0 \<and> P x")
    case False
    let ?c = "if c = 0 then skip else c - 1"
    have "map_option Suc (find_idx skip P ?c xs) = Some j" using Cons.prems False by (auto split: if_splits)
    then obtain k where k: "j = Suc k" "find_idx skip P ?c xs = Some k" by auto
    note IH = Cons.IH [OF k(2)]
    have "\<not> P ((x # xs) ! i)" if "i < j" "visited skip c i" for i
      using that IH k(1) False by (cases i) (simp_all add: visited_Suc)
    then show ?thesis using IH k(1) by (simp add: visited_Suc)
  qed (use Cons.prems in auto)
qed simp

lemma find_idx_None:
  "find_idx skip P c xs = None \<Longrightarrow> j < length xs \<Longrightarrow> visited skip c j \<Longrightarrow> \<not> P (xs ! j)"
proof (induction xs arbitrary: c j)
  case (Cons x xs)
  have "find_idx skip P (if c = 0 then skip else c - 1) xs = None" "c = 0 \<longrightarrow> \<not> P x"
    using Cons.prems(1) by (auto split: if_splits)
  then show ?case using Cons.prems(2,3) Cons.IH by (cases j) (auto simp: visited_Suc)
qed simp

lemma lpCompare_image:
  assumes "elem_ok x"
    and "\<forall>l valid. cached = Some (l, valid) \<longrightarrow>
      valid = 0 \<or> valid = 1 \<and> lpStringToInt64 s = Some l \<or> valid = - 1 \<and> lpStringToInt64 s = None"
  shows "\<exists>c. lpCompare (lp_image n (us @ enc_elem x # vs) sl) (lp_off us) s cached = Some (elem_str x = s, c)"
proof -
  have e: "lp_entry (enc_elem x)" using assms(1) by (rule lp_entry_enc_elem)
  let ?m = "lp_image n (us @ enc_elem x # vs) sl" and ?p = "lp_off us"
  have ne: "hd (enc_elem x) \<noteq> LP_EOF" using e by (simp add: lp_entry_def)
  have g: "lpGet ?m ?p None = Some (lp_shift ?p (elem_get x))"
    using lp_get_image(1) [OF assms(1)] by (simp add: lpGet_def)
  note unf = lpCompare_def g image_entry(1) [OF e, of n us vs sl] bind.bind_lunit if_not_P [OF ne]
  show ?thesis
  proof (cases x)
    case (EStr t)
    have "rdn ?m (?p + str_hdr t) (length t) = Some t"
      using holds_str_image [OF assms(1), of n us vs sl] EStr by (simp add: holds_str_def)
    then show ?thesis unfolding unf using EStr by auto
  next
    case (EInt v)
    have iff: "dec_int v = s \<longleftrightarrow> lpStringToInt64 s = Some v"
      using assms(1) EInt by (intro dec_int_iff) auto
    show ?thesis
    proof (cases cached)
      case None
      then show ?thesis unfolding unf using EInt iff by (cases "lpStringToInt64 s") auto
    next
      case (Some a)
      obtain l valid where "a = (l, valid)" by (cases a)
      then show ?thesis unfolding unf using EInt iff assms(2) Some
        by (cases "lpStringToInt64 s") auto
    qed
  qed
qed

subsection \<open>Validation of arbitrary bytes\<close>

lemma lpDecodeBacklen_less: "lpDecodeBacklen m p = Some l \<Longrightarrow> l < 2 ^ 64"
proof -
  assume a: "lpDecodeBacklen m p = Some l"
  have b: "x mod 128 < 128" "x mod 128 + (y mod 128) * 128 < 16384"
    "x mod 128 + (y mod 128) * 128 + (z mod 128) * 16384 < 2097152"
    "x mod 128 + (y mod 128) * 128 + (z mod 128) * 16384 + (w mod 128) * 2097152 < 268435456"
    "x mod 128 + (y mod 128) * 128 + (z mod 128) * 16384 + (w mod 128) * 2097152
      + (v mod 128) * 268435456 < 2 ^ 64" for x y z w v :: nat
  proof -
    have "x mod 128 \<le> 127" "y mod 128 \<le> 127" "z mod 128 \<le> 127" "w mod 128 \<le> 127" "v mod 128 \<le> 127"
      by (simp_all add: less_Suc_eq_le [symmetric])
    then show "x mod 128 < 128" "x mod 128 + (y mod 128) * 128 < 16384"
      "x mod 128 + (y mod 128) * 128 + (z mod 128) * 16384 < 2097152"
      "x mod 128 + (y mod 128) * 128 + (z mod 128) * 16384 + (w mod 128) * 2097152 < 268435456"
      "x mod 128 + (y mod 128) * 128 + (z mod 128) * 16384 + (w mod 128) * 2097152
      + (v mod 128) * 268435456 < 2 ^ 64" by simp_all
  qed
  have c: "x mod 128 < k" "x mod 128 + (y mod 128) * 128 < k"
    "x mod 128 + (y mod 128) * 128 + (z mod 128) * 16384 < k"
    "x mod 128 + (y mod 128) * 128 + (z mod 128) * 16384 + (w mod 128) * 2097152 < k"
    if "268435456 \<le> k" for x y z w k :: nat
    using b(1) [of x] b(2) [of x y] b(3) [of x y z] b(4) [of x y z w] that by linarith+
  show ?thesis using a
    by (auto simp: lpDecodeBacklen_def low_mask backlen_or b c Let_def UINT64_MAX_def
        split: bind_splits if_splits)
qed

lemma lpValidateNextE:
  assumes "lpValidateNext m (Some p) n = Some (Valid (Some q))"
  obtains b k where "LP_HDR_SIZE \<le> p" "rd m p = Some b" "b \<noteq> LP_EOF"
    "lpCurrentEncodedSizeUnsafe m p = Some k" "q = p + (k + lpEncodeBacklenBytes k)" "q < n"
    "lpDecodeBacklen m (q - 1) = Some k" "0 < lpCurrentEncodedSizeBytes b"
    "p + lpCurrentEncodedSizeBytes b < n"
proof -
  obtain b k l where f: "LP_HDR_SIZE \<le> p" "rd m p = Some b" "b \<noteq> LP_EOF"
    "lpCurrentEncodedSizeUnsafe m p = Some k" "q = p + (k + lpEncodeBacklenBytes k)"
    "\<not> lp_out_of_range n q" "\<not> lp_out_of_range n (p + lpCurrentEncodedSizeBytes b)"
    "lpDecodeBacklen m (q - 1) = Some l" "0 < lpCurrentEncodedSizeBytes b"
    "(l + lpEncodeBacklenBytes k) mod 2 ^ 64 = k + lpEncodeBacklenBytes k"
    using assms
    by (auto simp: lpValidateNext_def Let_def lp_out_of_range_def split: bind_splits if_splits)
  have "l = k"
  proof (cases "l + lpEncodeBacklenBytes k < 2 ^ 64")
    case False
    then have "(l + lpEncodeBacklenBytes k) mod 2 ^ 64 = l + lpEncodeBacklenBytes k - 2 ^ 64"
      using lpDecodeBacklen_less [OF f(8)] lpEncodeBacklenBytes_bounds(2) [of k]
      by (simp add: le_mod_geq)
    then show ?thesis using f(10) False lpDecodeBacklen_less [OF f(8)] by simp
  qed (use f(10) in simp)
  then show thesis using f that by (auto simp: lp_out_of_range_def LP_HDR_SIZE_def)
qed

lemma rd_Some: "i < length m \<Longrightarrow> rd m i = Some (m ! i)"
  by (simp add: rd_def)

lemma cur_size_total:
  assumes "rd m p = Some b" "p + lpCurrentEncodedSizeBytes b < length m"
  shows "\<exists>k. lpCurrentEncodedSizeUnsafe m p = Some k"
proof -
  have p: "p < length m" using assms by (auto simp: rd_def split: if_splits)
  then show ?thesis using assms
    by (auto simp: lpCurrentEncodedSizeUnsafe_def lpCurrentEncodedSizeBytes_def lp_class rdn_def
        LP_ENCODING_6BIT_STR_LEN_def LP_ENCODING_12BIT_STR_LEN_def LP_ENCODING_32BIT_STR_LEN_def rd_Some)
qed

lemma decode_total: "4 \<le> p \<Longrightarrow> p < length m \<Longrightarrow> \<exists>k. lpDecodeBacklen m p = Some k"
  by (simp add: lpDecodeBacklen_def rd_back_def rd_Some Let_def)

lemma lpValidateNext_total:
  assumes "n \<le> length m"
  shows "\<exists>r. lpValidateNext m pp n = Some r"
proof (cases "\<exists>p. pp = Some p \<and> \<not> lp_out_of_range n p")
  case True
  then obtain p where p: "pp = Some p" "LP_HDR_SIZE \<le> p" "p < n"
    by (auto simp: lp_out_of_range_def LP_HDR_SIZE_def)
  let ?b = "m ! p"
  have rd: "rd m p = Some ?b" using p assms by (simp add: rd_Some)
  show ?thesis
  proof (cases "?b = LP_EOF \<or> lpCurrentEncodedSizeBytes ?b = 0 \<or> lp_out_of_range n (p + lpCurrentEncodedSizeBytes ?b)")
    case False
    then have "p + lpCurrentEncodedSizeBytes ?b < n" using p by (auto simp: lp_out_of_range_def)
    then obtain k where k: "lpCurrentEncodedSizeUnsafe m p = Some k"
      using cur_size_total [OF rd] assms by auto
    let ?q = "p + (k + lpEncodeBacklenBytes k)"
    have dec: "\<exists>l. lpDecodeBacklen m (?q - 1) = Some l" if "\<not> lp_out_of_range n ?q"
      using that assms p lpEncodeBacklenBytes_bounds(1) [of k]
      by (intro decode_total) (auto simp: lp_out_of_range_def LP_HDR_SIZE_def)
    show ?thesis
    proof (cases "lp_out_of_range n ?q")
      case False
      then obtain l where "lpDecodeBacklen m (?q - 1) = Some l" using dec by auto
      then show ?thesis using p rd k by (simp add: lpValidateNext_def Let_def)
    qed (use p rd k in \<open>simp add: lpValidateNext_def Let_def\<close>)
  qed (use p rd in \<open>auto simp: lpValidateNext_def Let_def\<close>)
qed (auto simp: lpValidateNext_def split: option.split)

lemma lp_validate_loop_total:
  assumes "n \<le> length m" "p < n"
    and "\<forall>f m p numele ud. cb = Some f \<longrightarrow> (\<exists>r. f m p numele ud = Some r)"
  shows "\<exists>r. lp_validate_loop cb m n numele p ud count = Some r"
  using assms(2)
proof (induction "n - p" arbitrary: p ud count rule: less_induct)
  case less
  obtain b where b: "rd m p = Some b" using assms(1) less.prems by (simp add: rd_Some)
  obtain r where r: "lpValidateNext m (Some p) n = Some r" using lpValidateNext_total [OF assms(1)] by blast
  show ?case
  proof (cases "b = LP_EOF \<or> (\<forall>q. r \<noteq> Valid (Some q))")
    case True
    then show ?thesis using b r
      by (subst lp_validate_loop.simps) (auto split: lp_check.splits option.splits)
  next
    case False
    then obtain q where q: "r = Valid (Some q)" "b \<noteq> LP_EOF" by auto
    obtain ud' ok where cb: "(case cb of None \<Rightarrow> Some (ud, True) | Some f \<Rightarrow> f m p numele ud) = Some (ud', ok)"
      using assms(3) by (cases cb) (auto, metis surj_pair)
    have "\<exists>r. lp_validate_loop cb m n numele q ud' ((count + 1) mod 2 ^ 32) = Some r"
      using r q(1) lpValidateNext_advances [of m p n q] by (intro less.hyps) auto
    then show ?thesis using b r q cb by (subst lp_validate_loop.simps) auto
  qed
qed

text \<open>The entries a successful scan went through, from \<open>p\<close> to the end marker at \<open>e\<close>.\<close>

fun lp_chain :: "bytes \<Rightarrow> nat \<Rightarrow> nat \<Rightarrow> nat list \<Rightarrow> nat \<Rightarrow> bool" where
  "lp_chain m n p [] e \<longleftrightarrow> p = e \<and> rd m p = Some LP_EOF"
| "lp_chain m n p (q # qs) e \<longleftrightarrow>
     q = p \<and> (\<exists>r. lpValidateNext m (Some p) n = Some (Valid (Some r)) \<and> lp_chain m n r qs e)"

lemma lp_chain_length: "lp_chain m n p ps e \<Longrightarrow> p + length ps \<le> e"
proof (induction ps arbitrary: p)
  case (Cons q qs)
  then obtain r where "lpValidateNext m (Some p) n = Some (Valid (Some r))" "r + length qs \<le> e" by auto
  then show ?case using lpValidateNext_advances [of m p n r] by simp
qed simp

lemma lp_validate_loop_chain:
  "lp_validate_loop cb m n numele p ud count = Some (Some (e, c)) \<Longrightarrow> count < 2 ^ 32 \<Longrightarrow>
   \<exists>ps. lp_chain m n p ps e \<and> c = (count + length ps) mod 2 ^ 32"
proof (induction "n - p" arbitrary: p ud count rule: less_induct)
  case less
  obtain b where b: "rd m p = Some b"
    using less.prems(1) by (subst (asm) lp_validate_loop.simps) (auto split: bind_splits)
  show ?case
  proof (cases "b = LP_EOF")
    case True
    then show ?thesis using less.prems b
      by (subst (asm) lp_validate_loop.simps) (auto intro: exI [of _ "[]"])
  next
    case False
    then obtain q ud' where q: "lpValidateNext m (Some p) n = Some (Valid (Some q))"
      and step: "lp_validate_loop cb m n numele q ud' ((count + 1) mod 2 ^ 32) = Some (Some (e, c))"
      using less.prems(1) b
      by (subst (asm) lp_validate_loop.simps) (auto split: bind_splits lp_check.splits option.splits if_splits)
    obtain ps where ps: "lp_chain m n q ps e" "c = ((count + 1) mod 2 ^ 32 + length ps) mod 2 ^ 32"
      using less.hyps [OF lpValidateNext_measure [OF q] step] by auto
    then show ?thesis using q by (intro exI [of _ "p # ps"]) (auto simp: mod_simps)
  qed
qed

text \<open>A client's forward walk.\<close>

fun lp_walk :: "bytes \<Rightarrow> nat option \<Rightarrow> nat list \<Rightarrow> bool" where
  "lp_walk m None ps \<longleftrightarrow> ps = []"
| "lp_walk m (Some p) [] \<longleftrightarrow> False"
| "lp_walk m (Some p) (q # ps) \<longleftrightarrow> q = p \<and> (case lpNext m p of Some r \<Rightarrow> lp_walk m r ps | None \<Rightarrow> False)"

lemma lp_chain_first:
  assumes "lp_chain m n p ps e" "e < n" "LP_HDR_SIZE \<le> p"
  shows "\<exists>b. rd m p = Some b \<and> (b = LP_EOF \<longleftrightarrow> ps = []) \<and> (b \<noteq> LP_EOF \<longrightarrow> lpAssertValidEntry m n p = Some ())"
proof (cases ps)
  case (Cons q qs)
  then obtain r where "lpValidateNext m (Some p) n = Some (Valid (Some r))" using assms(1) by auto
  then show ?thesis using Cons
    by (auto elim!: lpValidateNextE simp: lpAssertValidEntry_def)
qed (use assms in auto)

lemma lp_chain_walk:
  assumes "lpGetTotalBytes m = Some n"
  shows "lp_chain m n p ps e \<Longrightarrow> e < n \<Longrightarrow> LP_HDR_SIZE \<le> p \<Longrightarrow>
    lp_walk m (if ps = [] then None else Some p) ps"
proof (induction ps arbitrary: p)
  case (Cons q qs)
  then obtain r where r: "lpValidateNext m (Some p) n = Some (Valid (Some r))" "lp_chain m n r qs e" by auto
  have skip: "lpSkip m p = Some r" using r(1) by (auto elim!: lpValidateNextE simp: lpSkip_def)
  have hdr: "LP_HDR_SIZE \<le> r" using lpValidateNext_advances [OF r(1)] Cons.prems(3) by simp
  obtain b where b: "rd m r = Some b" "b = LP_EOF \<longleftrightarrow> qs = []" "b \<noteq> LP_EOF \<longrightarrow> lpAssertValidEntry m n r = Some ()"
    using lp_chain_first [OF r(2) Cons.prems(2) hdr] by auto
  have "lpNext m p = Some (if qs = [] then None else Some r)"
    using skip b assms by (auto simp: lpNext_def lpBytes_def)
  then show ?case using Cons.IH [OF r(2) Cons.prems(2) hdr] Cons.prems(1) by simp
qed simp

lemma lpDecodeBacklen_low:
  assumes "lpDecodeBacklen m p = Some l" "l < 2 ^ 35" "rd m p = Some b"
  shows "l mod 128 = unat b mod 128"
proof -
  have "(a OR push_bit k x) mod 128 = a mod 128" if "7 \<le> k" for a k x :: nat
  proof -
    have "2 ^ 7 dvd push_bit k x" using le_imp_power_dvd [OF that, of "2 :: nat"]
      by (simp only: push_bit_nat_def dvd_mult)
    then have "push_bit k x mod 128 = 0" by simp
    then show ?thesis using take_bit_or [of 7 a "push_bit k x"] by (simp add: take_bit_nat_def)
  qed
  then have or: "(a OR push_bit 7 x) mod 128 = a mod 128" "(a OR push_bit 14 x) mod 128 = a mod 128"
    "(a OR push_bit 21 x) mod 128 = a mod 128" "(a OR push_bit 28 x) mod 128 = a mod 128" for a x :: nat
    by simp_all
  show ?thesis using assms
    by (auto simp: lpDecodeBacklen_def low_mask or Let_def UINT64_MAX_def split: bind_splits if_splits)
qed

text \<open>
  The size of a 32-bit string is computed modulo 2 to the 32; the lengths that wrap never pass the
  check of the backlen, because the bytes of such a length end in large 7-bit groups.
\<close>

lemma str32_no_wrap:
  assumes v: "lpValidateNext m (Some p) n = Some (Valid (Some q))" and b: "rd m p = Some b" "unat b = 240"
    and len: "LP_ENCODING_32BIT_STR_LEN m p = Some l"
  shows "l + 5 < 2 ^ 32"
proof (rule ccontr)
  assume "\<not> l + 5 < 2 ^ 32"
  obtain bs where bs: "rdn m (p + 1) 4 = Some bs" "l = nat (le_uint bs)"
    using len by (auto simp: LP_ENCODING_32BIT_STR_LEN_def)
  then have len4: "length bs = 4" and inside: "p + 5 \<le> length m" and sl: "bs = slice m (p + 1) 4"
    by (auto simp: rdn_def split: if_splits)
  have l: "2 ^ 32 - 5 \<le> l" "l < 2 ^ 32"
    using \<open>\<not> l + 5 < 2 ^ 32\<close> le_uint_less [of bs] len4 bs(2) by auto
  obtain k where k: "lpCurrentEncodedSizeUnsafe m p = Some k" "lpDecodeBacklen m (q - 1) = Some k"
    "q = p + (k + lpEncodeBacklenBytes k)"
    using v by (rule lpValidateNextE)
  have kl: "k = l + 5 - 2 ^ 32" "k \<le> 4"
  proof -
    have "k = (5 + l) mod 2 ^ 32" using k(1) b len by (simp add: lpCurrentEncodedSizeUnsafe_def lp_class)
    also have "\<dots> = 5 + l - 2 ^ 32" using l by (simp add: le_mod_geq)
    finally show "k = l + 5 - 2 ^ 32" by simp
    then show "k \<le> 4" using l by simp
  qed
  then have q: "q - 1 = p + k" using k(3) by (simp add: lpEncodeBacklenBytes_def)
  have "bs = le_bytes 4 (int l)" using le_bytes_le_uint [of bs] len4 bs(2) le_uint_nonneg [of bs] by simp
  moreover have "bs ! i = m ! (p + 1 + i)" if "i < 4" for i
    using that sl inside by (simp only: slice_def nth_take) simp
  ultimately have bytes: "m ! (p + 1 + i) = le_bytes 4 (int l) ! i" if "i < 4" for i
    using that by metis
  have lk: "int l = int k + 4294967291" using kl(1) l by simp
  have "112 \<le> unat (m ! (p + k)) mod 128"
  proof (cases "k = 0")
    case True
    have "m ! p = b" using b(1) by (auto simp: rd_def split: if_splits)
    then show ?thesis using True b(2) by simp
  next
    case False
    then have byte: "m ! (p + k) = le_bytes 4 (int k + 4294967291) ! (k - 1)"
      using bytes [of "k - 1"] kl(2) lk by simp
    from False consider "k = 1" | "k = 2" | "k = 3" | "k = 4" using kl(2) by linarith
    then show ?thesis unfolding byte by cases (simp_all add: le_bytes_numeral)
  qed
  moreover have "rd m (p + k) = Some (m ! (p + k))" using inside kl(2) by (simp add: rd_Some)
  ultimately show False using lpDecodeBacklen_low [OF k(2), of "m ! (p + k)"] q kl(2) by simp
qed

lemma lpGet_inside:
  assumes v: "lpValidateNext m (Some p) n = Some (Valid (Some q))" and "n \<le> length m"
  shows "\<exists>r. lpGet m p None = Some r \<and> (\<forall>s l. r = LpStr s l \<longrightarrow> s + l < n)"
proof -
  obtain b k where k: "rd m p = Some b" "b \<noteq> LP_EOF" "lpCurrentEncodedSizeUnsafe m p = Some k"
    "q = p + (k + lpEncodeBacklenBytes k)" "q < n" "0 < lpCurrentEncodedSizeBytes b"
    using v by (rule lpValidateNextE)
  have in_k: "p + k < n" using k(4,5) by simp
  have rd1: "\<exists>c. rd m (p + 1) = Some c" if "2 \<le> k" using that in_k assms(2) by (simp add: rd_Some)
  have uval: "\<exists>u. lp_uval m p j = Some u" if "j < k" for j
    using that in_k assms(2) by (simp add: lp_uval_def rdn_def)
  note wrap = str32_no_wrap [OF v k(1)]
  show ?thesis
  proof (cases "unat b = 240")
    case True
    then obtain l where l: "LP_ENCODING_32BIT_STR_LEN m p = Some l" "k = (5 + l) mod 2 ^ 32"
      using k(1,3) by (auto simp: lpCurrentEncodedSizeUnsafe_def lp_class)
    then have "k = 5 + l" using wrap [OF True l(1)] by (simp add: add.commute)
    then show ?thesis using True l k(1) in_k by (simp add: lpGet_def lpGetWithBuf_def lp_class)
  next
    case False
    then show ?thesis using k rd1 uval [of 2] uval [of 3] uval [of 4] uval [of 8] in_k
      by (auto simp: lpGet_def lpGetWithBuf_def lp_class lpCurrentEncodedSizeUnsafe_def
          lpCurrentEncodedSizeBytes_def lp_get_int_def Let_def split: if_splits)
  qed
qed

lemma lp_chain_get:
  "lp_chain m n p ps e \<Longrightarrow> n \<le> length m \<Longrightarrow> r \<in> set ps \<Longrightarrow>
   \<exists>v. lpGet m r None = Some v \<and> (\<forall>s l. v = LpStr s l \<longrightarrow> s + l < n)"
  by (induction ps arbitrary: p) (auto dest: lpGet_inside)

lemma lpValidateIntegrity_sound:
  assumes "lpValidateIntegrity m (length m) True cb ud = Some True"
  shows "\<exists>ps f numele. lpFirst m = Some f \<and> lp_walk m f ps \<and>
    (\<forall>p \<in> set ps. \<exists>v. lpGet m p None = Some v \<and> (\<forall>s l. v = LpStr s l \<longrightarrow> s + l < length m)) \<and>
    lpGetNumElements m = Some numele \<and> (numele = LP_HDR_NUMELE_UNKNOWN \<or> numele = length ps)"
proof -
  obtain numele c where f: "LP_HDR_SIZE + 1 \<le> length m" "lpGetTotalBytes m = Some (length m)"
    "lpGetNumElements m = Some numele"
    "lp_validate_loop cb m (length m) numele LP_HDR_SIZE ud 0 = Some (Some (length m - 1, c))"
    "numele = LP_HDR_NUMELE_UNKNOWN \<or> numele = c"
    using assms by (auto simp: lpValidateIntegrity_def split: if_splits bind_splits option.splits)
  obtain ps where ps: "lp_chain m (length m) LP_HDR_SIZE ps (length m - 1)" "c = length ps mod 2 ^ 32"
    using lp_validate_loop_chain [OF f(4)] by auto
  have "length m < 2 ^ 32"
    using f(2) le_uint_less [of "slice m 0 4"]
    by (auto simp: lpGetTotalBytes_def rdn_def length_slice split: if_splits)
  then have c: "c = length ps" using ps lp_chain_length [OF ps(1)] by simp
  have lt: "length m - 1 < length m" using f(1) by simp
  obtain b where "rd m LP_HDR_SIZE = Some b" "b = LP_EOF \<longleftrightarrow> ps = []"
    "b \<noteq> LP_EOF \<longrightarrow> lpAssertValidEntry m (length m) LP_HDR_SIZE = Some ()"
    using lp_chain_first [OF ps(1) lt order_refl] by auto
  then have "lpFirst m = Some (if ps = [] then None else Some LP_HDR_SIZE)"
    using f(2) by (auto simp: lpFirst_def lpBytes_def)
  moreover have "lp_walk m (if ps = [] then None else Some LP_HDR_SIZE) ps"
    using lp_chain_walk [OF f(2) ps(1) lt order_refl] .
  ultimately show ?thesis using lp_chain_get [OF ps(1) order_refl] f(3,5) c by blast
qed

lemma lp_validate_loop_image:
  "lp_wf n (xs @ ys) \<Longrightarrow> c + length ys < 2 ^ 32 \<Longrightarrow>
   lp_validate_loop None (lp_image n (xs @ ys) sl) (lp_size (xs @ ys)) k (lp_off xs) ud c =
     Some (Some (lp_off (xs @ ys), c + length ys))"
proof (induction ys arbitrary: xs c)
  case Nil
  then show ?case using rd_eof [of n xs sl] by (subst lp_validate_loop.simps) simp
next
  case (Cons e ys)
  have e: "lp_entry e" using Cons.prems(1) by (simp add: lp_wf_def)
  then have "hd e \<noteq> LP_EOF" by (simp add: lp_entry_def)
  moreover have "lp_validate_loop None (lp_image n ((xs @ [e]) @ ys) sl) (lp_size ((xs @ [e]) @ ys)) k
      (lp_off (xs @ [e])) ud (c + 1) = Some (Some (lp_off ((xs @ [e]) @ ys), c + 1 + length ys))"
    using Cons.prems by (intro Cons.IH) auto
  ultimately show ?case
    using Cons.prems image_entry(1) [OF e, of n xs ys sl] lpValidateNext_image [OF Cons.prems(1), of sl]
    by (subst lp_validate_loop.simps) simp
qed

lemma lpValidateIntegrity_image:
  assumes "lp_wf n es"
  shows "lpValidateIntegrity (lp_image n es sl) (lp_size es) True None ud = Some True"
proof -
  have "lp_validate_loop None (lp_image n es sl) (lp_size es) n LP_HDR_SIZE ud 0 =
      Some (Some (lp_off es, length es))"
    using lp_validate_loop_image [of n "[]" es 0 sl n ud] assms lp_wf_length [OF assms] by simp
  then show ?thesis using assms rd_eof [of n es sl]
    by (auto simp: lpValidateIntegrity_def lpGetTotalBytes_image lpGetNumElements_image lp_size_off
        lp_wf_def lp_off_def)
qed

subsection \<open>Listpacks of elements\<close>

text \<open>\<open>lp_rep m xs\<close>: the allocation \<open>m\<close> holds a well-formed listpack with the elements \<open>xs\<close>.\<close>

definition lp_rep :: "bytes \<Rightarrow> lp_elem list \<Rightarrow> bool" where
  "lp_rep m xs \<longleftrightarrow> (\<exists>n sl. m = lp_image n (enc_all xs) sl \<and> lp_wf n (enc_all xs)) \<and> (\<forall>x \<in> set xs. elem_ok x)"

text \<open>The pointer to the element of index \<open>i\<close>.\<close>

definition lp_at :: "lp_elem list \<Rightarrow> nat \<Rightarrow> nat" where
  "lp_at xs i = lp_off (enc_all (take i xs))"

lemma lp_repE:
  assumes "lp_rep m xs"
  obtains n sl where "m = lp_image n (enc_all xs) sl" "lp_wf n (enc_all xs)" "\<forall>x \<in> set xs. elem_ok x"
  using assms by (auto simp: lp_rep_def)

lemma enc_all_focus:
  "i < length xs \<Longrightarrow> enc_all xs = enc_all (take i xs) @ enc_elem (xs ! i) # enc_all (drop (Suc i) xs)"
  by (metis id_take_nth_drop list.simps(9) map_append)

lemma enc_all_split: "enc_all (take i xs) @ enc_all (drop i xs) = enc_all xs"
  by (metis append_take_drop_id map_append)

text \<open>The string a caller reads through the result of \<^verbatim>\<open>lpGet\<close>.\<close>

fun lp_shown :: "bytes \<Rightarrow> lp_get \<Rightarrow> bytes option" where
  "lp_shown m (LpStr q n) = rdn m q n"
| "lp_shown m (LpInt v) = Some (dec_int v)"
| "lp_shown m (LpBuf b n) = rdn b 0 n"

lemma int_result_shown:
  assumes "- (2 ^ 63) \<le> v" "v < 2 ^ 63" "\<forall>b. buf = Some b \<longrightarrow> LP_INTBUF_SIZE \<le> length b"
  shows "\<exists>r. int_result buf v = Some r \<and> lp_shown m r = Some (dec_int v) \<and> (buf = None \<longrightarrow> r = LpInt v)"
proof (cases buf)
  case (Some b)
  have "length (dec_int v) < LP_INTBUF_SIZE"
    using length_dec_int_64 [OF assms(1,2)] by (simp add: LP_INTBUF_SIZE_def)
  then have "ll2string b 0 LP_INTBUF_SIZE v = Some (splice_at b 0 (dec_int v @ [0]), length (dec_int v))"
    using assms(3) Some by (intro ll2string_dec_int) auto
  then show ?thesis using Some \<open>length (dec_int v) < LP_INTBUF_SIZE\<close> assms(3)
    by (simp add: int_result_def rdn_def slice_def splice_at_def)
qed (simp add: int_result_def)

lemma lpGet_image:
  assumes "elem_ok x" "\<forall>b. buf = Some b \<longrightarrow> LP_INTBUF_SIZE \<le> length b"
    and m_def: "m = lp_image n (us @ enc_elem x # vs) sl"
  shows "\<exists>r. lpGet m (lp_off us) buf = Some r \<and> lp_shown m r = Some (elem_str x) \<and>
    (buf = None \<longrightarrow> r = lp_shift (lp_off us) (elem_get x))"
proof -
  obtain A B where f: "m = A @ raw (enc_elem x) @ B" "length A = lp_off us"
    unfolding m_def by (rule lp_image_focus)
  have ext: "opt_sim (shifted (length A)) (lpGetWithBuf (enc_elem x) 0 buf) (lpGet m (lp_off us) buf)"
    using lpGetWithBuf_extend [of A "enc_elem x" 0 buf "lpEncodeBacklen (length (enc_elem x)) @ B"] f
    by (simp add: lpGet_def raw_def)
  show ?thesis
  proof (cases x)
    case (EStr s)
    then have "lpGet m (lp_off us) buf = Some (LpStr (lp_off us + str_hdr s) (length s))"
      using opt_simD [OF ext] assms(1) f(2) by (simp add: str_enc shifted_def)
    then show ?thesis using holds_str_image [OF assms(1), of n us vs sl] EStr
      by (simp add: holds_str_def m_def)
  next
    case (EInt v)
    then obtain r where r: "int_result buf v = Some r" "lp_shown m r = Some (dec_int v)" "buf = None \<longrightarrow> r = LpInt v"
      using int_result_shown [OF _ _ assms(2), of v m] assms(1) by auto
    moreover have "lp_shift k r = r" for k
      using r(1) by (auto simp: int_result_def split: option.splits)
    ultimately show ?thesis using opt_simD [OF ext, of r] EInt assms(1)
      by (auto simp: int_enc shifted_def)
  qed
qed

subsection \<open>Properties\<close>

text \<open>
  C15: navigation. From the pointer to an element \<^verbatim>\<open>lpNext\<close> and \<^verbatim>\<open>lpPrev\<close> give the pointers to its
  neighbours, or NULL at the ends; \<^verbatim>\<open>lpFirst\<close> and \<^verbatim>\<open>lpLast\<close> give the ends. No assertion fails and
  nothing outside the allocation is read.
\<close>

theorem lp_navigation:
  assumes "lp_rep m xs" and "i < length xs"
  shows "lpNext m (lp_at xs i) = Some (if i + 1 < length xs then Some (lp_at xs (i + 1)) else None) \<and>
    lpPrev m (lp_at xs i) = Some (if i = 0 then None else Some (lp_at xs (i - 1))) \<and>
    lpFirst m = Some (Some (lp_at xs 0)) \<and> lpLast m = Some (Some (lp_at xs (length xs - 1)))"
proof -
  obtain n sl where m: "m = lp_image n (enc_all xs) sl" and wf: "lp_wf n (enc_all xs)"
    using assms(1) by (rule lp_repE)
  note f = enc_all_focus [OF assms(2)]
  have "enc_all (take i xs) @ [enc_elem (xs ! i)] = enc_all (take (Suc i) xs)"
    using assms(2) by (simp add: take_Suc_conv_app_nth)
  then have "lpNext m (lp_at xs i) = Some (if i + 1 < length xs then Some (lp_at xs (i + 1)) else None)"
    using lpNext_image [OF wf [unfolded f], of sl] m f by (auto simp: lp_at_def lp_ptr_def)
  moreover have "lpPrev m (lp_at xs i) = Some (if i = 0 then None else Some (lp_at xs (i - 1)))"
    using lpPrev_take [OF wf, of i sl] assms(2) m by (simp add: lp_at_def take_map)
  moreover have "lpFirst m = Some (Some (lp_at xs 0))"
    using lpFirst_image [OF wf, of sl] assms(2) m by (auto simp: lp_at_def lp_ptr_def)
  moreover have "lpLast m = Some (Some (lp_at xs (length xs - 1)))"
    using lpLast_image [OF wf, of sl] assms(2) m by (auto simp: lp_at_def butlast_conv_take take_map)
  ultimately show ?thesis by blast
qed

definition lp_example :: "lp_elem list" where
  "lp_example = [EStr [104, 105], EInt 7, EInt (-300)]"

lemma lp_example_rep:
  "lp_rep (lp_image 3 (enc_all lp_example) []) lp_example" "length lp_example = 3"
proof -
  show "length lp_example = 3" by (simp add: lp_example_def)
  have "\<forall>x \<in> set lp_example. elem_ok x" by (simp add: lp_example_def)
  moreover from this have "lp_wf 3 (enc_all lp_example)"
    by (auto simp: lp_wf_def lp_entry_enc_elem LP_HDR_NUMELE_UNKNOWN_def)
       (simp_all add: lp_example_def lp_size_def length_raw lpEncodeString_def
          lpEncodeIntegerGetType_def lpEncodeBacklenBytes_def LP_HDR_SIZE_def)
  ultimately show "lp_rep (lp_image 3 (enc_all lp_example) []) lp_example"
    by (auto simp: lp_rep_def)
qed

theorem lp_navigation_witness:
  "lpNext (lp_image 3 (enc_all lp_example) []) (lp_at lp_example 1)
     = Some (if (1::nat) + 1 < length lp_example then Some (lp_at lp_example (1 + 1)) else None)"
  using lp_navigation [OF lp_example_rep(1), of 1] lp_example_rep(2) by simp

text \<open>
  C16: \<^verbatim>\<open>lpSeek\<close> gives the pointer to the element of the given index, counting from the tail when the
  index is negative, and NULL when it is out of range, whichever end it scans from and whether or
  not the header knows the number of elements.
\<close>

theorem lpSeek_correct:
  assumes "lp_rep m xs"
  shows "lpSeek m index =
    (let i = if index < 0 then int (length xs) + index else index
     in Some (if 0 \<le> i \<and> i < int (length xs) then Some (lp_at xs (nat i)) else None))"
proof -
  obtain n sl where m: "m = lp_image n (enc_all xs) sl" and wf: "lp_wf n (enc_all xs)"
    using assms by (rule lp_repE)
  show ?thesis using lpSeek_image [OF wf, of sl index] m by (simp add: lp_at_def take_map Let_def)
qed

theorem lpSeek_correct_witness:
  "lpSeek (lp_image 3 (enc_all lp_example) []) (-1) = Some (Some (lp_at lp_example 2))"
  using lpSeek_correct [OF lp_example_rep(1), of "-1"] lp_example_rep(2) by simp

text \<open>
  C17: reading. At the pointer to an element \<^verbatim>\<open>lpGet\<close> gives its value: with a buffer of at least
  \<^verbatim>\<open>LP_INTBUF_SIZE\<close> bytes always as a string, the one a client stored; without a buffer a pointer to
  the bytes of a string, or the integer.
\<close>

theorem lpGet_correct:
  assumes "lp_rep m xs" and "i < length xs" and "\<forall>b. buf = Some b \<longrightarrow> LP_INTBUF_SIZE \<le> length b"
  shows "\<exists>r. lpGet m (lp_at xs i) buf = Some r \<and> lp_shown m r = Some (elem_str (xs ! i)) \<and>
    (buf = None \<longrightarrow> (\<forall>v. r = LpInt v \<longleftrightarrow> xs ! i = EInt v))"
proof -
  obtain n sl where m: "m = lp_image n (enc_all xs) sl" and ok: "\<forall>x \<in> set xs. elem_ok x"
    using assms(1) by (rule lp_repE)
  have "elem_ok (xs ! i)" using ok assms(2) by simp
  moreover have "m = lp_image n (enc_all (take i xs) @ enc_elem (xs ! i) # enc_all (drop (Suc i) xs)) sl"
    using m enc_all_focus [OF assms(2)] by simp
  ultimately have "\<exists>r. lpGet m (lp_at xs i) buf = Some r \<and> lp_shown m r = Some (elem_str (xs ! i)) \<and>
    (buf = None \<longrightarrow> r = lp_shift (lp_at xs i) (elem_get (xs ! i)))"
    unfolding lp_at_def by (intro lpGet_image assms(3))
  then show ?thesis by (cases "xs ! i") auto
qed

theorem lpGet_correct_witness:
  "\<exists>r. lpGet (lp_image 3 (enc_all lp_example) []) (lp_at lp_example 2) (Some (replicate 21 0)) = Some r \<and>
    lp_shown (lp_image 3 (enc_all lp_example) []) r = Some (elem_str (lp_example ! 2))"
  using lpGet_correct [OF lp_example_rep(1), of 2 "Some (replicate 21 0)"] lp_example_rep(2)
  by (auto simp: LP_INTBUF_SIZE_def)

text \<open>
  C18: \<^verbatim>\<open>lpFind\<close>, started at an element (or at the head, with NULL), compares every \<open>skip + 1\<close>-th element
  and returns the pointer to the first one that a client would read as the string \<open>s\<close>, whether it is
  stored as a string or as an integer, and NULL when there is none. It always returns.
\<close>

theorem lpFind_correct:
  assumes "lp_rep m xs" and "i < length xs"
    and "p = Some (lp_at xs i) \<or> p = None \<and> i = 0" and "skip < 2 ^ 31"
  shows "\<exists>r. lpFind m p s skip = Some r \<and>
    (case r of
       None \<Rightarrow> \<forall>j. i \<le> j \<and> j < length xs \<and> (j - i) mod (skip + 1) = 0 \<longrightarrow> elem_str (xs ! j) \<noteq> s
     | Some q \<Rightarrow> \<exists>j. i \<le> j \<and> j < length xs \<and> (j - i) mod (skip + 1) = 0 \<and> q = lp_at xs j \<and>
         elem_str (xs ! j) = s \<and>
         (\<forall>k. i \<le> k \<and> k < j \<and> (k - i) mod (skip + 1) = 0 \<longrightarrow> elem_str (xs ! k) \<noteq> s))"
proof -
  obtain n sl where m: "m = lp_image n (enc_all xs) sl" and wf: "lp_wf n (enc_all xs)"
    and ok: "\<forall>x \<in> set xs. elem_ok x"
    using assms(1) by (rule lp_repE)
  have "\<exists>u'. lpFindCbInternal m p \<lparr>fa_s = s, vencoding = 0, vll = 0\<rparr> lpFindCmp skip =
      Some (u', map_option (\<lambda>j. lp_at xs (i + j)) (find_idx skip (\<lambda>x. elem_str x = s) 0 (drop i xs)))"
    using lp_find_cmp.find_cb [OF wf ok assms(2), of s "\<lparr>fa_s = s, vencoding = 0, vll = 0\<rparr>" p sl skip] assms(3) m
    by (auto simp: find_inv_def lp_at_def take_map)
  then have f: "lpFind m p s skip =
      Some (map_option (\<lambda>j. lp_at xs (i + j)) (find_idx skip (\<lambda>x. elem_str x = s) 0 (drop i xs)))"
    by (auto simp: lpFind_def)
  show ?thesis
  proof (cases "find_idx skip (\<lambda>x. elem_str x = s) 0 (drop i xs)")
    case None
    have "elem_str (xs ! j) \<noteq> s" if "i \<le> j" "j < length xs" "(j - i) mod (skip + 1) = 0" for j
      using find_idx_None [OF None, of "j - i"] that by (simp add: visited_def)
    then show ?thesis using f None by simp
  next
    case (Some d)
    note d = find_idx_Some [OF Some]
    then have least: "\<forall>j<d. visited skip 0 j \<longrightarrow> elem_str (drop i xs ! j) \<noteq> s" by blast
    have "elem_str (xs ! k) \<noteq> s" if "i \<le> k" "k < i + d" "(k - i) mod (skip + 1) = 0" for k
    proof -
      have "elem_str (drop i xs ! (k - i)) \<noteq> s"
        using least that by (simp add: visited_def less_diff_conv2)
      moreover have "drop i xs ! (k - i) = xs ! k" using that assms(2) by simp
      ultimately show ?thesis by simp
    qed
    then show ?thesis using f Some d
      by (auto simp: visited_def intro!: exI [of _ "i + d"])
  qed
qed

theorem lpFind_correct_witness:
  "\<exists>r. lpFind (lp_image 3 (enc_all lp_example) []) None [55] 0 = Some r"
  using lpFind_correct [OF lp_example_rep(1), of 0 None 0 "[55]"] lp_example_rep(2) by auto

text \<open>
  C14: the deep check \<^verbatim>\<open>lpValidateIntegrity\<close> is safe to run on any bytes: on a buffer with arbitrary
  contents it returns a verdict, without reading outside the buffer, for every callback that returns.
\<close>

theorem lpValidateIntegrity_total:
  assumes "\<forall>f m p numele ud. cb = Some f \<longrightarrow> (\<exists>r. f m p numele ud = Some r)"
  shows "\<exists>r. lpValidateIntegrity m (length m) deep cb ud = Some r"
proof (cases "length m < LP_HDR_SIZE + 1")
  case False
  obtain n k b where "lpGetTotalBytes m = Some n" and k: "lpGetNumElements m = Some k"
    and "rd m (length m - 1) = Some b"
    using False by (auto simp: lpGetTotalBytes_def lpGetNumElements_def rdn_def rd_Some LP_HDR_SIZE_def)
  moreover obtain r where "lp_validate_loop cb m (length m) k LP_HDR_SIZE ud 0 = Some r"
    using lp_validate_loop_total [of "length m" m LP_HDR_SIZE cb k ud 0] assms False by auto
  ultimately show ?thesis by (auto simp: lpValidateIntegrity_def)
qed (auto simp add: lpValidateIntegrity_def)

theorem lpValidateIntegrity_total_witness:
  "\<exists>r. lpValidateIntegrity [7, 0, 0, 0, 0, 0, 240, 255] (length [7, 0, 0, 0, 0, 0, 240, 255 :: byte]) True
      (None :: unit lpEntryCb option) () = Some r"
  by (rule lpValidateIntegrity_total) simp

text \<open>
  C13: what the deep check accepts is safe to use: in every buffer it accepts, a client's walk with
  \<^verbatim>\<open>lpFirst\<close> and \<^verbatim>\<open>lpNext\<close> ends without a failing assertion, \<^verbatim>\<open>lpGet\<close> at each entry reads inside the
  buffer and every string it returns lies inside the buffer (also for the 32-bit string lengths whose
  size computation wraps around), and the element count of the header, unless unknown, is the number
  of entries. Conversely it accepts every well-formed listpack.
\<close>

theorem lpValidateIntegrity_safe:
  "(lpValidateIntegrity m (length m) True cb ud = Some True \<longrightarrow>
     (\<exists>ps f numele. lpFirst m = Some f \<and> lp_walk m f ps \<and>
      (\<forall>p \<in> set ps. \<exists>v. lpGet m p None = Some v \<and> (\<forall>s l. v = LpStr s l \<longrightarrow> s + l < length m)) \<and>
      lpGetNumElements m = Some numele \<and> (numele = LP_HDR_NUMELE_UNKNOWN \<or> numele = length ps))) \<and>
   (lp_rep m xs \<longrightarrow> (\<exists>n. lpBytes m = Some n \<and> lpValidateIntegrity m n True None ud = Some True))"
proof -
  have "\<exists>n. lpBytes m = Some n \<and> lpValidateIntegrity m n True None ud = Some True" if rep: "lp_rep m xs"
  proof -
    obtain n sl where "m = lp_image n (enc_all xs) sl" "lp_wf n (enc_all xs)"
      using rep by (rule lp_repE)
    then show ?thesis by (simp add: lpBytes_def lpGetTotalBytes_image lpValidateIntegrity_image)
  qed
  then show ?thesis using lpValidateIntegrity_sound [of m cb ud] by (intro conjI impI)
qed

theorem lpValidateIntegrity_safe_witness:
  "lpValidateIntegrity [7, 0, 0, 0, 0, 0, 255] (length [7, 0, 0, 0, 0, 0, 255 :: byte]) True
      (None :: unit lpEntryCb option) () = Some True \<and>
   (\<exists>ps f. lpFirst [7, 0, 0, 0, 0, 0, 255] = Some f \<and> lp_walk [7, 0, 0, 0, 0, 0, 255] f ps)"
proof -
  have "lp_validate_loop None [7, 0, 0, 0, 0, 0, 255] 7 0 6 () 0 = Some (Some (6, 0))"
    by (subst lp_validate_loop.simps) (simp add: rd_def LP_EOF_def)
  then have acc: "lpValidateIntegrity [7, 0, 0, 0, 0, 0, 255] (length [7, 0, 0, 0, 0, 0, 255 :: byte]) True
      (None :: unit lpEntryCb option) () = Some True"
    by (simp add: lpValidateIntegrity_def lpGetTotalBytes_def lpGetNumElements_def rdn_def slice_def rd_def
        LP_HDR_SIZE_def LP_EOF_def LP_HDR_NUMELE_UNKNOWN_def)
  then show ?thesis
    using lpValidateIntegrity_safe [of "[7, 0, 0, 0, 0, 0, 255]" "None :: unit lpEntryCb option" "()" "[]"]
    by blast
qed

end
