(* ===== verification/Listpack_Ops.thy ===== *)
theory Listpack_Ops
  imports Listpack
begin

text \<open>
  The operations of \<^verbatim>\<open>src/redis-stable/src/listpack.c\<close> that change a listpack: insertion, replacement
  and deletion (\<^verbatim>\<open>lpInsert\<close> and its wrappers), the batch operations, the range deletions and
  \<^verbatim>\<open>lpMerge\<close>. The length of the buffer is \<^verbatim>\<open>lp_malloc_size\<close>. Returning NULL is the inner \<^term>\<open>None\<close>.
\<close>

datatype lp_where = LP_BEFORE | LP_AFTER | LP_REPLACE

text \<open>
  The middle part of \<^verbatim>\<open>lpInsert\<close>: grow the allocation if needed, move the tail, shrink it if the
  listpack got smaller. \<open>added\<close> is \<^verbatim>\<open>enclen + backlen_size\<close>.
\<close>

definition lp_make_room :: "bytes \<Rightarrow> lp_where \<Rightarrow> nat \<Rightarrow> nat \<Rightarrow> nat \<Rightarrow> nat \<Rightarrow> nat \<Rightarrow> bytes option" where
  "lp_make_room m wh poff added replaced_len old new =
     (if old < poff + replaced_len then None
      else do {
        let m = (if new > old \<and> new > length m then realloc m new else m);
        m \<leftarrow> (if wh = LP_BEFORE then memmove m (poff + added) poff (old - poff)
              else memmove m (poff + added) (poff + replaced_len) (old - poff - replaced_len));
        Some (if new < old then realloc m new else m)
      })"

text \<open>
  The second half of \<^verbatim>\<open>lpInsert\<close>, once the element is encoded: \<open>ele\<close> is what the code stores at
  \<^verbatim>\<open>dst\<close> (\<^verbatim>\<open>eleint\<close> or the encoded string), \<open>wh\<close> is \<^verbatim>\<open>LP_BEFORE\<close> or \<^verbatim>\<open>LP_REPLACE\<close>. The result is the
  listpack and the pointer stored in \<^verbatim>\<open>*newp\<close>.
\<close>

definition lp_insert_core ::
    "bytes \<Rightarrow> bool \<Rightarrow> bytes \<Rightarrow> nat \<Rightarrow> nat \<Rightarrow> lp_where \<Rightarrow> (bytes \<times> nat option) option option" where
  "lp_insert_core m delete ele enclen p wh =
     do {
       let poff = p;
       let backlen = (if delete then [] else lpEncodeBacklen enclen);
       old_listpack_bytes \<leftarrow> lpGetTotalBytes m;
       replaced_len \<leftarrow>
         (if wh = LP_REPLACE then do {
            r \<leftarrow> lpCurrentEncodedSizeUnsafe m p;
            let r = (r + lpEncodeBacklenBytes r) mod 2 ^ 32;
            ASSERT_INTEGRITY_LEN m p r;
            Some r
          }
          else Some 0);
       let new_listpack_bytes = old_listpack_bytes + enclen + length backlen - replaced_len;
       if new_listpack_bytes > UINT32_MAX then Some None
       else do {
         m \<leftarrow> lp_make_room m wh poff (enclen + length backlen) replaced_len
                old_listpack_bytes new_listpack_bytes;
         newp \<leftarrow> (if delete then do { b \<leftarrow> rd m poff; Some (if b = LP_EOF then None else Some poff) }
                  else Some (Some poff));
         m \<leftarrow> (if delete then Some m
               else do { m \<leftarrow> wrn m poff ele; wrn m (poff + enclen) backlen });
         m \<leftarrow> (if wh \<noteq> LP_REPLACE \<or> delete then do {
                 num_elements \<leftarrow> lpGetNumElements m;
                 if num_elements \<noteq> LP_HDR_NUMELE_UNKNOWN
                 then lpSetNumElements m (if delete then int num_elements - 1 else int num_elements + 1)
                 else Some m
               }
               else Some m);
         m \<leftarrow> lpSetTotalBytes m (int new_listpack_bytes);
         Some (Some (m, newp))
       }
     }"

text \<open>\<^verbatim>\<open>lpInsert\<close>: \<open>elestr\<close> and \<open>eleint\<close> are the two element arguments.\<close>

definition lpInsert ::
    "bytes \<Rightarrow> bytes option \<Rightarrow> bytes option \<Rightarrow> nat \<Rightarrow> lp_where \<Rightarrow> (bytes \<times> nat option) option option" where
  "lpInsert m elestr eleint p wh =
     do {
       let delete = (elestr = None \<and> eleint = None);
       let wh = (if delete then LP_REPLACE else wh);
       (p, wh) \<leftarrow>
         (if wh = LP_AFTER then do { p \<leftarrow> lpSkip m p; ASSERT_INTEGRITY m p; Some (p, LP_BEFORE) }
          else Some (p, wh));
       let (ele, enclen) =
         (case elestr of
            Some s \<Rightarrow>
              (case lpEncodeGetType s of
                 (Some intenc, enclen) \<Rightarrow> (intenc, enclen)
               | (None, enclen) \<Rightarrow> (lpEncodeString s, enclen))
          | None \<Rightarrow> (case eleint of Some e \<Rightarrow> (e, length e) | None \<Rightarrow> ([], 0)));
       lp_insert_core m delete ele enclen p wh
     }"

definition lpInsertString :: "bytes \<Rightarrow> bytes \<Rightarrow> nat \<Rightarrow> lp_where \<Rightarrow> (bytes \<times> nat option) option option" where
  "lpInsertString m s p wh = lpInsert m (Some s) None p wh"

definition lpInsertInteger :: "bytes \<Rightarrow> int \<Rightarrow> nat \<Rightarrow> lp_where \<Rightarrow> (bytes \<times> nat option) option option" where
  "lpInsertInteger m lval p wh = lpInsert m None (Some (lpEncodeIntegerGetType lval)) p wh"

text \<open>The wrappers without \<^verbatim>\<open>newp\<close>.\<close>

definition no_newp :: "(bytes \<times> nat option) option option \<Rightarrow> bytes option option" where
  "no_newp r = map_option (map_option fst) r"

definition lpAppend :: "bytes \<Rightarrow> bytes \<Rightarrow> bytes option option" where
  "lpAppend m ele =
     do {
       listpack_bytes \<leftarrow> lpGetTotalBytes m;
       if listpack_bytes = 0 then None
       else no_newp (lpInsert m (Some ele) None (listpack_bytes - 1) LP_BEFORE)
     }"

definition lpAppendInteger :: "bytes \<Rightarrow> int \<Rightarrow> bytes option option" where
  "lpAppendInteger m lval =
     do {
       listpack_bytes \<leftarrow> lpGetTotalBytes m;
       if listpack_bytes = 0 then None
       else no_newp (lpInsertInteger m lval (listpack_bytes - 1) LP_BEFORE)
     }"

definition lpPrepend :: "bytes \<Rightarrow> bytes \<Rightarrow> bytes option option" where
  "lpPrepend m s =
     do {
       p \<leftarrow> lpFirst m;
       (case p of
          None \<Rightarrow> lpAppend m s
        | Some p \<Rightarrow> no_newp (lpInsert m (Some s) None p LP_BEFORE))
     }"

definition lpPrependInteger :: "bytes \<Rightarrow> int \<Rightarrow> bytes option option" where
  "lpPrependInteger m lval =
     do {
       p \<leftarrow> lpFirst m;
       (case p of
          None \<Rightarrow> lpAppendInteger m lval
        | Some p \<Rightarrow> no_newp (lpInsertInteger m lval p LP_BEFORE))
     }"

definition lpReplace :: "bytes \<Rightarrow> nat \<Rightarrow> bytes \<Rightarrow> (bytes \<times> nat option) option option" where
  "lpReplace m p s = lpInsert m (Some s) None p LP_REPLACE"

definition lpReplaceInteger :: "bytes \<Rightarrow> nat \<Rightarrow> int \<Rightarrow> (bytes \<times> nat option) option option" where
  "lpReplaceInteger m p lval = lpInsertInteger m lval p LP_REPLACE"

definition lpDelete :: "bytes \<Rightarrow> nat \<Rightarrow> (bytes \<times> nat option) option option" where
  "lpDelete m p = lpInsert m None None p LP_REPLACE"

subsection \<open>Batch insertion\<close>

record listpackEntry =
  sval :: "bytes option"
  lval :: int

text \<open>One element of \<^verbatim>\<open>enc[]\<close>: what will be stored, \<^verbatim>\<open>enclen\<close> and \<^verbatim>\<open>backlen\<close>.\<close>

definition lp_batch_encode :: "listpackEntry \<Rightarrow> bytes \<times> nat \<times> bytes" where
  "lp_batch_encode e =
     (let (ele, enclen) =
        (case sval e of
           Some s \<Rightarrow>
             (case lpEncodeGetType s of
                (Some intenc, enclen) \<Rightarrow> (intenc, enclen)
              | (None, enclen) \<Rightarrow> (lpEncodeString s, enclen))
         | None \<Rightarrow> (let intenc = lpEncodeIntegerGetType (lval e) in (intenc, length intenc)))
      in (ele, enclen, lpEncodeBacklen enclen))"

text \<open>\<^verbatim>\<open>addedlen += enc[i].enclen; addedlen += enc[i].backlen_size\<close> on a \<^verbatim>\<open>uint64_t\<close>\<close>

fun lp_batch_addedlen :: "(bytes \<times> nat \<times> bytes) list \<Rightarrow> nat \<Rightarrow> nat" where
  "lp_batch_addedlen [] addedlen = addedlen"
| "lp_batch_addedlen ((ele, enclen, backlen) # encs) addedlen =
     lp_batch_addedlen encs (((addedlen + enclen) mod 2 ^ 64 + length backlen) mod 2 ^ 64)"

fun lp_batch_write :: "bytes \<Rightarrow> nat \<Rightarrow> (bytes \<times> nat \<times> bytes) list \<Rightarrow> nat option \<Rightarrow> (bytes \<times> nat option) option" where
  "lp_batch_write m dst [] newp = Some (m, newp)"
| "lp_batch_write m dst ((ele, enclen, backlen) # encs) newp =
     do {
       m \<leftarrow> wrn m dst ele;
       m \<leftarrow> wrn m (dst + enclen) backlen;
       lp_batch_write m (dst + enclen + length backlen) encs (Some dst)
     }"

text \<open>
  \<open>len\<close> is the \<^verbatim>\<open>unsigned int\<close> argument, \<open>entries\<close> the array it counts: reading an entry behind its end is
  \<^term>\<open>None\<close>.
\<close>

definition lpBatchInsert ::
    "bytes \<Rightarrow> nat \<Rightarrow> lp_where \<Rightarrow> listpackEntry list \<Rightarrow> nat \<Rightarrow> (bytes \<times> nat option) option option" where
  "lpBatchInsert m p wh entries len =
     (if wh = LP_REPLACE \<or> \<not> len > 0 \<or> len > length entries then None
      else do {
        p \<leftarrow> (if wh = LP_AFTER then do { p \<leftarrow> lpSkip m p; ASSERT_INTEGRITY m p; Some p } else Some p);
        let enc = map lp_batch_encode (take len entries);
        let addedlen = lp_batch_addedlen enc 0;
        old_listpack_bytes \<leftarrow> lpGetTotalBytes m;
        let new_listpack_bytes = (old_listpack_bytes + addedlen) mod 2 ^ 64;
        if new_listpack_bytes > UINT32_MAX then Some None
        else do {
          m \<leftarrow> lp_make_room m LP_BEFORE p addedlen 0 old_listpack_bytes new_listpack_bytes;
          (m, newp) \<leftarrow> lp_batch_write m p enc None;
          num_elements \<leftarrow> lpGetNumElements m;
          m \<leftarrow> (if num_elements \<noteq> LP_HDR_NUMELE_UNKNOWN then
                 (if int len > int LP_HDR_NUMELE_UNKNOWN - int num_elements
                  then lpSetNumElements m (int LP_HDR_NUMELE_UNKNOWN)
                  else lpSetNumElements m (int num_elements + int len))
               else Some m);
          m \<leftarrow> lpSetTotalBytes m (int new_listpack_bytes);
          Some (Some (m, newp))
        }
      })"

text \<open>\<open>len\<close> is an \<^verbatim>\<open>unsigned long\<close> here, which the call converts to \<^verbatim>\<open>unsigned int\<close>.\<close>

definition lpBatchAppend :: "bytes \<Rightarrow> listpackEntry list \<Rightarrow> nat \<Rightarrow> bytes option option" where
  "lpBatchAppend m entries len =
     do {
       listpack_bytes \<leftarrow> lpGetTotalBytes m;
       if listpack_bytes = 0 then None
       else no_newp (lpBatchInsert m (listpack_bytes - 1) LP_BEFORE entries (len mod 2 ^ 32))
     }"

subsection \<open>Deletion of ranges and batches\<close>

text \<open>The scan for the end of the range: \<^verbatim>\<open>tail\<close> and \<^verbatim>\<open>deleted\<close>.\<close>

fun lp_range_scan :: "bytes \<Rightarrow> nat \<Rightarrow> nat \<Rightarrow> nat \<Rightarrow> nat \<Rightarrow> (nat \<times> nat) option" where
  "lp_range_scan m n tail 0 deleted = Some (tail, deleted)"
| "lp_range_scan m n tail (Suc num) deleted =
     do {
       tail \<leftarrow> lpSkip m tail;
       b \<leftarrow> rd m tail;
       if b = LP_EOF then Some (tail, deleted + 1)
       else do { lpAssertValidEntry m n tail; lp_range_scan m n tail num (deleted + 1) }
     }"

text \<open>
  The common end of the deletions: store the new size and, when it is known, the new number of
  elements, and give the rest of the allocation back.
\<close>

definition lp_set_counts :: "bytes \<Rightarrow> int \<Rightarrow> nat \<Rightarrow> bytes option" where
  "lp_set_counts m total_bytes deleted =
     do {
       m \<leftarrow> lpSetTotalBytes m total_bytes;
       numele \<leftarrow> lpGetNumElements m;
       m \<leftarrow> (if numele \<noteq> LP_HDR_NUMELE_UNKNOWN then lpSetNumElements m (int numele - int deleted)
             else Some m);
       lpShrinkToFit m
     }"

definition lpDeleteRangeWithEntry :: "bytes \<Rightarrow> nat \<Rightarrow> nat \<Rightarrow> (bytes \<times> nat option) option" where
  "lpDeleteRangeWithEntry m p num =
     do {
       n \<leftarrow> lpBytes m;
       let first = p;
       if num = 0 then Some (m, Some p)
       else do {
         (tail, deleted) \<leftarrow> lp_range_scan m n first num 0;
         let poff = first;
         m \<leftarrow> (if n < tail then None else memmove m first tail (n - tail));
         m \<leftarrow> lp_set_counts m (int n - (int tail - int first)) deleted;
         b \<leftarrow> rd m poff;
         Some (m, if b = LP_EOF then None else Some poff)
       }
     }"

definition lpDeleteRange :: "bytes \<Rightarrow> int \<Rightarrow> nat \<Rightarrow> bytes option" where
  "lpDeleteRange m index num =
     do {
       numele \<leftarrow> lpGetNumElements m;
       if num = 0 then Some m
       else do {
         p \<leftarrow> lpSeek m index;
         (case p of
            None \<Rightarrow> Some m
          | Some p \<Rightarrow> do {
              let index = (if numele \<noteq> LP_HDR_NUMELE_UNKNOWN \<and> index < 0 then int numele + index else index);
              if numele \<noteq> LP_HDR_NUMELE_UNKNOWN \<and> (int numele - index) mod 2 ^ 64 \<le> int num then do {
                m \<leftarrow> wrn m p [LP_EOF];
                m \<leftarrow> lpSetTotalBytes m (int p + 1);
                m \<leftarrow> lpSetNumElements m index;
                lpShrinkToFit m
              }
              else map_option fst (lpDeleteRangeWithEntry m p num)
            })
       }
     }"

text \<open>
  The loop of \<^verbatim>\<open>lpBatchDelete\<close> over the pointers \<open>ps\<close> that are left: the bytes between one deleted
  entry and the next are moved to \<^verbatim>\<open>dst\<close>.
\<close>

fun lp_batch_delete_loop :: "bytes \<Rightarrow> nat \<Rightarrow> nat \<Rightarrow> nat list \<Rightarrow> (bytes \<times> nat) option" where
  "lp_batch_delete_loop m lp_end dst [] = Some (m, dst)"
| "lp_batch_delete_loop m lp_end dst (skip # ps) =
     do {
       b \<leftarrow> rd m skip;
       if b = LP_EOF then None
       else do {
         keep_start \<leftarrow> lpSkip m skip;
         let keep_end = (case ps of [] \<Rightarrow> lp_end | q # _ \<Rightarrow> q);
         if ps \<noteq> [] \<and> keep_start = keep_end then lp_batch_delete_loop m lp_end dst ps
         else if \<not> keep_end > keep_start then None
         else do {
           let bytes_to_keep = keep_end - keep_start;
           m \<leftarrow> memmove m dst keep_start bytes_to_keep;
           lp_batch_delete_loop m lp_end (dst + bytes_to_keep) ps
         }
       }
     }"

definition lpBatchDelete :: "bytes \<Rightarrow> nat list \<Rightarrow> bytes option" where
  "lpBatchDelete m ps =
     (case ps of
        [] \<Rightarrow> Some m
      | dst # _ \<Rightarrow> do {
          total_bytes \<leftarrow> lpGetTotalBytes m;
          let lp_end = total_bytes;
          b \<leftarrow> rd_back m lp_end 1;
          if b \<noteq> LP_EOF then None
          else do {
            (m, dst) \<leftarrow> lp_batch_delete_loop m lp_end dst ps;
            let deleted_bytes = lp_end - dst;
            let total_bytes = total_bytes - deleted_bytes;
            b \<leftarrow> rd_back m total_bytes 1;
            if b \<noteq> LP_EOF then None
            else lp_set_counts m (int total_bytes) (length ps)
          }
        })"

subsection \<open>Merging and copying\<close>

text \<open>
  \<^verbatim>\<open>lpMerge\<close>: \<open>same\<close> says that both arguments are the same allocation. The result is the merged
  listpack and whether it replaced \<^verbatim>\<open>*first\<close> (then \<^verbatim>\<open>*second\<close> was freed) or \<^verbatim>\<open>*second\<close>.
\<close>

definition lpMerge :: "bytes option \<Rightarrow> bytes option \<Rightarrow> bool \<Rightarrow> (bytes \<times> bool) option option" where
  "lpMerge first second same =
     (case (first, second) of
        (Some m1, Some m2) \<Rightarrow>
          if same then Some None
          else do {
            first_bytes \<leftarrow> lpBytes m1;
            (m1, first_len) \<leftarrow> lpLength m1;
            second_bytes \<leftarrow> lpBytes m2;
            (m2, second_len) \<leftarrow> lpLength m2;
            let append = (first_bytes \<ge> second_bytes);
            let (target, target_bytes, source, source_bytes) =
              (if append then (m1, first_bytes, m2, second_bytes) else (m2, second_bytes, m1, first_bytes));
            let lpbytes = first_bytes + second_bytes - LP_HDR_SIZE - 1;
            if \<not> lpbytes < UINT32_MAX then None
            else do {
              let lplength = first_len + second_len;
              let lplength = (if lplength < 65535 then lplength else 65535);
              let target = realloc target lpbytes;
              target \<leftarrow>
                (if append then do {
                   bs \<leftarrow> rdn source LP_HDR_SIZE (source_bytes - LP_HDR_SIZE);
                   wrn target (target_bytes - 1) bs
                 }
                 else do {
                   target \<leftarrow> memmove target (source_bytes - 1) LP_HDR_SIZE (target_bytes - LP_HDR_SIZE);
                   bs \<leftarrow> rdn source 0 (source_bytes - 1);
                   wrn target 0 bs
                 });
              target \<leftarrow> lpSetNumElements target (int lplength);
              target \<leftarrow> lpSetTotalBytes target (int lpbytes);
              Some (Some (target, append))
            }
          }
      | _ \<Rightarrow> Some None)"

definition lpDup :: "bytes \<Rightarrow> bytes option" where
  "lpDup m = do { lpbytes \<leftarrow> lpBytes m; rdn m 0 lpbytes }"

subsection \<open>Moving the tail\<close>

lemma splice_gap:
  assumes "length A + a + length T \<le> length m" and "take (length A) m = A"
  shows "\<exists>G. length G = a \<and> splice_at m (length A + a) T = A @ G @ T @ drop (length A + a + length T) m"
proof -
  have "take (length A + a) m = A @ take a (drop (length A) m)"
    using assms(2) by (simp add: take_add)
  moreover have "length (take a (drop (length A) m)) = a" using assms(1) by simp
  ultimately show ?thesis unfolding splice_at_def by (metis append_assoc)
qed

lemma lp_make_room_ok:
  assumes m: "m = A @ R @ T @ S" and "wh = LP_BEFORE \<Longrightarrow> R = []"
    and old: "old = length A + length R + length T" and new: "new = length A + a + length T"
  shows "\<exists>G S'. lp_make_room m wh (length A) a (length R) old new = Some (A @ G @ T @ S') \<and> length G = a"
proof -
  define m1 where "m1 = (if new > old \<and> new > length m then realloc m new else m)"
  have len: "new \<le> length m1" using m old new by (auto simp: m1_def)
  have pre: "m1 = A @ R @ T @ drop old m1"
  proof (cases "new > old \<and> new > length m")
    case True
    then have "m1 = m @ replicate (new - length m) 0" by (simp add: m1_def realloc_def)
    then show ?thesis using m old by simp
  qed (use m old in \<open>auto simp: m1_def\<close>)
  then have "rdn m1 (length A + length R) (length T) = Some T"
    using rdn_middle [of "A @ R" T "drop old m1"] by simp
  then have "memmove m1 (length A + a) (length A + length R) (length T) = Some (splice_at m1 (length A + a) T)"
    using len new by (simp add: memmove_def wrn_def)
  then have move: "(if wh = LP_BEFORE then memmove m1 (length A + a) (length A) (old - length A)
      else memmove m1 (length A + a) (length A + length R) (old - length A - length R))
      = Some (splice_at m1 (length A + a) T)"
    using assms(2) old by auto
  have "take (length A) m1 = A" using arg_cong [OF pre, of "take (length A)"] by simp
  then obtain G where G: "length G = a" "splice_at m1 (length A + a) T = A @ G @ T @ drop new m1"
    using splice_gap [of A a T m1] len new by auto
  have "\<not> old < length A + length R" using old by simp
  then have "lp_make_room m wh (length A) a (length R) old new =
      Some (if new < old then realloc (A @ G @ T @ drop new m1) new else A @ G @ T @ drop new m1)"
    unfolding lp_make_room_def Let_def m1_def [symmetric] move G(2) by simp
  moreover have "realloc (A @ G @ T @ drop new m1) new = A @ G @ T"
    using G(1) new by (simp add: realloc_def)
  ultimately show ?thesis using G(1)
    by (intro exI [of _ G] exI [of _ "if new < old then [] else drop new m1"]) simp
qed

lemma room_image:
  assumes "wh = LP_BEFORE \<Longrightarrow> rs = []"
  shows "\<exists>G S. lp_make_room (lp_image n (xs @ rs @ ys) sl) wh (lp_off xs) (length (lp_body ws))
      (length (lp_body rs)) (lp_size (xs @ rs @ ys)) (lp_size (xs @ ws @ ys)) =
      Some (lp_hdr (lp_size (xs @ rs @ ys)) n @ lp_body xs @ G @ lp_body ys @ LP_EOF # S) \<and>
      length G = length (lp_body ws)"
proof -
  let ?A = "lp_hdr (lp_size (xs @ rs @ ys)) n @ lp_body xs" and ?T = "lp_body ys @ [LP_EOF]"
  have "\<exists>G S. lp_make_room (lp_image n (xs @ rs @ ys) sl) wh (length ?A) (length (lp_body ws))
      (length (lp_body rs)) (lp_size (xs @ rs @ ys)) (lp_size (xs @ ws @ ys)) =
      Some (?A @ G @ ?T @ S) \<and> length G = length (lp_body ws)"
    using assms by (intro lp_make_room_ok [where S = sl]) (auto simp: lp_image_def lp_size_def)
  then show ?thesis by (simp add: lp_off_def)
qed

lemma write_entry:
  assumes "length G = length (raw e)"
  obtains M where "wrn (A @ G @ X) (length A) e = Some M"
    and "wrn M (length A + length e) (lpEncodeBacklen (length e)) = Some (A @ raw e @ X)"
  using assms by (simp add: wrn_def splice_at_def length_raw raw_def)

lemma write_entry_hdr:
  assumes "length G = length (raw e)"
  obtains M where "wrn (lp_hdr t n @ lp_body xs @ G @ X) (lp_off xs) e = Some M"
    and "wrn M (lp_off xs + length e) (lpEncodeBacklen (length e)) = Some (lp_hdr t n @ lp_body xs @ raw e @ X)"
  using write_entry [OF assms, of "lp_hdr t n @ lp_body xs" X] by (auto simp: lp_off_def)

lemma lpGetNumElements_hdr: "n < 65536 \<Longrightarrow> lpGetNumElements (lp_hdr t n @ X) = Some n"
  by (simp add: lpGetNumElements_def hdr_rdn le_uint_le_bytes)

lemma lpSetNumElements_hdr: "lpSetNumElements (lp_hdr t n @ X) (int k) = Some (lp_hdr t k @ X)"
  by (simp add: lpSetNumElements_def lp_hdr_def wrn_def splice_at_def)

lemma lpSetTotalBytes_hdr: "lpSetTotalBytes (lp_hdr t n @ X) (int k) = Some (lp_hdr k n @ X)"
  by (simp add: lpSetTotalBytes_def lp_hdr_def wrn_def splice_at_def)

lemma lpGetTotalBytes_hdr: "t < 2 ^ 32 \<Longrightarrow> lpGetTotalBytes (lp_hdr t n @ X) = Some t"
  by (simp add: lpGetTotalBytes_def hdr_rdn le_uint_le_bytes)

lemmas lp_hdr_ops = lpGetNumElements_hdr lpSetNumElements_hdr lpSetTotalBytes_hdr lpGetTotalBytes_hdr

subsection \<open>Insertion, replacement and deletion\<close>

text \<open>The payload that the two element arguments of \<^verbatim>\<open>lpInsert\<close> stand for.\<close>

definition lp_arg :: "bytes option \<Rightarrow> bytes option \<Rightarrow> bytes \<Rightarrow> bool" where
  "lp_arg elestr eleint e \<longleftrightarrow>
     (case elestr of Some s \<Rightarrow> e = enc_elem (elem_of_str s) | None \<Rightarrow> eleint = Some e) \<and> lp_entry e"

lemma length_lpEncodeString: "length (lpEncodeString s) = str_hdr s + length s"
  by (simp add: lpEncodeString_def str_hdr_def Let_def)

lemma lpInsert_core:
  assumes "lp_arg elestr eleint e"
  shows "lpInsert m elestr eleint p LP_BEFORE = lp_insert_core m False e (length e) p LP_BEFORE"
    and "lpInsert m elestr eleint p LP_REPLACE = lp_insert_core m False e (length e) p LP_REPLACE"
    and "lpInsert m elestr eleint p LP_AFTER =
      do { p \<leftarrow> lpSkip m p; ASSERT_INTEGRITY m p; lp_insert_core m False e (length e) p LP_BEFORE }"
    and "lpInsert m None None p wh = lp_insert_core m True [] 0 p LP_REPLACE"
proof -
  have enc: "(case lpEncodeGetType s of (Some intenc, enclen) \<Rightarrow> (intenc, enclen)
      | (None, enclen) \<Rightarrow> (lpEncodeString s, enclen)) = (enc_elem (elem_of_str s), length (enc_elem (elem_of_str s)))" for s
    by (simp add: lpEncodeGetType_def elem_of_str_def length_lpEncodeString str_hdr_def Let_def split: option.split)
  show "lpInsert m elestr eleint p LP_BEFORE = lp_insert_core m False e (length e) p LP_BEFORE"
    "lpInsert m elestr eleint p LP_REPLACE = lp_insert_core m False e (length e) p LP_REPLACE"
    "lpInsert m elestr eleint p LP_AFTER =
      do { p \<leftarrow> lpSkip m p; ASSERT_INTEGRITY m p; lp_insert_core m False e (length e) p LP_BEFORE }"
    using assms by (cases elestr; simp add: lpInsert_def lp_arg_def enc)+
  show "lpInsert m None None p wh = lp_insert_core m True [] 0 p LP_REPLACE"
    by (simp add: lpInsert_def)
qed

definition count_up :: "nat \<Rightarrow> nat" where
  "count_up n = (if n = LP_HDR_NUMELE_UNKNOWN then n else n + 1)"

definition count_down :: "nat \<Rightarrow> nat" where
  "count_down n = (if n = LP_HDR_NUMELE_UNKNOWN then n else n - 1)"

lemma lp_wf_insert:
  "lp_wf n (xs @ ys) \<Longrightarrow> lp_entry e \<Longrightarrow> lp_size (xs @ e # ys) \<le> UINT32_MAX \<Longrightarrow>
   lp_wf (count_up n) (xs @ e # ys)"
  by (auto simp: lp_wf_def count_up_def UINT32_MAX_def LP_HDR_NUMELE_UNKNOWN_def)

lemma lp_wf_replace:
  "lp_wf n (xs @ r # ys) \<Longrightarrow> lp_entry e \<Longrightarrow> lp_size (xs @ e # ys) \<le> UINT32_MAX \<Longrightarrow> lp_wf n (xs @ e # ys)"
  by (auto simp: lp_wf_def UINT32_MAX_def)

lemma lp_wf_delete: "lp_wf n (xs @ r # ys) \<Longrightarrow> lp_wf (count_down n) (xs @ ys)"
  by (auto simp: lp_wf_def count_down_def lp_size_def)

lemma lpSetNumElements_step:
  "lpSetNumElements (lp_hdr t n @ X) (int n + 1) = Some (lp_hdr t (Suc n) @ X)"
  "0 < n \<Longrightarrow> lpSetNumElements (lp_hdr t n @ X) (int n - 1) = Some (lp_hdr t (n - 1) @ X)"
  using lpSetNumElements_hdr [of t n X "n + 1"] lpSetNumElements_hdr [of t n X "n - 1"]
  by (simp_all add: add.commute of_nat_diff)

lemma image_fold:
  "lp_hdr (lp_size (xs @ ys)) n @ lp_body xs @ lp_body ys @ LP_EOF # S = lp_image n (xs @ ys) S"
  "lp_hdr (lp_size (xs @ e # ys)) n @ lp_body xs @ raw e @ lp_body ys @ LP_EOF # S = lp_image n (xs @ e # ys) S"
  by (simp_all add: lp_image_def)

lemma insert_core_before:
  assumes wf: "lp_wf n (xs @ ys)"
  shows "\<exists>sl'. lp_insert_core (lp_image n (xs @ ys) sl) False e (length e) (lp_off xs) LP_BEFORE =
    Some (if lp_size (xs @ e # ys) > UINT32_MAX then None
          else Some (lp_image (count_up n) (xs @ e # ys) sl', Some (lp_off xs)))"
proof -
  have sz: "lp_size (xs @ ys) + length e + lpEncodeBacklenBytes (length e) = lp_size (xs @ e # ys)"
    by (simp add: lp_size_def length_raw)
  obtain G S where room: "lp_make_room (lp_image n (xs @ ys) sl) LP_BEFORE (lp_off xs)
      (length e + lpEncodeBacklenBytes (length e)) 0 (lp_size (xs @ ys)) (lp_size (xs @ e # ys)) =
      Some (lp_hdr (lp_size (xs @ ys)) n @ lp_body xs @ G @ lp_body ys @ LP_EOF # S)"
    "length G = length (raw e)"
    using room_image [of LP_BEFORE "[]" n xs ys sl "[e]"] by (auto simp: length_raw)
  obtain M where wr: "wrn (lp_hdr (lp_size (xs @ ys)) n @ lp_body xs @ G @ lp_body ys @ LP_EOF # S) (lp_off xs) e = Some M"
    "wrn M (lp_off xs + length e) (lpEncodeBacklen (length e)) =
      Some (lp_hdr (lp_size (xs @ ys)) n @ lp_body xs @ raw e @ lp_body ys @ LP_EOF # S)"
    using room(2) by (rule write_entry_hdr)
  show ?thesis
    using lp_wf_count [OF wf] wr
    by (auto simp: lp_insert_core_def lpGetTotalBytes_image [OF wf] sz room(1) lp_hdr_ops image_fold
        lpSetNumElements_step count_up_def)
qed

lemma replaced_len_image:
  assumes wf: "lp_wf n (xs @ r # ys)"
  shows "lpCurrentEncodedSizeUnsafe (lp_image n (xs @ r # ys) sl) (lp_off xs) = Some (length r)"
    and "(length r + lpEncodeBacklenBytes (length r)) mod 2 ^ 32 = length (raw r)"
    and "ASSERT_INTEGRITY_LEN (lp_image n (xs @ r # ys) sl) (lp_off xs) (length (raw r)) = Some ()"
proof -
  have r: "lp_entry r" using wf by (simp add: lp_wf_def)
  show "lpCurrentEncodedSizeUnsafe (lp_image n (xs @ r # ys) sl) (lp_off xs) = Some (length r)"
    using r by (rule image_entry)
  have "length (raw r) < 2 ^ 32" using wf by (simp add: lp_wf_def lp_size_def)
  then show "(length r + lpEncodeBacklenBytes (length r)) mod 2 ^ 32 = length (raw r)"
    by (simp add: length_raw)
  show "ASSERT_INTEGRITY_LEN (lp_image n (xs @ r # ys) sl) (lp_off xs) (length (raw r)) = Some ()"
    by (simp add: ASSERT_INTEGRITY_LEN_def lpGetTotalBytes_image [OF wf]) (simp add: lp_off_def lp_size_def)
qed

lemma insert_core_replace:
  assumes wf: "lp_wf n (xs @ r # ys)"
  shows "\<exists>sl'. lp_insert_core (lp_image n (xs @ r # ys) sl) False e (length e) (lp_off xs) LP_REPLACE =
    Some (if lp_size (xs @ e # ys) > UINT32_MAX then None
          else Some (lp_image n (xs @ e # ys) sl', Some (lp_off xs)))"
proof -
  have sz: "lp_size (xs @ r # ys) + length e + lpEncodeBacklenBytes (length e) - length (raw r)
      = lp_size (xs @ e # ys)"
    by (simp add: lp_size_def length_raw)
  obtain G S where room: "lp_make_room (lp_image n (xs @ r # ys) sl) LP_REPLACE (lp_off xs)
      (length e + lpEncodeBacklenBytes (length e)) (length (raw r)) (lp_size (xs @ r # ys)) (lp_size (xs @ e # ys)) =
      Some (lp_hdr (lp_size (xs @ r # ys)) n @ lp_body xs @ G @ lp_body ys @ LP_EOF # S)"
    "length G = length (raw e)"
    using room_image [of LP_REPLACE "[r]" n xs ys sl "[e]"] by (auto simp: length_raw)
  obtain M where wr: "wrn (lp_hdr (lp_size (xs @ r # ys)) n @ lp_body xs @ G @ lp_body ys @ LP_EOF # S) (lp_off xs) e = Some M"
    "wrn M (lp_off xs + length e) (lpEncodeBacklen (length e)) =
      Some (lp_hdr (lp_size (xs @ r # ys)) n @ lp_body xs @ raw e @ lp_body ys @ LP_EOF # S)"
    using room(2) by (rule write_entry_hdr)
  show ?thesis
    using wr replaced_len_image(1,3) [OF wf, of sl] replaced_len_image(2) [OF wf]
    by (auto simp: lp_insert_core_def lpGetTotalBytes_image [OF wf] sz room(1) lp_hdr_ops image_fold)
qed

lemma rd_gap: "rd (lp_hdr t n @ lp_body xs @ X) (lp_off xs) = rd X 0"
  using rd_append [of "lp_hdr t n @ lp_body xs" X 0] by (simp add: lp_off_def)

lemma rd_entries:
  assumes "\<forall>e \<in> set ys. lp_entry e"
  shows "\<exists>b. rd (lp_body ys @ LP_EOF # S) 0 = Some b \<and> (b = LP_EOF \<longleftrightarrow> ys = [])"
proof (cases ys)
  case (Cons e zs)
  then have "e \<noteq> []" "hd e \<noteq> LP_EOF" using assms by (auto simp: lp_entry_def)
  then show ?thesis using Cons rd_raw [of e "[]" "lp_body zs @ LP_EOF # S"] by simp
qed (simp add: rd_def)

lemma insert_core_delete:
  assumes wf: "lp_wf n (xs @ r # ys)"
  shows "\<exists>sl'. lp_insert_core (lp_image n (xs @ r # ys) sl) True [] 0 (lp_off xs) LP_REPLACE =
    Some (Some (lp_image (count_down n) (xs @ ys) sl', lp_ptr xs ys))"
proof -
  have sz: "lp_size (xs @ r # ys) - length (raw r) = lp_size (xs @ ys)"
    by (simp add: lp_size_def length_raw)
  obtain S where room: "lp_make_room (lp_image n (xs @ r # ys) sl) LP_REPLACE (lp_off xs)
      0 (length (raw r)) (lp_size (xs @ r # ys)) (lp_size (xs @ ys)) =
      Some (lp_hdr (lp_size (xs @ r # ys)) n @ lp_body xs @ lp_body ys @ LP_EOF # S)"
    using room_image [of LP_REPLACE "[r]" n xs ys sl "[]"] by auto
  have small: "\<not> lp_size (xs @ ys) > UINT32_MAX" using wf by (simp add: lp_wf_def lp_size_def UINT32_MAX_def)
  have "\<forall>e \<in> set ys. lp_entry e" using wf by (simp add: lp_wf_def)
  then obtain b where b: "rd (lp_body ys @ LP_EOF # S) 0 = Some b" "b = LP_EOF \<longleftrightarrow> ys = []"
    using rd_entries by blast
  have n: "n \<noteq> LP_HDR_NUMELE_UNKNOWN \<Longrightarrow> 0 < n" using wf by (auto simp: lp_wf_def)
  show ?thesis
    using lp_wf_count [OF wf] replaced_len_image(1,3) [OF wf, of sl] replaced_len_image(2) [OF wf] small n b
    by (auto simp: lp_insert_core_def lpGetTotalBytes_image [OF wf] sz room lp_hdr_ops image_fold
        lpSetNumElements_step count_down_def lp_ptr_def rd_gap)
qed

subsection \<open>Batch insertion\<close>

definition elem_of_entry :: "listpackEntry \<Rightarrow> lp_elem" where
  "elem_of_entry e = (case sval e of Some s \<Rightarrow> elem_of_str s | None \<Rightarrow> EInt (lval e))"

abbreviation entry_payload :: "listpackEntry \<Rightarrow> bytes" where
  "entry_payload e \<equiv> enc_elem (elem_of_entry e)"

lemma lp_batch_encode_eq:
  "lp_batch_encode e = (entry_payload e, length (entry_payload e), lpEncodeBacklen (length (entry_payload e)))"
  by (auto simp: lp_batch_encode_def elem_of_entry_def elem_of_str_def lpEncodeGetType_def
      length_lpEncodeString str_hdr_def Let_def split: option.split)

lemma lp_batch_addedlen_eq:
  "a < 2 ^ 64 \<Longrightarrow>
   lp_batch_addedlen (map lp_batch_encode es) a = (a + length (lp_body (map entry_payload es))) mod 2 ^ 64"
proof (induction es arbitrary: a)
  case (Cons e es)
  let ?p = "entry_payload e"
  have "lp_batch_addedlen (map lp_batch_encode (e # es)) a =
      lp_batch_addedlen (map lp_batch_encode es) ((a + length (raw ?p)) mod 2 ^ 64)"
    by (simp add: lp_batch_encode_eq length_raw add.assoc mod_simps)
  also have "\<dots> = ((a + length (raw ?p)) mod 2 ^ 64 + length (lp_body (map entry_payload es))) mod 2 ^ 64"
    by (rule Cons.IH) simp
  finally show ?case by (simp add: mod_simps add.assoc)
qed simp

lemma lp_batch_write_ok:
  "length G = length (lp_body (map entry_payload es)) \<Longrightarrow>
   \<exists>p. lp_batch_write (A @ G @ X) (length A) (map lp_batch_encode es) newp =
     Some (A @ lp_body (map entry_payload es) @ X, p) \<and>
     (es \<noteq> [] \<longrightarrow> p = Some (length A + length (lp_body (map entry_payload (butlast es)))))"
proof (induction es arbitrary: A G newp)
  case (Cons e es)
  let ?p = "entry_payload e"
  define G1 G2 where "G1 = take (length (raw ?p)) G" and "G2 = drop (length (raw ?p)) G"
  have G: "G = G1 @ G2" "length G1 = length (raw ?p)" "length G2 = length (lp_body (map entry_payload es))"
    using Cons.prems by (simp_all add: G1_def G2_def)
  obtain M where wr: "wrn (A @ G1 @ G2 @ X) (length A) ?p = Some M"
    "wrn M (length A + length ?p) (lpEncodeBacklen (length ?p)) = Some (A @ raw ?p @ G2 @ X)"
    using G(2) by (rule write_entry)
  obtain p where p: "lp_batch_write ((A @ raw ?p) @ G2 @ X) (length (A @ raw ?p)) (map lp_batch_encode es) (Some (length A)) =
      Some ((A @ raw ?p) @ lp_body (map entry_payload es) @ X, p)"
    "es \<noteq> [] \<longrightarrow> p = Some (length (A @ raw ?p) + length (lp_body (map entry_payload (butlast es))))"
    using Cons.IH [OF G(3)] by blast
  have step: "lp_batch_write (A @ G @ X) (length A) (map lp_batch_encode (e # es)) newp =
      Some (A @ lp_body (map entry_payload (e # es)) @ X, p)"
    using wr p(1) G(1) by (simp add: lp_batch_encode_eq length_raw add.assoc)
  show ?case
  proof (cases "es = []")
    case True
    then show ?thesis using wr G(1,3) by (simp add: lp_batch_encode_eq)
  qed (use step p(2) in simp)
qed simp

definition count_add :: "nat \<Rightarrow> nat \<Rightarrow> nat" where
  "count_add n k = (if n = LP_HDR_NUMELE_UNKNOWN \<or> k > LP_HDR_NUMELE_UNKNOWN - n then LP_HDR_NUMELE_UNKNOWN else n + k)"

lemma lp_wf_add:
  "lp_wf n (xs @ ys) \<Longrightarrow> \<forall>p \<in> set ps. lp_entry p \<Longrightarrow> lp_size (xs @ ps @ ys) \<le> UINT32_MAX \<Longrightarrow>
   lp_wf (count_add n (length ps)) (xs @ ps @ ys)"
  by (auto simp: lp_wf_def count_add_def UINT32_MAX_def LP_HDR_NUMELE_UNKNOWN_def)

lemma lpBatchInsert_before:
  assumes wf: "lp_wf n (xs @ ys)" and ne: "es \<noteq> []"
  defines "ps \<equiv> map entry_payload es"
  assumes bytes: "lp_size ps < 2 ^ 63"
  shows "\<exists>sl'. lpBatchInsert (lp_image n (xs @ ys) sl) (lp_off xs) LP_BEFORE es (length es) =
    Some (if lp_size (xs @ ps @ ys) > UINT32_MAX then None
          else Some (lp_image (count_add n (length es)) (xs @ ps @ ys) sl', Some (lp_off (xs @ butlast ps))))"
proof -
  have sz: "lp_size (xs @ ys) + length (lp_body ps) = lp_size (xs @ ps @ ys)" by (simp add: lp_size_def)
  have old: "lp_size (xs @ ys) \<le> UINT32_MAX" using wf by (simp add: lp_wf_def UINT32_MAX_def)
  have added: "lp_batch_addedlen (map lp_batch_encode es) 0 = length (lp_body ps)"
    using bytes by (simp add: lp_batch_addedlen_eq ps_def [symmetric] lp_size_def)
  have total: "lp_size (xs @ ps @ ys) < 18446744073709551616"
    using bytes old sz by (simp add: lp_size_def UINT32_MAX_def)
  obtain G S where room: "lp_make_room (lp_image n (xs @ ys) sl) LP_BEFORE (lp_off xs) (length (lp_body ps)) 0
      (lp_size (xs @ ys)) (lp_size (xs @ ps @ ys)) =
      Some (lp_hdr (lp_size (xs @ ys)) n @ lp_body xs @ G @ lp_body ys @ LP_EOF # S)"
    "length G = length (lp_body ps)"
    using room_image [of LP_BEFORE "[]" n xs ys sl ps] by auto
  let ?A = "lp_hdr (lp_size (xs @ ys)) n @ lp_body xs"
  have wr: "lp_batch_write (lp_hdr (lp_size (xs @ ys)) n @ lp_body xs @ G @ lp_body ys @ LP_EOF # S)
      (lp_off xs) (map lp_batch_encode es) None =
      Some (lp_hdr (lp_size (xs @ ys)) n @ lp_body xs @ lp_body ps @ lp_body ys @ LP_EOF # S,
        Some (lp_off (xs @ butlast ps)))"
    using lp_batch_write_ok [OF room(2) [unfolded ps_def], of ?A "lp_body ys @ LP_EOF # S" None] ne
    by (auto simp: ps_def lp_off_def map_butlast)
  have im: "lp_hdr (lp_size (xs @ ps @ ys)) k @ lp_body xs @ lp_body ps @ lp_body ys @ LP_EOF # S =
      lp_image k (xs @ ps @ ys) S" for k
    by (simp add: lp_image_def)
  have cnt: "int (length es) > int LP_HDR_NUMELE_UNKNOWN - int n \<longleftrightarrow> length es > LP_HDR_NUMELE_UNKNOWN - n"
    using lp_wf_count [OF wf] by (auto simp: LP_HDR_NUMELE_UNKNOWN_def)
  have set: "lpSetNumElements (lp_hdr t n @ X) (int n + int (length es)) = Some (lp_hdr t (n + length es) @ X)" for t X
    using lpSetNumElements_hdr [of t n X "n + length es"] by simp
  show ?thesis
    using ne lp_wf_count [OF wf]
    by (auto simp: lpBatchInsert_def lpGetTotalBytes_image [OF wf] added sz total
        room(1) wr lp_hdr_ops im cnt set count_add_def Let_def)
qed

subsection \<open>Deletion of ranges\<close>

lemma lpShrinkToFit_image:
  assumes "lp_wf n es"
  shows "lpShrinkToFit (lp_image n es sl) = Some (lp_image n es [])"
  using assms
  by (auto simp: lpShrinkToFit_def lpGetTotalBytes_image length_lp_image)
     (simp_all add: lp_image_def realloc_def lp_size_def)

lemma lp_range_scan_image:
  assumes "ys \<noteq> []"
  shows "lp_wf n (xs @ ys) \<Longrightarrow>
    lp_range_scan (lp_image n (xs @ ys) sl) (lp_size (xs @ ys)) (lp_off xs) num d =
      Some (lp_off (xs @ take num ys), d + min num (length ys))"
  using assms
proof (induction num arbitrary: xs ys d)
  case (Suc num)
  then obtain e zs where ys: "ys = e # zs" by (cases ys) auto
  have e: "lp_entry e" using Suc.prems ys by (simp add: lp_wf_def)
  have wf: "lp_wf n ((xs @ [e]) @ zs)" using Suc.prems(1) ys by simp
  obtain b where b: "rd (lp_image n (xs @ e # zs) sl) (lp_off (xs @ [e])) = Some b" "b = LP_EOF \<longleftrightarrow> zs = []"
    using rd_image_eof [OF wf, of sl] by auto
  note skip = image_entry(2) [OF e, of n xs zs sl]
  show ?case
  proof (cases "zs = []")
    case True
    then show ?thesis using b skip ys by simp
  next
    case False
    have "lp_range_scan (lp_image n ((xs @ [e]) @ zs) sl) (lp_size ((xs @ [e]) @ zs)) (lp_off (xs @ [e])) num (d + 1) =
        Some (lp_off ((xs @ [e]) @ take num zs), d + 1 + min num (length zs))"
      using wf False by (intro Suc.IH)
    then show ?thesis using False b skip ys lpAssertValidEntry_image [OF wf, of sl] by simp
  qed
qed simp

definition count_sub :: "nat \<Rightarrow> nat \<Rightarrow> nat" where
  "count_sub n k = (if n = LP_HDR_NUMELE_UNKNOWN then n else n - k)"

lemma lp_wf_remove:
  "lp_wf n (xs @ ds @ ys) \<Longrightarrow> lp_wf (count_sub n (length ds)) (xs @ ys)"
  by (auto simp: lp_wf_def count_sub_def lp_size_def)

lemma close_gap:
  "memmove (A @ R @ T @ S) (length A) (length A + length R) (length T) = Some (A @ T @ drop (length T) (R @ T @ S))"
  using rdn_middle [of "A @ R" T S] by (simp add: memmove_def wrn_def splice_at_def)

lemma lp_set_counts_image:
  assumes "lp_wf n (xs @ ds @ ys)" "k = length ds"
  shows "lp_set_counts (lp_hdr t n @ lp_body xs @ lp_body ys @ LP_EOF # S) (int (lp_size (xs @ ys))) k =
    Some (lp_image (count_sub n k) (xs @ ys) [])"
proof -
  let ?X = "lp_body xs @ lp_body ys @ LP_EOF # S" and ?t = "lp_size (xs @ ys)"
  have e: "(if n \<noteq> LP_HDR_NUMELE_UNKNOWN then lpSetNumElements (lp_hdr ?t n @ ?X) (int n - int k)
      else Some (lp_hdr ?t n @ ?X)) = Some (lp_image (count_sub n k) (xs @ ys) S)"
    using lpSetNumElements_hdr [of ?t n ?X "n - k"] assms
    by (auto simp: image_fold count_sub_def lp_wf_def of_nat_diff)
  show ?thesis
    unfolding lp_set_counts_def lpSetTotalBytes_hdr lpGetNumElements_hdr [OF lp_wf_count [OF assms(1)]]
      bind.bind_lunit e
    using lpShrinkToFit_image [OF lp_wf_remove [OF assms(1)], of S] assms(2) by simp
qed

lemma lpDeleteRangeWithEntry_image:
  assumes wf: "lp_wf n (xs @ ds @ ys)" and "ds \<noteq> []" "length ds = num \<or> ys = [] \<and> length ds \<le> num"
  shows "lpDeleteRangeWithEntry (lp_image n (xs @ ds @ ys) sl) (lp_off xs) num =
    Some (lp_image (count_sub n (length ds)) (xs @ ys) [], lp_ptr xs ys)"
proof -
  let ?m = "lp_image n (xs @ ds @ ys) sl" and ?A = "lp_hdr (lp_size (xs @ ds @ ys)) n @ lp_body xs"
  have "take num (ds @ ys) = ds" "min num (length (ds @ ys)) = length ds" using assms(3) by auto
  then have scan: "lp_range_scan ?m (lp_size (xs @ ds @ ys)) (lp_off xs) num 0 = Some (lp_off (xs @ ds), length ds)"
    using lp_range_scan_image [of "ds @ ys" n xs sl num 0] assms(2) wf by (simp del: take_append length_append)
  have len: "lp_size (xs @ ds @ ys) - lp_off (xs @ ds) = length (lp_body ys @ [LP_EOF])"
    "\<not> lp_size (xs @ ds @ ys) < lp_off (xs @ ds)"
    by (simp_all add: lp_size_def lp_off_def)
  obtain S where mv: "memmove ?m (lp_off xs) (lp_off (xs @ ds)) (length (lp_body ys @ [LP_EOF])) =
      Some (lp_hdr (lp_size (xs @ ds @ ys)) n @ lp_body xs @ lp_body ys @ LP_EOF # S)"
    using close_gap [of ?A "lp_body ds" "lp_body ys @ [LP_EOF]" sl]
    by (simp add: lp_image_def lp_off_def add.assoc)
  have tot: "int (lp_size (xs @ ds @ ys)) - (int (lp_off (xs @ ds)) - int (lp_off xs)) = int (lp_size (xs @ ys))"
    by (simp add: lp_size_def lp_off_def)
  have wf': "lp_wf (count_sub n (length ds)) (xs @ ys)" using wf by (rule lp_wf_remove)
  obtain b where b: "rd (lp_image (count_sub n (length ds)) (xs @ ys) []) (lp_off xs) = Some b" "b = LP_EOF \<longleftrightarrow> ys = []"
    using rd_image_eof [OF wf', of "[]"] by auto
  have num: "num \<noteq> 0" using assms(2,3) by (cases ds) auto
  show ?thesis
    unfolding lpDeleteRangeWithEntry_def lpBytes_def lpGetTotalBytes_image [OF wf] Let_def bind.bind_lunit
      scan if_not_P [OF num] prod.case len(1) if_not_P [OF len(2)] mv tot lp_set_counts_image [OF wf refl]
    using b by (auto simp: lp_ptr_def)
qed

lemma lp_truncate_image:
  assumes wf: "lp_wf n (xs @ ds)" and "ds \<noteq> []" "n \<noteq> LP_HDR_NUMELE_UNKNOWN"
  shows "do { m \<leftarrow> wrn (lp_image n (xs @ ds) sl) (lp_off xs) [LP_EOF];
      m \<leftarrow> lpSetTotalBytes m (int (lp_off xs) + 1);
      m \<leftarrow> lpSetNumElements m (int (length xs));
      lpShrinkToFit m } = Some (lp_image (length xs) xs [])"
proof -
  let ?A = "lp_hdr (lp_size (xs @ ds)) n @ lp_body xs"
  have "wrn (?A @ lp_body ds @ LP_EOF # sl) (length ?A) [LP_EOF] = Some (?A @ LP_EOF # drop 1 (lp_body ds @ LP_EOF # sl))"
    by (simp add: wrn_def splice_at_def Suc_le_eq)
  then have wr: "wrn (lp_image n (xs @ ds) sl) (lp_off xs) [LP_EOF] =
      Some (lp_hdr (lp_size (xs @ ds)) n @ lp_body xs @ LP_EOF # drop 1 (lp_body ds @ LP_EOF # sl))"
    by (simp add: lp_image_def lp_off_def)
  have tot: "int (lp_off xs) + 1 = int (lp_size xs)" by (simp add: lp_size_off)
  have wf': "lp_wf (length xs) xs"
    using assms by (auto simp: lp_wf_def lp_size_def)
  show ?thesis
    unfolding wr bind.bind_lunit tot lpSetTotalBytes_hdr lpSetNumElements_hdr
    using lpShrinkToFit_image [OF wf'] by (simp add: lp_image_def)
qed

lemma lpDeleteRange_image:
  assumes wf: "lp_wf n es"
  defines "k i \<equiv> (if i < 0 then int (length es) + i else i)"
  shows "\<exists>n' sl'. lpDeleteRange (lp_image n es sl) i num =
      Some (lp_image n' (if 0 \<le> k i then take (nat (k i)) es @ drop (nat (k i) + num) es else es) sl') \<and>
      lp_wf n' (if 0 \<le> k i then take (nat (k i)) es @ drop (nat (k i) + num) es else es)"
proof (cases "num = 0 \<or> \<not> (0 \<le> k i \<and> k i < int (length es))")
  case True
  then have "lpDeleteRange (lp_image n es sl) i num = Some (lp_image n es sl)"
    using lpSeek_image [OF wf, of sl i] by (auto simp: lpDeleteRange_def lpGetNumElements_image [OF wf] k_def)
  moreover have "(if 0 \<le> k i then take (nat (k i)) es @ drop (nat (k i) + num) es else es) = es"
    using True by auto
  ultimately show ?thesis using wf by (intro exI [of _ n] exI [of _ sl]) simp
next
  case False
  define j where "j = nat (k i)"
  define xs ds ys where "xs = take j es" and "ds = take num (drop j es)" and "ys = drop (j + num) es"
  have j: "j < length es" "0 < num" "int j = k i" using False by (auto simp: j_def nat_less_iff)
  have "ys = drop num (drop j es)" by (simp add: ys_def add.commute)
  then have "ds @ ys = drop j es" by (simp only: ds_def append_take_drop_id)
  then have es: "es = xs @ ds @ ys" "ds \<noteq> []" "length xs = j"
    using j by (simp_all add: xs_def ds_def)
  have seek: "lpSeek (lp_image n es sl) i = Some (Some (lp_off xs))"
    using lpSeek_image [OF wf, of sl i] False by (simp add: k_def xs_def j_def)
  have res: "(if 0 \<le> k i then take (nat (k i)) es @ drop (nat (k i) + num) es else es) = xs @ ys"
    using False by (simp add: xs_def ys_def j_def)
  have dl: "length ds = num \<or> ys = [] \<and> length ds \<le> num"
    using j by (auto simp: ds_def ys_def)
  let ?idx = "if n \<noteq> LP_HDR_NUMELE_UNKNOWN \<and> i < 0 then int n + i else i"
  have idx: "n \<noteq> LP_HDR_NUMELE_UNKNOWN \<Longrightarrow> ?idx = int j" "n \<noteq> LP_HDR_NUMELE_UNKNOWN \<Longrightarrow> n = length es"
    using wf j(3) by (auto simp: lp_wf_def k_def)
  have md: "(int (length es) - int j) mod 2 ^ 64 = int (length es) - int j"
    using j(1) lp_wf_length [OF wf] by simp
  show ?thesis
  proof (cases "n \<noteq> LP_HDR_NUMELE_UNKNOWN \<and> int (length es) - int j \<le> int num")
    case True
    then have ys: "ys = []" by (auto simp: ys_def)
    have c: "n \<noteq> LP_HDR_NUMELE_UNKNOWN \<and> (int n - ?idx) mod 2 ^ 64 \<le> int num"
      using True idx md by simp
    have "lpDeleteRange (lp_image n es sl) i num = Some (lp_image (length xs) xs [])"
      unfolding lpDeleteRange_def lpGetNumElements_image [OF wf] seek bind.bind_lunit option.case Let_def if_P [OF c]
      using j(2) True lp_truncate_image [of n xs ds sl] wf es ys idx(1) by simp
    moreover have "lp_wf (length xs) xs" using wf True es ys by (auto simp: lp_wf_def lp_size_def)
    ultimately show ?thesis using res ys by auto
  next
    case False
    then have c: "\<not> (n \<noteq> LP_HDR_NUMELE_UNKNOWN \<and> (int n - ?idx) mod 2 ^ 64 \<le> int num)"
      using idx md by auto
    have "lpDeleteRange (lp_image n es sl) i num = Some (lp_image (count_sub n (length ds)) (xs @ ys) [])"
      unfolding lpDeleteRange_def lpGetNumElements_image [OF wf] seek bind.bind_lunit option.case Let_def if_not_P [OF c]
      using j(2) lpDeleteRangeWithEntry_image [OF wf [unfolded es(1)] es(2) dl, of sl] es(1) by simp
    then show ?thesis using res lp_wf_remove [OF wf [unfolded es(1)]] by auto
  qed
qed

subsection \<open>Deletion of a batch\<close>

text \<open>
  A listpack cut at the entries to delete: each pair holds a deleted entry and the entries kept
  behind it. \<open>seg_ptrs\<close> are the pointers to the deleted entries.
\<close>

type_synonym segs = "(bytes \<times> bytes list) list"

definition seg_all :: "segs \<Rightarrow> bytes list" where
  "seg_all segs = concat (map (\<lambda>(d, ks). d # ks) segs)"

definition seg_kept :: "segs \<Rightarrow> bytes list" where
  "seg_kept segs = concat (map snd segs)"

fun seg_ptrs :: "nat \<Rightarrow> segs \<Rightarrow> nat list" where
  "seg_ptrs off [] = []"
| "seg_ptrs off ((d, ks) # segs) = off # seg_ptrs (off + length (raw d) + length (lp_body ks)) segs"

lemma seg_simps [simp]:
  "seg_all [] = []" "seg_all ((d, ks) # segs) = d # ks @ seg_all segs"
  "seg_kept [] = []" "seg_kept ((d, ks) # segs) = ks @ seg_kept segs"
  by (simp_all add: seg_all_def seg_kept_def)

lemma length_seg_ptrs [simp]: "length (seg_ptrs off segs) = length segs"
  by (induction off segs rule: seg_ptrs.induct) auto

lemma lp_body_kept_empty: "\<forall>e \<in> set ks. lp_entry e \<Longrightarrow> lp_body ks = [] \<longleftrightarrow> ks = []"
  by (cases ks) (auto simp: raw_def lp_entry_def)

lemma lp_batch_delete_loop_segs:
  assumes "\<forall>e \<in> set (seg_all segs). lp_entry e" "segs \<noteq> []"
    and "lp_end = length P + length J + length (lp_body (seg_all segs)) + 1"
  shows "\<exists>S. lp_batch_delete_loop (P @ J @ lp_body (seg_all segs) @ LP_EOF # sl) lp_end (length P)
      (seg_ptrs (length P + length J) segs) =
      Some (P @ lp_body (seg_kept segs) @ LP_EOF # S, length P + length (lp_body (seg_kept segs)) + 1)"
  using assms
proof (induction segs arbitrary: P J)
  case (Cons s segs)
  obtain d ks where s: "s = (d, ks)" by (cases s)
  have d: "lp_entry d" and ks: "\<forall>e \<in> set ks. lp_entry e" using Cons.prems(1) s by auto
  let ?T = "lp_body (seg_all segs) @ LP_EOF # sl"
  let ?m = "(P @ J) @ raw d @ lp_body ks @ ?T" and ?p = "length P + length J"
  have m: "P @ J @ lp_body (seg_all (s # segs)) @ LP_EOF # sl = ?m" using s by simp
  have rd: "rd ?m ?p = Some (hd d)" "hd d \<noteq> LP_EOF"
    using rd_raw [of d "P @ J" "lp_body ks @ ?T"] d by (simp_all add: lp_entry_def)
  have skip: "lpSkip ?m ?p = Some (?p + length (raw d))"
    using lpSkip_raw [OF d, of "P @ J" "lp_body ks @ ?T"] by simp
  show ?case
  proof (cases "segs = []")
    case True
    have "memmove ?m (length P) (?p + length (raw d)) (length (lp_body ks) + 1) =
        Some (P @ (lp_body ks @ [LP_EOF]) @ drop (length (lp_body ks @ [LP_EOF])) ((J @ raw d) @ (lp_body ks @ [LP_EOF]) @ sl))"
      using close_gap [of P "J @ raw d" "lp_body ks @ [LP_EOF]" sl] True by (simp add: add.assoc)
    then show ?thesis using True s rd skip Cons.prems(3) unfolding m by (simp add: Let_def)
  next
    case False
    then have all: "\<forall>e \<in> set (seg_all segs). lp_entry e" using Cons.prems(1) s by auto
    let ?q = "?p + length (raw d) + length (lp_body ks)"
    obtain d2 ks2 segs2 where s2: "segs = (d2, ks2) # segs2" using False by (cases segs) auto
    show ?thesis
    proof (cases "ks = []")
      case True
      obtain S where "lp_batch_delete_loop (P @ (J @ raw d) @ lp_body (seg_all segs) @ LP_EOF # sl) lp_end (length P)
          (seg_ptrs (length P + length (J @ raw d)) segs) =
          Some (P @ lp_body (seg_kept segs) @ LP_EOF # S, length P + length (lp_body (seg_kept segs)) + 1)"
        using Cons.IH [OF all False, of P "J @ raw d"] Cons.prems(3) s True by auto
      then show ?thesis using True s s2 rd skip unfolding m by (simp add: Let_def add.assoc)
    next
      case k: False
      then have ne: "lp_body ks \<noteq> []" using lp_body_kept_empty [OF ks] by simp
      define J' where "J' = drop (length (lp_body ks)) (J @ raw d @ lp_body ks)"
      have J': "length J' = length J + length (raw d)" by (simp add: J'_def)
      have "drop (length (lp_body ks)) ((J @ raw d) @ lp_body ks @ ?T) = J' @ ?T" by (simp add: J'_def)
      then have mv: "memmove ?m (length P) (?p + length (raw d)) (length (lp_body ks)) = Some (P @ lp_body ks @ J' @ ?T)"
        using close_gap [of P "J @ raw d" "lp_body ks" ?T] by (simp add: add.assoc)
      obtain S where "lp_batch_delete_loop ((P @ lp_body ks) @ J' @ ?T) lp_end (length (P @ lp_body ks))
          (seg_ptrs (length (P @ lp_body ks) + length J') segs) =
          Some ((P @ lp_body ks) @ lp_body (seg_kept segs) @ LP_EOF # S,
            length (P @ lp_body ks) + length (lp_body (seg_kept segs)) + 1)"
        using Cons.IH [OF all False, of "P @ lp_body ks" J'] Cons.prems(3) s J' by auto
      moreover have "length (P @ lp_body ks) + length J' = ?q" using J' by simp
      ultimately have rec: "lp_batch_delete_loop (P @ lp_body ks @ J' @ ?T) lp_end (length P + length (lp_body ks))
          (seg_ptrs ?q segs) =
          Some (P @ lp_body (seg_kept (s # segs)) @ LP_EOF # S, length P + length (lp_body (seg_kept (s # segs))) + 1)"
        using s by (simp add: ac_simps)
      obtain ps where ptrs: "seg_ptrs ?p (s # segs) = ?p # ?q # ps" "seg_ptrs ?q segs = ?q # ps"
        using s s2 by simp
      have "lp_batch_delete_loop ?m lp_end (length P) (?p # ?q # ps) =
          lp_batch_delete_loop (P @ lp_body ks @ J' @ ?T) lp_end (length P + length (lp_body ks)) (?q # ps)"
        using rd skip mv ne by (subst lp_batch_delete_loop.simps) (simp add: Let_def)
      then show ?thesis using rec unfolding m ptrs by metis
    qed
  qed
qed simp

lemma lpBatchDelete_image:
  assumes wf: "lp_wf n (K @ seg_all segs)"
  shows "\<exists>sl'. lpBatchDelete (lp_image n (K @ seg_all segs) sl) (seg_ptrs (lp_off K) segs) =
    Some (lp_image (count_sub n (length segs)) (K @ seg_kept segs) sl') \<and>
    lp_wf (count_sub n (length segs)) (K @ seg_kept segs)"
proof (cases "segs = []")
  case True
  then show ?thesis using wf by (auto simp: lpBatchDelete_def count_sub_def)
next
  case False
  let ?m = "lp_image n (K @ seg_all segs) sl" and ?P = "lp_hdr (lp_size (K @ seg_all segs)) n @ lp_body K"
  let ?k = "length segs"
  have ok: "\<forall>e \<in> set (seg_all segs). lp_entry e" using wf by (simp add: lp_wf_def)
  have endp: "lp_size (K @ seg_all segs) = length ?P + length [] + length (lp_body (seg_all segs)) + 1"
    by (simp add: lp_size_def)
  obtain S where loop: "lp_batch_delete_loop ?m (lp_size (K @ seg_all segs)) (lp_off K) (seg_ptrs (lp_off K) segs) =
      Some (lp_hdr (lp_size (K @ seg_all segs)) n @ lp_body K @ lp_body (seg_kept segs) @ LP_EOF # S,
        lp_size (K @ seg_kept segs))"
    using lp_batch_delete_loop_segs [OF ok False endp, of sl]
    by (auto simp: lp_image_def lp_off_def lp_size_def add.assoc)
  have kept: "length (lp_body (seg_kept segs)) \<le> length (lp_body (seg_all segs))"
    "length (seg_all segs) = length (seg_kept segs) + ?k" "set (seg_kept segs) \<subseteq> set (seg_all segs)"
    by (induction segs) auto
  then have small: "lp_size (K @ seg_kept segs) \<le> lp_size (K @ seg_all segs)" by (simp add: lp_size_def)
  have wf': "lp_wf (count_sub n ?k) (K @ seg_kept segs)"
    using wf kept by (auto simp: lp_wf_def count_sub_def lp_size_def)
  have eof1: "rd_back ?m (lp_size (K @ seg_all segs)) 1 = Some LP_EOF"
    using rd_eof [of n "K @ seg_all segs" sl] by (simp add: rd_back_def lp_size_off)
  have eof2: "rd_back (lp_hdr t n @ lp_body K @ lp_body (seg_kept segs) @ LP_EOF # S) (lp_size (K @ seg_kept segs)) 1
      = Some LP_EOF" for t
    using rd_gap [of t n "K @ seg_kept segs" "LP_EOF # S"] by (simp add: rd_back_def lp_size_off rd_def)
  have dl: "lp_size (K @ seg_all segs) - (lp_size (K @ seg_all segs) - lp_size (K @ seg_kept segs))
      = lp_size (K @ seg_kept segs)" using small by simp
  have e: "(if n \<noteq> LP_HDR_NUMELE_UNKNOWN then lpSetNumElements (lp_hdr t n @ X) (int n - int ?k)
      else Some (lp_hdr t n @ X)) = Some (lp_hdr t (count_sub n ?k) @ X)" for t X
    using lpSetNumElements_hdr [of t n X "n - ?k"] wf kept(2)
    by (auto simp: count_sub_def lp_wf_def of_nat_diff)
  have cnt: "lp_set_counts (lp_hdr t n @ lp_body K @ lp_body (seg_kept segs) @ LP_EOF # S)
      (int (lp_size (K @ seg_kept segs))) ?k = Some (lp_image (count_sub n ?k) (K @ seg_kept segs) [])" for t
    unfolding lp_set_counts_def lpSetTotalBytes_hdr lpGetNumElements_hdr [OF lp_wf_count [OF wf]]
      bind.bind_lunit e using lpShrinkToFit_image [OF wf', of S] by (simp add: image_fold)
  obtain ps where ps: "seg_ptrs (lp_off K) segs = lp_off K # ps" "Suc (length ps) = ?k"
    using False by (cases segs) auto
  have "lpBatchDelete ?m (seg_ptrs (lp_off K) segs) = Some (lp_image (count_sub n ?k) (K @ seg_kept segs) [])"
    unfolding lpBatchDelete_def ps(1) list.case lpGetTotalBytes_image [OF wf] Let_def bind.bind_lunit
      eof1 loop [unfolded ps(1)] prod.case dl eof2
    using cnt ps(2) by simp
  then show ?thesis using wf' by blast
qed

text \<open>Every increasing list of indices cuts a list in this way.\<close>

lemma seg_ptrs_shift: "seg_ptrs (off + c) segs = map (\<lambda>p. p + c) (seg_ptrs off segs)"
  by (induction off segs rule: seg_ptrs.induct) (simp_all add: ac_simps)

lemma lp_off_Cons: "lp_off (e # es) = lp_off es + length (raw e)"
  by (simp add: lp_off_def)

lemma sorted_Suc_indices:
  assumes "sorted_wrt (<) (is :: nat list)"
  obtains js where "is = map Suc js" "sorted_wrt (<) js" | js where "is = 0 # map Suc js" "sorted_wrt (<) js"
proof -
  have pos: "\<exists>js. ks = map Suc js \<and> sorted_wrt (<) js" if "sorted_wrt (<) ks" "0 \<notin> set ks" for ks :: "nat list"
  proof -
    have "Suc (x - 1) = x" if "x \<in> set ks" for x
      using that \<open>0 \<notin> set ks\<close> by (cases "x = 0") auto
    then have ks: "ks = map Suc (map (\<lambda>i. i - 1) ks)" by (simp add: comp_def map_idI)
    then have "sorted_wrt (<) (map Suc (map (\<lambda>i. i - 1) ks))" using that(1) by simp
    then have "sorted_wrt (<) (map (\<lambda>i. i - 1) ks)" by (simp only: sorted_wrt_map Suc_less_eq)
    with ks show ?thesis by blast
  qed
  show thesis
  proof (cases "0 \<in> set is")
    case True
    then obtain ks where "is = 0 # ks" using assms by (cases "is") auto
    then show thesis using assms pos [of ks] that(2) by auto
  qed (use pos assms that(1) in blast)
qed

lemma segs_of_indices:
  assumes "sorted_wrt (<) is" "\<forall>i \<in> set is. i < length es"
  shows "\<exists>K segs. es = K @ seg_all segs \<and> map (\<lambda>i. lp_off (take i es)) is = seg_ptrs (lp_off K) segs \<and>
    nths es (- set is) = K @ seg_kept segs"
  using assms
proof (induction es arbitrary: "is")
  case Nil
  then have "is = []" by (cases "is") auto
  then show ?case by (intro exI [of _ "[]"]) simp
next
  case (Cons e es)
  have IH: "\<exists>K segs. es = K @ seg_all segs \<and> map (\<lambda>i. lp_off (take i es)) js = seg_ptrs (lp_off K) segs \<and>
      nths es (- set js) = K @ seg_kept segs"
    if "sorted_wrt (<) js" "Suc ` set js \<subseteq> set is" for js
    using that Cons.prems(2) by (intro Cons.IH) auto
  have sets: "{j. Suc j \<in> - Suc ` J} = - J" "{j. Suc j \<notin> Suc ` J} = - J" for J by auto
  from Cons.prems(1) show ?case
  proof (cases rule: sorted_Suc_indices)
    case (1 js)
    have "Suc ` set js \<subseteq> set is" using 1(1) by auto
    obtain K segs where IH': "es = K @ seg_all segs" "map (\<lambda>i. lp_off (take i es)) js = seg_ptrs (lp_off K) segs"
      "nths es (- set js) = K @ seg_kept segs" using IH [OF 1(2)] \<open>Suc ` set js \<subseteq> set is\<close> by blast
    have "map (\<lambda>i. lp_off (take i (e # es))) is = seg_ptrs (lp_off (e # K)) segs"
      using 1(1) arg_cong [OF IH'(2), of "map (\<lambda>p. p + length (raw e))"]
      by (simp add: comp_def lp_off_Cons seg_ptrs_shift)
    moreover have "nths (e # es) (- set is) = (e # K) @ seg_kept segs"
      using 1(1) IH'(3) by (simp add: nths_Cons sets)
    ultimately show ?thesis using IH'(1) by (intro exI [of _ "e # K"] exI [of _ segs]) simp
  next
    case (2 js)
    have "Suc ` set js \<subseteq> set is" using 2(1) by auto
    obtain K segs where IH': "es = K @ seg_all segs" "map (\<lambda>i. lp_off (take i es)) js = seg_ptrs (lp_off K) segs"
      "nths es (- set js) = K @ seg_kept segs" using IH [OF 2(2)] \<open>Suc ` set js \<subseteq> set is\<close> by blast
    have "map (\<lambda>i. lp_off (take i (e # es))) is = seg_ptrs (lp_off []) ((e, K) # segs)"
      using 2(1) arg_cong [OF IH'(2), of "map (\<lambda>p. p + length (raw e))"]
      by (simp add: comp_def lp_off_Cons seg_ptrs_shift [symmetric]) (simp add: lp_off_def ac_simps)
    moreover have "nths (e # es) (- set is) = [] @ seg_kept ((e, K) # segs)"
      using 2(1) IH'(3) by (simp add: nths_Cons sets)
    ultimately show ?thesis using IH'(1)
      by (intro exI [of _ "[]"] exI [of _ "(e, K) # segs"]) simp
  qed
qed

subsection \<open>Merging\<close>

lemma realloc_grow:
  assumes "length A \<le> k"
  obtains S where "realloc (A @ X) k = A @ S" "length S = k - length A"
proof
  show "realloc (A @ X) k = A @ (take (k - length A) X @ replicate (k - length (A @ X)) 0)"
    using assms by (simp add: realloc_def)
qed auto

lemma lpMerge_image:
  assumes wf1: "lp_wf n1 xs" and wf2: "lp_wf n2 ys" and small: "lp_size (xs @ ys) < UINT32_MAX"
  shows "\<exists>n. lpMerge (Some (lp_image n1 xs sl1)) (Some (lp_image n2 ys sl2)) False =
      Some (Some (lp_image n (xs @ ys) [], lp_size ys \<le> lp_size xs)) \<and> lp_wf n (xs @ ys)"
proof -
  obtain k1 where l1: "lp_wf k1 xs" "lpLength (lp_image n1 xs sl1) = Some (lp_image k1 xs sl1, length xs)"
    using lpLength_image [OF wf1] by blast
  obtain k2 where l2: "lp_wf k2 ys" "lpLength (lp_image n2 ys sl2) = Some (lp_image k2 ys sl2, length ys)"
    using lpLength_image [OF wf2] by blast
  define N where "N = (if length xs + length ys < 65535 then length xs + length ys else 65535)"
  have wf: "lp_wf N (xs @ ys)"
    using wf1 wf2 small by (auto simp: lp_wf_def N_def LP_HDR_NUMELE_UNKNOWN_def UINT32_MAX_def)
  have tot: "lp_size xs + lp_size ys - LP_HDR_SIZE - 1 = lp_size (xs @ ys)"
    "lp_size xs + lp_size ys - Suc LP_HDR_SIZE = lp_size (xs @ ys)" by (simp_all add: lp_size_def)
  note bts = lpBytes_def lpGetTotalBytes_image [OF wf1] lpGetTotalBytes_image [OF wf2]
  have fin: "lpSetNumElements (lp_hdr t k @ X) (int N) \<bind> (\<lambda>m. lpSetTotalBytes m (int (lp_size (xs @ ys))) \<bind> f) =
      f (lp_hdr (lp_size (xs @ ys)) N @ X)" for t k X and f :: "bytes \<Rightarrow> (bytes \<times> bool) option option"
    by (simp add: lpSetNumElements_hdr lpSetTotalBytes_hdr)
  show ?thesis
  proof (cases "lp_size ys \<le> lp_size xs")
    case True
    obtain S where S: "realloc (lp_image k1 xs sl1) (lp_size (xs @ ys)) = (lp_hdr (lp_size xs) k1 @ lp_body xs) @ S"
      "length S = lp_size (xs @ ys) - length (lp_hdr (lp_size xs) k1 @ lp_body xs)"
      using realloc_grow [of "lp_hdr (lp_size xs) k1 @ lp_body xs" "lp_size (xs @ ys)" "LP_EOF # sl1"]
      by (auto simp: lp_image_def lp_size_def)
    have rd: "rdn (lp_image k2 ys sl2) LP_HDR_SIZE (lp_size ys - LP_HDR_SIZE) = Some (lp_body ys @ [LP_EOF])"
      by (simp add: rdn_def slice_def lp_image_def lp_size_def)
    have wr: "wrn (realloc (lp_image k1 xs sl1) (lp_size (xs @ ys))) (lp_size xs - 1) (lp_body ys @ [LP_EOF]) =
        Some (lp_hdr (lp_size xs) k1 @ lp_body xs @ lp_body ys @ [LP_EOF])"
      unfolding S(1) using S(2) by (simp add: wrn_def splice_at_def lp_size_def)
    have "lpMerge (Some (lp_image n1 xs sl1)) (Some (lp_image n2 ys sl2)) False =
        Some (Some (lp_image N (xs @ ys) [], True))"
      using small True
      by (simp add: lpMerge_def bts l1(2) l2(2) tot N_def [symmetric] Let_def rd wr [simplified] fin)
         (simp add: lp_image_def)
    then show ?thesis using wf True by auto
  next
    case False
    obtain S where S: "realloc (lp_image k2 ys sl2) (lp_size (xs @ ys)) = (lp_hdr (lp_size ys) k2 @ lp_body ys @ [LP_EOF]) @ S"
      "length S = lp_size (xs @ ys) - length (lp_hdr (lp_size ys) k2 @ lp_body ys @ [LP_EOF])"
      using realloc_grow [of "lp_hdr (lp_size ys) k2 @ lp_body ys @ [LP_EOF]" "lp_size (xs @ ys)" sl2]
      by (auto simp: lp_image_def lp_size_def)
    define M where "M = splice_at (realloc (lp_image k2 ys sl2) (lp_size (xs @ ys))) (lp_size xs - 1) (lp_body ys @ [LP_EOF])"
    have mv: "memmove (realloc (lp_image k2 ys sl2) (lp_size (xs @ ys))) (lp_size xs - 1) LP_HDR_SIZE (lp_size ys - LP_HDR_SIZE) = Some M"
      unfolding M_def S(1) using S(2) by (simp add: memmove_def rdn_def slice_def wrn_def lp_size_def)
    have rd: "rdn (lp_image k1 xs sl1) 0 (lp_size xs - 1) = Some (lp_hdr (lp_size xs) k1 @ lp_body xs)"
      by (simp add: rdn_def slice_def lp_image_def lp_size_def)
    have wr: "wrn M 0 (lp_hdr (lp_size xs) k1 @ lp_body xs) =
        Some (lp_hdr (lp_size xs) k1 @ lp_body xs @ lp_body ys @ [LP_EOF])"
      by (simp add: M_def wrn_def splice_at_def lp_size_def)
    have "lpMerge (Some (lp_image n1 xs sl1)) (Some (lp_image n2 ys sl2)) False =
        Some (Some (lp_image N (xs @ ys) [], False))"
      using small False
      by (simp add: lpMerge_def bts l1(2) l2(2) tot N_def [symmetric] Let_def mv [simplified] rd [simplified] wr [simplified] fin)
         (simp add: lp_image_def)
    then show ?thesis using wf False by auto
  qed
qed

end
