(* ===== verification/Listpack_Spec.thy ===== *)
theory Listpack_Spec
  imports Listpack_Ops
begin

text \<open>
  What the updates of a listpack (\<^verbatim>\<open>src/redis-stable/src/listpack.c\<close>, modelled in \<open>Listpack_Ops\<close>) do to
  the list of its elements. The specification is a list of \<open>lp_elem\<close>; \<open>lp_rep m xs\<close> relates an
  allocation to it. An update either gives an allocation that represents the updated list, or returns
  NULL, exactly when the result would need more than \<^verbatim>\<open>UINT32_MAX\<close> bytes.
\<close>

section \<open>Specification\<close>

definition lp_fits :: "lp_elem list \<Rightarrow> bool" where
  "lp_fits xs \<longleftrightarrow> lp_size (enc_all xs) \<le> UINT32_MAX"

definition lp_put :: "lp_where \<Rightarrow> nat \<Rightarrow> lp_elem list \<Rightarrow> lp_elem list \<Rightarrow> lp_elem list" where
  "lp_put wh i ins xs =
     (case wh of
        LP_BEFORE \<Rightarrow> take i xs @ ins @ drop i xs
      | LP_AFTER \<Rightarrow> take (Suc i) xs @ ins @ drop (Suc i) xs
      | LP_REPLACE \<Rightarrow> take i xs @ ins @ drop (Suc i) xs)"

definition lp_put_idx :: "lp_where \<Rightarrow> nat \<Rightarrow> nat" where
  "lp_put_idx wh i = (if wh = LP_AFTER then Suc i else i)"

text \<open>A pointer argument that may be passed with \<open>wh\<close>: an element, or the end when inserting before.\<close>

definition lp_place :: "lp_where \<Rightarrow> nat \<Rightarrow> lp_elem list \<Rightarrow> bool" where
  "lp_place wh i xs \<longleftrightarrow> i < length xs \<or> wh = LP_BEFORE \<and> i = length xs"

section \<open>The updates on represented lists\<close>

lemma elem_ok_of_str: "length s < 2 ^ 32 - 5 \<Longrightarrow> elem_ok (elem_of_str s)"
  using string2ll_sound by (auto simp: elem_of_str_def lpStringToInt64_eq split: option.split)

lemma lp_rep_intro:
  "lp_wf n (enc_all xs) \<Longrightarrow> \<forall>x \<in> set xs. elem_ok x \<Longrightarrow> lp_rep (lp_image n (enc_all xs) sl) xs"
  by (auto simp: lp_rep_def)

lemma lp_fits_iff: "lp_size (enc_all xs) > UINT32_MAX \<longleftrightarrow> \<not> lp_fits xs"
  by (auto simp: lp_fits_def)

lemma lp_entry_enc_all: "\<forall>x \<in> set xs. elem_ok x \<Longrightarrow> \<forall>e \<in> set (enc_all xs). lp_entry e"
  by (auto intro: lp_entry_enc_elem)

lemma lp_at_append: "length us = k \<Longrightarrow> lp_at (us @ vs) k = lp_off (enc_all us)"
  by (simp add: lp_at_def)

text \<open>Every listpack represented is cut at an index into the images the byte-level lemmas are about.\<close>

lemma lp_rep_cut:
  assumes "lp_rep m xs" "i \<le> length xs"
  obtains n sl us vs where "xs = us @ vs" "length us = i" "us = take i xs" "vs = drop i xs"
    "m = lp_image n (enc_all us @ enc_all vs) sl"
    "lp_wf n (enc_all us @ enc_all vs)" "\<forall>x \<in> set xs. elem_ok x" "lp_at xs i = lp_off (enc_all us)"
proof -
  obtain n sl where "m = lp_image n (enc_all xs) sl" "lp_wf n (enc_all xs)" "\<forall>x \<in> set xs. elem_ok x"
    using assms(1) by (rule lp_repE)
  then show thesis using assms(2)
    by (intro that [of "take i xs" "drop i xs" n sl]) (simp_all add: enc_all_split lp_at_def del: map_append)
qed

lemma insert_before_rep:
  assumes "lp_rep m xs" "i \<le> length xs" "elem_ok x"
  shows "if lp_fits (take i xs @ x # drop i xs)
    then \<exists>m'. lp_insert_core m False (enc_elem x) (length (enc_elem x)) (lp_at xs i) LP_BEFORE =
      Some (Some (m', Some (lp_at xs i))) \<and> lp_rep m' (take i xs @ x # drop i xs)
    else lp_insert_core m False (enc_elem x) (length (enc_elem x)) (lp_at xs i) LP_BEFORE = Some None"
proof -
  obtain n sl us vs where f: "xs = us @ vs" "length us = i" "us = take i xs" "vs = drop i xs"
    "m = lp_image n (enc_all us @ enc_all vs) sl" "lp_wf n (enc_all us @ enc_all vs)"
    "\<forall>x \<in> set xs. elem_ok x" "lp_at xs i = lp_off (enc_all us)"
    using assms(1,2) by (rule lp_rep_cut)
  have "\<exists>sl'. lp_insert_core m False (enc_elem x) (length (enc_elem x)) (lp_at xs i) LP_BEFORE =
      Some (if lp_size (enc_all (us @ x # vs)) > UINT32_MAX then None
            else Some (lp_image (count_up n) (enc_all (us @ x # vs)) sl', Some (lp_at xs i)))"
    using insert_core_before [OF f(6), of sl "enc_elem x"] f(5,8) by (simp cong: if_cong split del: if_split)
  then obtain sl' where ins: "lp_insert_core m False (enc_elem x) (length (enc_elem x)) (lp_at xs i) LP_BEFORE =
      Some (if lp_size (enc_all (us @ x # vs)) > UINT32_MAX then None
            else Some (lp_image (count_up n) (enc_all (us @ x # vs)) sl', Some (lp_at xs i)))" ..
  have "lp_fits (us @ x # vs) \<Longrightarrow> lp_wf (count_up n) (enc_all (us @ x # vs))"
    using lp_wf_insert [OF f(6) lp_entry_enc_elem [OF assms(3)]] by (simp add: lp_fits_def)
  then have "lp_fits (us @ x # vs) \<Longrightarrow> lp_rep (lp_image (count_up n) (enc_all (us @ x # vs)) sl') (us @ x # vs)"
    using f(1,7) assms(3) by (intro lp_rep_intro) auto
  then show ?thesis unfolding f(3,4) [symmetric] using ins by (auto simp: lp_fits_def simp del: map_append)
qed

lemma insert_replace_rep:
  assumes "lp_rep m xs" "i < length xs" "elem_ok x"
  shows "if lp_fits (take i xs @ x # drop (Suc i) xs)
    then \<exists>m'. lp_insert_core m False (enc_elem x) (length (enc_elem x)) (lp_at xs i) LP_REPLACE =
      Some (Some (m', Some (lp_at xs i))) \<and> lp_rep m' (take i xs @ x # drop (Suc i) xs)
    else lp_insert_core m False (enc_elem x) (length (enc_elem x)) (lp_at xs i) LP_REPLACE = Some None"
proof -
  obtain n sl us vs where f: "xs = us @ vs" "length us = i" "us = take i xs" "vs = drop i xs"
    "m = lp_image n (enc_all us @ enc_all vs) sl" "lp_wf n (enc_all us @ enc_all vs)"
    "\<forall>x \<in> set xs. elem_ok x" "lp_at xs i = lp_off (enc_all us)"
    using assms(1) less_imp_le [OF assms(2)] by (rule lp_rep_cut)
  define ws where "ws = drop (Suc i) xs"
  have vs: "vs = xs ! i # ws" using f(4) assms(2) by (simp add: Cons_nth_drop_Suc ws_def)
  have wf: "lp_wf n (enc_all us @ enc_elem (xs ! i) # enc_all ws)" using f(6) vs by simp
  have sub: "set us \<union> set ws \<subseteq> set xs" by (subst f(1)) (auto simp: vs)
  have "\<exists>sl'. lp_insert_core m False (enc_elem x) (length (enc_elem x)) (lp_at xs i) LP_REPLACE =
      Some (if lp_size (enc_all (us @ x # ws)) > UINT32_MAX then None
            else Some (lp_image n (enc_all (us @ x # ws)) sl', Some (lp_at xs i)))"
    using insert_core_replace [OF wf, of sl "enc_elem x"] f(5,8) vs by (simp cong: if_cong split del: if_split)
  then obtain sl' where ins: "lp_insert_core m False (enc_elem x) (length (enc_elem x)) (lp_at xs i) LP_REPLACE =
      Some (if lp_size (enc_all (us @ x # ws)) > UINT32_MAX then None
            else Some (lp_image n (enc_all (us @ x # ws)) sl', Some (lp_at xs i)))" ..
  have "lp_fits (us @ x # ws) \<Longrightarrow> lp_wf n (enc_all (us @ x # ws))"
    using lp_wf_replace [OF wf lp_entry_enc_elem [OF assms(3)]] by (simp add: lp_fits_def)
  then have "lp_fits (us @ x # ws) \<Longrightarrow> lp_rep (lp_image n (enc_all (us @ x # ws)) sl') (us @ x # ws)"
    using f(7) sub assms(3) by (intro lp_rep_intro) auto
  then show ?thesis unfolding f(3) [symmetric] ws_def [symmetric] using ins
    by (auto simp: lp_fits_def simp del: map_append)
qed

lemma lpSkip_rep:
  assumes "lp_rep m xs" "i < length xs"
  shows "lpSkip m (lp_at xs i) = Some (lp_at xs (Suc i))" "ASSERT_INTEGRITY m (lp_at xs (Suc i)) = Some ()"
proof -
  obtain n sl where m: "m = lp_image n (enc_all xs) sl" "lp_wf n (enc_all xs)"
    using assms(1) by (rule lp_repE)
  have "enc_all (take i xs) @ [enc_elem (xs ! i)] = enc_all (take (Suc i) xs)"
    using assms(2) by (simp add: take_Suc_conv_app_nth)
  then show "lpSkip m (lp_at xs i) = Some (lp_at xs (Suc i))"
    using image_entry(2) [of "enc_elem (xs ! i)" n "enc_all (take i xs)" "enc_all (drop (Suc i) xs)" sl]
      m enc_all_focus [OF assms(2)] by (auto simp: lp_wf_def lp_at_def)
  have "lp_off (enc_all (take (Suc i) xs)) \<le> lp_off (enc_all xs)"
    using arg_cong [OF enc_all_split [of "Suc i" xs], of lp_off] by (simp add: lp_off_def del: map_append) 
  then show "ASSERT_INTEGRITY m (lp_at xs (Suc i)) = Some ()"
    using lpGetTotalBytes_image [OF m(2), of sl] m(1)
    by (simp add: ASSERT_INTEGRITY_def lp_at_def lp_size_off lp_off_def lp_out_of_range_def)
qed

lemma lpInsert_rep:
  assumes "lp_rep m xs" "lp_arg elestr eleint (enc_elem x)" "elem_ok x" "lp_place wh i xs"
  shows "if lp_fits (lp_put wh i [x] xs)
    then \<exists>m'. lpInsert m elestr eleint (lp_at xs i) wh = Some (Some (m', Some (lp_at xs (lp_put_idx wh i)))) \<and>
      lp_rep m' (lp_put wh i [x] xs)
    else lpInsert m elestr eleint (lp_at xs i) wh = Some None"
proof (cases wh)
  case LP_BEFORE
  then show ?thesis using insert_before_rep [OF assms(1) _ assms(3), of i] assms(4)
    by (auto simp: lpInsert_core(1) [OF assms(2)] lp_put_def lp_put_idx_def lp_place_def)
next
  case LP_AFTER
  then have i: "i < length xs" using assms(4) by (simp add: lp_place_def)
  then show ?thesis using LP_AFTER insert_before_rep [OF assms(1) _ assms(3), of "Suc i"]
    by (simp add: lpInsert_core(3) [OF assms(2)] lp_put_def lp_put_idx_def lpSkip_rep [OF assms(1) i])
next
  case LP_REPLACE
  then show ?thesis using insert_replace_rep [OF assms(1) _ assms(3), of i] assms(4)
    by (simp add: lpInsert_core(2) [OF assms(2)] lp_put_def lp_put_idx_def lp_place_def)
qed

lemma lpDelete_rep:
  assumes "lp_rep m xs" "i < length xs"
  shows "\<exists>m'. lpDelete m (lp_at xs i) =
      Some (Some (m', if Suc i < length xs then Some (lp_at xs i) else None)) \<and>
    lp_rep m' (take i xs @ drop (Suc i) xs)"
proof -
  obtain n sl us vs where f: "xs = us @ vs" "length us = i" "us = take i xs" "vs = drop i xs"
    "m = lp_image n (enc_all us @ enc_all vs) sl" "lp_wf n (enc_all us @ enc_all vs)"
    "\<forall>x \<in> set xs. elem_ok x" "lp_at xs i = lp_off (enc_all us)"
    using assms(1) less_imp_le [OF assms(2)] by (rule lp_rep_cut)
  define ws where "ws = drop (Suc i) xs"
  have vs: "vs = xs ! i # ws" using f(4) assms(2) by (simp add: Cons_nth_drop_Suc ws_def)
  have wf: "lp_wf n (enc_all us @ enc_elem (xs ! i) # enc_all ws)" using f(6) vs by simp
  have sub: "set us \<union> set ws \<subseteq> set xs" by (subst f(1)) (auto simp: vs)
  have "\<exists>sl'. lpDelete m (lp_at xs i) =
      Some (Some (lp_image (count_down n) (enc_all (us @ ws)) sl', lp_ptr (enc_all us) (enc_all ws)))"
    using insert_core_delete [OF wf, of sl] f(5,8) vs by (simp add: lpDelete_def lpInsert_def)
  moreover have "lp_rep (lp_image (count_down n) (enc_all (us @ ws)) sl') (us @ ws)" for sl'
    using lp_wf_delete [OF wf] f(7) sub by (intro lp_rep_intro) auto
  moreover have "lp_ptr (enc_all us) (enc_all ws) = (if Suc i < length xs then Some (lp_at xs i) else None)"
    by (simp add: lp_ptr_def f(8) ws_def)
  ultimately show ?thesis unfolding f(3) [symmetric] ws_def [symmetric] by auto
qed

lemma lpBatchInsert_rep:
  assumes "lp_rep m xs" "es \<noteq> []" "\<forall>e \<in> set es. elem_ok (elem_of_entry e)"
    and "lp_place wh i xs" "wh \<noteq> LP_REPLACE" and bytes: "lp_size (map entry_payload es) < 2 ^ 63"
  defines "ys \<equiv> lp_put wh i (map elem_of_entry es) xs"
  shows "if lp_fits ys
    then \<exists>m' q. lpBatchInsert m (lp_at xs i) wh es (length es) = Some (Some (m', Some q)) \<and>
      q = lp_at ys (lp_put_idx wh i + length es - 1) \<and> lp_rep m' ys
    else lpBatchInsert m (lp_at xs i) wh es (length es) = Some None"
proof -
  let ?j = "lp_put_idx wh i" and ?is = "map elem_of_entry es"
  have j: "?j \<le> length xs" using assms(4) by (auto simp: lp_place_def lp_put_idx_def)
  have red: "lpBatchInsert m (lp_at xs i) wh es (length es) = lpBatchInsert m (lp_at xs ?j) LP_BEFORE es (length es)"
    using assms(4,5) lpSkip_rep [OF assms(1), of i]
    by (cases wh) (auto simp: lpBatchInsert_def lp_put_idx_def lp_place_def)
  obtain n sl us vs where f: "xs = us @ vs" "length us = ?j" "us = take ?j xs" "vs = drop ?j xs"
    "m = lp_image n (enc_all us @ enc_all vs) sl" "lp_wf n (enc_all us @ enc_all vs)"
    "\<forall>x \<in> set xs. elem_ok x" "lp_at xs ?j = lp_off (enc_all us)"
    using assms(1) j by (rule lp_rep_cut)
  have ys: "ys = us @ ?is @ vs"
    using assms(5) f(3,4) by (cases wh) (simp_all add: ys_def lp_put_def lp_put_idx_def)
  have pay: "map entry_payload es = enc_all ?is" by (simp add: comp_def)
  have q: "lp_off (enc_all us @ butlast (enc_all ?is)) = lp_at ys (?j + length es - 1)"
    using assms(2) f(2) by (cases es rule: rev_cases) (simp_all add: ys lp_at_def butlast_append)
  have "\<exists>sl'. lpBatchInsert m (lp_at xs i) wh es (length es) =
      Some (if lp_size (enc_all ys) > UINT32_MAX then None
            else Some (lp_image (count_add n (length es)) (enc_all ys) sl', Some (lp_at ys (?j + length es - 1))))"
    using lpBatchInsert_before [OF f(6) assms(2) bytes, of sl] unfolding pay q red f(8) f(5) [symmetric]
    by (simp only: ys map_append)
  then obtain sl' where ins: "lpBatchInsert m (lp_at xs i) wh es (length es) =
      Some (if lp_size (enc_all ys) > UINT32_MAX then None
            else Some (lp_image (count_add n (length es)) (enc_all ys) sl', Some (lp_at ys (?j + length es - 1))))" ..
  have ok: "\<forall>x \<in> set ys. elem_ok x" using f(1,7) assms(3) by (auto simp: ys)
  have "lp_fits ys \<Longrightarrow> lp_wf (count_add n (length es)) (enc_all ys)"
    using lp_wf_add [OF f(6), of "enc_all ?is"] lp_entry_enc_all [OF ok] by (auto simp: lp_fits_def ys)
  then show ?thesis using ins lp_rep_intro [OF _ ok] by (auto simp: lp_fits_def)
qed

lemma lpFirst_rep: "lp_rep m xs \<Longrightarrow> lpFirst m = Some (if xs = [] then None else Some (lp_at xs 0))"
  using lpFirst_image by (auto simp: lp_rep_def lp_ptr_def lp_at_def)

lemma lpSeek_rep:
  assumes "lp_rep m xs"
  shows "lpSeek m index =
    (let i = if index < 0 then int (length xs) + index else index
     in Some (if 0 \<le> i \<and> i < int (length xs) then Some (lp_at xs (nat i)) else None))"
proof -
  obtain n sl where m: "m = lp_image n (enc_all xs) sl" and wf: "lp_wf n (enc_all xs)"
    using assms by (rule lp_repE)
  show ?thesis using lpSeek_image [OF wf, of sl index] m by (simp add: lp_at_def take_map Let_def)
qed

lemma total_bytes_rep: "lp_rep m xs \<Longrightarrow> lpGetTotalBytes m = Some (Suc (lp_at xs (length xs)))"
  using lpGetTotalBytes_image by (auto simp: lp_rep_def lp_at_def lp_size_off)

lemma lpDeleteRange_rep:
  assumes "lp_rep m xs" and k_def: "k = (if i < 0 then int (length xs) + i else i)"
  shows "\<exists>m'. lpDeleteRange m i num = Some m' \<and>
    lp_rep m' (if 0 \<le> k then take (nat k) xs @ drop (nat k + num) xs else xs)"
proof -
  obtain n sl where m: "m = lp_image n (enc_all xs) sl" and wf: "lp_wf n (enc_all xs)" and ok: "\<forall>x \<in> set xs. elem_ok x"
    using assms(1) by (rule lp_repE)
  let ?ys = "if 0 \<le> k then take (nat k) xs @ drop (nat k + num) xs else xs"
  have e: "(if 0 \<le> k then take (nat k) (enc_all xs) @ drop (nat k + num) (enc_all xs) else enc_all xs) = enc_all ?ys"
    by (simp add: take_map drop_map)
  obtain n' sl' where "lpDeleteRange m i num = Some (lp_image n' (enc_all ?ys) sl')" "lp_wf n' (enc_all ?ys)"
    using lpDeleteRange_image [OF wf, of sl i num] unfolding m length_map k_def [symmetric] e by blast
  moreover have "\<forall>x \<in> set ?ys. elem_ok x"
    using ok set_take_subset [of "nat k" xs] set_drop_subset [of "nat k + num" xs] by auto
  ultimately show ?thesis using lp_rep_intro [of n' ?ys sl'] by blast
qed

lemma lpBatchDelete_rep:
  assumes "lp_rep m xs" "sorted_wrt (<) is" "\<forall>i \<in> set is. i < length xs"
  shows "\<exists>m'. lpBatchDelete m (map (lp_at xs) is) = Some m' \<and> lp_rep m' (nths xs (- set is))"
proof -
  obtain n sl where m: "m = lp_image n (enc_all xs) sl" and wf: "lp_wf n (enc_all xs)" and ok: "\<forall>x \<in> set xs. elem_ok x"
    using assms(1) by (rule lp_repE)
  obtain K segs where cut: "enc_all xs = K @ seg_all segs"
    "map (\<lambda>i. lp_off (take i (enc_all xs))) is = seg_ptrs (lp_off K) segs"
    "nths (enc_all xs) (- set is) = K @ seg_kept segs"
    using segs_of_indices [of "is" "enc_all xs"] assms(2,3) by auto
  have ps: "map (lp_at xs) is = seg_ptrs (lp_off K) segs"
    unfolding cut(2) [symmetric] by (simp add: lp_at_def take_map)
  have e: "K @ seg_kept segs = enc_all (nths xs (- set is))" using cut(3) by (simp add: nths_map)
  obtain sl' n' where "lpBatchDelete m (map (lp_at xs) is) = Some (lp_image n' (enc_all (nths xs (- set is))) sl')"
    "lp_wf n' (enc_all (nths xs (- set is)))"
    using lpBatchDelete_image [OF wf [unfolded cut(1)], of sl] unfolding ps m cut(1) e by blast
  moreover have "\<forall>x \<in> set (nths xs (- set is)). elem_ok x" using ok notin_set_nthsI by (metis in_set_nthsD)
  ultimately show ?thesis by (auto intro: lp_rep_intro)
qed

section \<open>Clients\<close>

text \<open>
  A client of the listpack: it finds its elements by index with \<^verbatim>\<open>lpSeek\<close>, calls one operation and
  keeps the old listpack when NULL is returned.
\<close>

datatype lp_op =
    OpInsert int lp_where bytes
  | OpInsertInteger int lp_where int
  | OpAppend bytes
  | OpAppendInteger int
  | OpPrepend bytes
  | OpPrependInteger int
  | OpDelete int
  | OpDeleteRange int nat
  | OpBatchInsert int bool "listpackEntry list"
  | OpBatchAppend "listpackEntry list"

definition keep_null :: "bytes \<Rightarrow> bytes option option \<Rightarrow> bytes option" where
  "keep_null m r = map_option (\<lambda>r. case r of None \<Rightarrow> m | Some m' \<Rightarrow> m') r"

definition at_index :: "bytes \<Rightarrow> int \<Rightarrow> (nat \<Rightarrow> bytes option option) \<Rightarrow> bytes option" where
  "at_index m index f =
     do { p \<leftarrow> lpSeek m index; (case p of None \<Rightarrow> Some m | Some p \<Rightarrow> keep_null m (f p)) }"

fun lp_exec :: "lp_op \<Rightarrow> bytes \<Rightarrow> bytes option" where
  "lp_exec (OpInsert i wh s) m = at_index m i (\<lambda>p. no_newp (lpInsertString m s p wh))"
| "lp_exec (OpInsertInteger i wh v) m = at_index m i (\<lambda>p. no_newp (lpInsertInteger m v p wh))"
| "lp_exec (OpAppend s) m = keep_null m (lpAppend m s)"
| "lp_exec (OpAppendInteger v) m = keep_null m (lpAppendInteger m v)"
| "lp_exec (OpPrepend s) m = keep_null m (lpPrepend m s)"
| "lp_exec (OpPrependInteger v) m = keep_null m (lpPrependInteger m v)"
| "lp_exec (OpDelete i) m = at_index m i (\<lambda>p. no_newp (lpDelete m p))"
| "lp_exec (OpDeleteRange i num) m = lpDeleteRange m i num"
| "lp_exec (OpBatchInsert i after es) m =
     at_index m i (\<lambda>p. no_newp (lpBatchInsert m p (if after then LP_AFTER else LP_BEFORE) es (length es)))"
| "lp_exec (OpBatchAppend es) m = keep_null m (lpBatchAppend m es (length es))"

fun lp_run :: "lp_op list \<Rightarrow> bytes \<Rightarrow> bytes option" where
  "lp_run [] m = Some m"
| "lp_run (op # ops) m = do { m \<leftarrow> lp_exec op m; lp_run ops m }"

text \<open>The same on lists; an update that does not fit leaves the list as it is.\<close>

definition keep_unfit :: "lp_elem list \<Rightarrow> lp_elem list \<Rightarrow> lp_elem list" where
  "keep_unfit xs ys = (if lp_fits ys then ys else xs)"

definition spec_index :: "lp_elem list \<Rightarrow> int \<Rightarrow> (nat \<Rightarrow> lp_elem list) \<Rightarrow> lp_elem list" where
  "spec_index xs index f =
     (let i = if index < 0 then int (length xs) + index else index
      in if 0 \<le> i \<and> i < int (length xs) then f (nat i) else xs)"

fun lp_exec_spec :: "lp_op \<Rightarrow> lp_elem list \<Rightarrow> lp_elem list" where
  "lp_exec_spec (OpInsert i wh s) xs = spec_index xs i (\<lambda>i. keep_unfit xs (lp_put wh i [elem_of_str s] xs))"
| "lp_exec_spec (OpInsertInteger i wh v) xs = spec_index xs i (\<lambda>i. keep_unfit xs (lp_put wh i [EInt v] xs))"
| "lp_exec_spec (OpAppend s) xs = keep_unfit xs (xs @ [elem_of_str s])"
| "lp_exec_spec (OpAppendInteger v) xs = keep_unfit xs (xs @ [EInt v])"
| "lp_exec_spec (OpPrepend s) xs = keep_unfit xs (elem_of_str s # xs)"
| "lp_exec_spec (OpPrependInteger v) xs = keep_unfit xs (EInt v # xs)"
| "lp_exec_spec (OpDelete i) xs = spec_index xs i (\<lambda>i. take i xs @ drop (Suc i) xs)"
| "lp_exec_spec (OpDeleteRange i num) xs =
     (let i = if i < 0 then int (length xs) + i else i
      in if 0 \<le> i then take (nat i) xs @ drop (nat i + num) xs else xs)"
| "lp_exec_spec (OpBatchInsert i after es) xs =
     spec_index xs i (\<lambda>i. keep_unfit xs (lp_put (if after then LP_AFTER else LP_BEFORE) i (map elem_of_entry es) xs))"
| "lp_exec_spec (OpBatchAppend es) xs = keep_unfit xs (xs @ map elem_of_entry es)"

text \<open>
  The arguments a client may pass: 64-bit integers, strings of less than 4 GiB, and batches that are not
  empty, whose number of entries is an \<^verbatim>\<open>unsigned int\<close> and whose encodings take less than \<open>2 ^ 63\<close> bytes.
\<close>

definition lp_batch_ok :: "listpackEntry list \<Rightarrow> bool" where
  "lp_batch_ok es \<longleftrightarrow> es \<noteq> [] \<and> length es < 2 ^ 32 \<and> lp_size (map entry_payload es) < 2 ^ 63 \<and>
     (\<forall>e \<in> set es. elem_ok (elem_of_entry e))"

fun lp_op_ok :: "lp_op \<Rightarrow> bool" where
  "lp_op_ok (OpInsert i wh s) \<longleftrightarrow> length s < 2 ^ 32 - 5"
| "lp_op_ok (OpInsertInteger i wh v) \<longleftrightarrow> elem_ok (EInt v)"
| "lp_op_ok (OpAppend s) \<longleftrightarrow> length s < 2 ^ 32 - 5"
| "lp_op_ok (OpAppendInteger v) \<longleftrightarrow> elem_ok (EInt v)"
| "lp_op_ok (OpPrepend s) \<longleftrightarrow> length s < 2 ^ 32 - 5"
| "lp_op_ok (OpPrependInteger v) \<longleftrightarrow> elem_ok (EInt v)"
| "lp_op_ok (OpDelete i) \<longleftrightarrow> True"
| "lp_op_ok (OpDeleteRange i num) \<longleftrightarrow> True"
| "lp_op_ok (OpBatchInsert i after es) \<longleftrightarrow> lp_batch_ok es"
| "lp_op_ok (OpBatchAppend es) \<longleftrightarrow> lp_batch_ok es"

text \<open>Both element arguments of \<^verbatim>\<open>lpInsert\<close>, for the two kinds of element.\<close>

lemma lp_arg_str: "length s < 2 ^ 32 - 5 \<Longrightarrow> lp_arg (Some s) None (enc_elem (elem_of_str s))"
  by (simp add: lp_arg_def lp_entry_enc_elem elem_ok_of_str)

lemma lp_arg_int: "elem_ok (EInt v) \<Longrightarrow> lp_arg None (Some (lpEncodeIntegerGetType v)) (enc_elem (EInt v))"
  using lp_entry_enc_elem [of "EInt v"] by (simp add: lp_arg_def)

definition lp_refines :: "bytes \<Rightarrow> bytes option \<Rightarrow> lp_elem list \<Rightarrow> bool" where
  "lp_refines m r ys \<longleftrightarrow> (\<exists>m'. r = Some m' \<and> lp_rep m' ys)"

lemma keep_null_refines:
  assumes "lp_rep m xs"
    and "if lp_fits ys then \<exists>m' q. r = Some (Some (m', q)) \<and> lp_rep m' ys else r = Some None"
  shows "lp_refines m (keep_null m (no_newp r)) (keep_unfit xs ys)"
  using assms by (auto simp: lp_refines_def keep_null_def no_newp_def keep_unfit_def split: if_splits)

lemma at_index_refines:
  assumes "lp_rep m xs"
    and "\<And>i. i < length xs \<Longrightarrow> lp_refines m (keep_null m (f (lp_at xs i))) (g i)"
  shows "lp_refines m (at_index m index f) (spec_index xs index g)"
  using assms by (auto simp: at_index_def spec_index_def lpSeek_rep Let_def lp_refines_def)

lemma insert_refines:
  assumes "lp_rep m xs" "lp_arg elestr eleint (enc_elem x)" "elem_ok x" "lp_place wh i xs"
  shows "lp_refines m (keep_null m (no_newp (lpInsert m elestr eleint (lp_at xs i) wh)))
    (keep_unfit xs (lp_put wh i [x] xs))"
  using lpInsert_rep [OF assms] by (intro keep_null_refines assms(1)) (auto split: if_splits)

lemma append_refines:
  assumes "lp_rep m xs" "lp_arg elestr eleint (enc_elem x)" "elem_ok x"
  shows "lp_refines m (keep_null m (no_newp (lpInsert m elestr eleint (lp_at xs (length xs)) LP_BEFORE)))
    (keep_unfit xs (xs @ [x]))"
  using insert_refines [OF assms, of LP_BEFORE "length xs"] by (simp add: lp_put_def lp_place_def)

lemma prepend_refines:
  assumes "lp_rep m xs" "lp_arg elestr eleint (enc_elem x)" "elem_ok x"
  shows "lp_refines m (keep_null m (no_newp (lpInsert m elestr eleint (lp_at xs 0) LP_BEFORE)))
    (keep_unfit xs (x # xs))"
  using insert_refines [OF assms, of LP_BEFORE 0] by (simp add: lp_put_def lp_place_def)

lemma batch_refines:
  assumes "lp_rep m xs" "lp_batch_ok es" "lp_place wh i xs" "wh \<noteq> LP_REPLACE"
  shows "lp_refines m (keep_null m (no_newp (lpBatchInsert m (lp_at xs i) wh es (length es))))
    (keep_unfit xs (lp_put wh i (map elem_of_entry es) xs))"
  using lpBatchInsert_rep [OF assms(1) _ _ assms(3,4), of es] assms(2)
  by (intro keep_null_refines assms(1)) (auto simp: lp_batch_ok_def split: if_splits)

lemma delete_refines:
  assumes "lp_rep m xs" "i < length xs"
  shows "lp_refines m (keep_null m (no_newp (lpDelete m (lp_at xs i)))) (take i xs @ drop (Suc i) xs)"
  using lpDelete_rep [OF assms] by (auto simp: lp_refines_def keep_null_def no_newp_def)

lemma lp_exec_refines:
  assumes rep: "lp_rep m xs" and ok: "lp_op_ok op"
  shows "lp_refines m (lp_exec op m) (lp_exec_spec op xs)"
proof (cases op)
  case (OpInsert i wh s)
  then show ?thesis using ok rep
    by (auto simp: lpInsertString_def lp_place_def intro!: at_index_refines insert_refines lp_arg_str elem_ok_of_str)
next
  case (OpInsertInteger i wh v)
  then show ?thesis using ok rep lp_arg_int [of v]
    by (auto simp: lpInsertInteger_def lp_place_def intro!: at_index_refines insert_refines)
next
  case (OpAppend s)
  then show ?thesis using ok append_refines [OF rep lp_arg_str elem_ok_of_str]
    by (simp add: lpAppend_def total_bytes_rep [OF rep])
next
  case (OpAppendInteger v)
  then show ?thesis using ok append_refines [OF rep lp_arg_int]
    by (simp add: lpAppendInteger_def lpInsertInteger_def total_bytes_rep [OF rep])
next
  case (OpPrepend s)
  then show ?thesis
    using ok append_refines [OF rep lp_arg_str elem_ok_of_str, of s] prepend_refines [OF rep lp_arg_str elem_ok_of_str]
    by (auto simp: lpPrepend_def lpAppend_def total_bytes_rep [OF rep] lpFirst_rep [OF rep])
next
  case (OpPrependInteger v)
  then show ?thesis using ok append_refines [OF rep lp_arg_int, of v] prepend_refines [OF rep lp_arg_int]
    by (auto simp: lpPrependInteger_def lpAppendInteger_def lpInsertInteger_def total_bytes_rep [OF rep] lpFirst_rep [OF rep])
next
  case (OpDelete i)
  then show ?thesis using rep by (auto intro!: at_index_refines delete_refines)
next
  case (OpDeleteRange i num)
  then show ?thesis using lpDeleteRange_rep [OF rep refl, of i num] by (simp add: lp_refines_def Let_def)
next
  case (OpBatchInsert i after es)
  then show ?thesis using rep ok by (auto simp: lp_place_def intro!: at_index_refines batch_refines)
next
  case (OpBatchAppend es)
  then show ?thesis using ok batch_refines [OF rep, of es LP_BEFORE "length xs"]
    by (simp add: lpBatchAppend_def total_bytes_rep [OF rep] lp_place_def lp_put_def lp_batch_ok_def)
qed

lemma lp_run_refines:
  "lp_rep m xs \<Longrightarrow> \<forall>op \<in> set ops. lp_op_ok op \<Longrightarrow>
   \<exists>m'. lp_run ops m = Some m' \<and> lp_rep m' (fold lp_exec_spec ops xs)"
proof (induction ops arbitrary: m xs)
  case (Cons op ops)
  obtain m1 where "lp_exec op m = Some m1" "lp_rep m1 (lp_exec_spec op xs)"
    using lp_exec_refines [OF Cons.prems(1)] Cons.prems(2) by (auto simp: lp_refines_def)
  then show ?case using Cons.IH Cons.prems(2) by auto
qed simp

lemma lpNew_rep: "\<exists>m. lpNew capacity = Some m \<and> lp_rep m []"
proof -
  define k where "k = (if capacity > LP_HDR_SIZE + 1 then capacity - LP_HDR_SIZE - 1 else 0)"
  have "(if capacity > LP_HDR_SIZE + 1 then capacity else LP_HDR_SIZE + 1) = LP_HDR_SIZE + Suc k"
    by (simp add: k_def)
  moreover have "replicate LP_HDR_SIZE (0 :: byte) = lp_hdr 0 0"
    by (simp add: lp_hdr_def LP_HDR_SIZE_def eval_nat_numeral)
  ultimately have r: "replicate (if capacity > LP_HDR_SIZE + 1 then capacity else LP_HDR_SIZE + 1) (0 :: byte) =
      lp_hdr 0 0 @ 0 # replicate k 0"
    by (simp only: replicate_add replicate_Suc)
  have wr: "wrn (lp_hdr t n @ 0 # replicate k 0) LP_HDR_SIZE [LP_EOF] = Some (lp_hdr t n @ LP_EOF # replicate k 0)" for t n
    by (simp add: wrn_def splice_at_def)
  have "lpNew capacity = Some (lp_image 0 (enc_all []) (replicate k 0))"
    using lpSetTotalBytes_hdr [of 0 0 "0 # replicate k 0" "LP_HDR_SIZE + 1"]
      lpSetNumElements_hdr [of "LP_HDR_SIZE + 1" 0 "0 # replicate k 0" 0]
    unfolding lpNew_def r Let_def by (simp add: wr lp_image_def lp_size_def)
  moreover have "lp_wf 0 (enc_all [])" by (simp add: lp_wf_def lp_size_def LP_HDR_SIZE_def LP_HDR_NUMELE_UNKNOWN_def)
  ultimately show ?thesis using lp_rep_intro [of 0 "[]" "replicate k 0"] by auto
qed

lemma lpGet_at:
  assumes "lp_rep m (us @ x # vs)" "length us = i"
  shows "\<exists>r. lpGet m (lp_at (us @ x # vs) i) None = Some r \<and> lp_shown m r = Some (elem_str x)"
proof -
  obtain n sl where m: "m = lp_image n (enc_all (us @ x # vs)) sl" and ok: "\<forall>y \<in> set (us @ x # vs). elem_ok y"
    using assms(1) by (rule lp_repE)
  then have "elem_ok x" "m = lp_image n (enc_all us @ enc_elem x # enc_all vs) sl" by simp_all
  then show ?thesis using lpGet_image [of x None m n "enc_all us" "enc_all vs" sl] assms(2)
    by (auto simp: lp_at_append)
qed

lemma lpGet_put:
  assumes "lp_rep m (lp_put wh i [x] xs)" "lp_place wh i xs"
  shows "\<exists>r. lpGet m (lp_at (lp_put wh i [x] xs) (lp_put_idx wh i)) None = Some r \<and> lp_shown m r = Some (elem_str x)"
  using assms lpGet_at [of m "take i xs" x "drop i xs"] lpGet_at [of m "take (Suc i) xs" x "drop (Suc i) xs"]
    lpGet_at [of m "take i xs" x "drop (Suc i) xs"]
  by (cases wh) (auto simp: lp_put_def lp_put_idx_def lp_place_def)

lemma lp_at_put: "lp_place wh i xs \<Longrightarrow> lp_at (lp_put wh i ins xs) (lp_put_idx wh i) = lp_at xs (lp_put_idx wh i)"
  by (cases wh) (auto simp: lp_put_def lp_put_idx_def lp_place_def lp_at_def)

section \<open>Properties\<close>

text \<open>
  C10: insertion. At the pointer to an element, or to the end when inserting before it, \<^verbatim>\<open>lpInsertString\<close>
  puts the element before it, after it or in its place and returns through \<^verbatim>\<open>newp\<close> a pointer at which
  the string stored is read back, whichever encoding was chosen; when the result would not fit in
  \<^verbatim>\<open>UINT32_MAX\<close> bytes it returns NULL.
\<close>

theorem lpInsertString_correct:
  assumes "lp_rep m xs" and "length s < 2 ^ 32 - 5" and "lp_place wh i xs"
  shows "if lp_fits (lp_put wh i [elem_of_str s] xs)
    then \<exists>m' q r. lpInsertString m s (lp_at xs i) wh = Some (Some (m', Some q)) \<and>
      lp_rep m' (lp_put wh i [elem_of_str s] xs) \<and>
      q = lp_at (lp_put wh i [elem_of_str s] xs) (lp_put_idx wh i) \<and>
      lpGet m' q None = Some r \<and> lp_shown m' r = Some s
    else lpInsertString m s (lp_at xs i) wh = Some None"
  using lpInsert_rep [OF assms(1) lp_arg_str [OF assms(2)] elem_ok_of_str [OF assms(2)] assms(3)]
    lpGet_put [OF _ assms(3), of _ "elem_of_str s"]
  unfolding lpInsertString_def lp_at_put [OF assms(3)] by (auto split: if_splits)

theorem lpInsertString_correct_witness:
  "\<exists>m' q r. lpInsertString (lp_image 3 (enc_all lp_example) []) [56] (lp_at lp_example 1) LP_AFTER =
      Some (Some (m', Some q)) \<and>
    lp_rep m' [EStr [104, 105], EInt 7, elem_of_str [56], EInt (-300)] \<and>
    lpGet m' q None = Some r \<and> lp_shown m' r = Some [56]"
proof -
  have put: "lp_put LP_AFTER 1 [elem_of_str [56]] lp_example =
      [EStr [104, 105], EInt 7, elem_of_str [56], EInt (-300)]"
    by (simp add: lp_put_def lp_example_def)
  have "[56] = dec_int 8" by (simp add: dec_int_def dec_small)
  then have "elem_of_str [56] = EInt 8" using string2ll_dec_int [of 8]
    by (simp add: elem_of_str_def lpStringToInt64_eq)
  then have "lp_fits [EStr [104, 105], EInt 7, elem_of_str [56], EInt (-300)]"
    by (simp add: lp_fits_def lp_size_def length_raw lpEncodeString_def lpEncodeIntegerGetType_def
        lpEncodeBacklenBytes_def LP_HDR_SIZE_def UINT32_MAX_def)
  moreover have "lp_place LP_AFTER 1 lp_example" by (simp add: lp_place_def lp_example_rep(2))
  ultimately show ?thesis
    using lpInsertString_correct [OF lp_example_rep(1), of "[56]" LP_AFTER 1] unfolding put by auto
qed

text \<open>
  C9: a listpack implements a list. Whatever sequence of insertions, appends, prepends, replacements,
  deletions, range deletions and batch insertions a client runs on a new listpack, no access leaves
  the allocation, no assertion fails, and the listpack represents the list that the same sequence gives
  on lists, where an update that does not fit is skipped.
\<close>

theorem lp_run_correct:
  assumes "\<forall>op \<in> set ops. lp_op_ok op"
  shows "\<exists>m m'. lpNew capacity = Some m \<and> lp_run ops m = Some m' \<and> lp_rep m' (fold lp_exec_spec ops [])"
  using lpNew_rep [of capacity] lp_run_refines assms by blast

theorem lp_run_correct_witness:
  "\<exists>m m'. lpNew 0 = Some m \<and>
    lp_run [OpAppend [104, 105], OpPrependInteger 7, OpInsert (-1) LP_REPLACE [48],
      OpBatchAppend [\<lparr>sval = None, lval = 5\<rparr>], OpDeleteRange 0 1] m = Some m' \<and>
    lp_rep m' (fold lp_exec_spec
      [OpAppend [104, 105], OpPrependInteger 7, OpInsert (-1) LP_REPLACE [48],
      OpBatchAppend [\<lparr>sval = None, lval = 5\<rparr>], OpDeleteRange 0 1] [])"
  by (rule lp_run_correct)
    (simp add: lp_batch_ok_def elem_of_entry_def lp_size_def length_raw lpEncodeIntegerGetType_def
      lpEncodeBacklenBytes_def LP_HDR_SIZE_def)

text \<open>
  C11: \<^verbatim>\<open>lpBatchDelete\<close>, given the pointers to elements in increasing order, removes exactly these
  elements in one pass over the bytes.
\<close>

theorem lpBatchDelete_correct:
  assumes "lp_rep m xs" and "sorted_wrt (<) is" and "\<forall>i \<in> set is. i < length xs"
  shows "\<exists>m'. lpBatchDelete m (map (lp_at xs) is) = Some m' \<and> lp_rep m' (nths xs (- set is))"
  using assms by (rule lpBatchDelete_rep)

theorem lpBatchDelete_correct_witness:
  "\<exists>m'. lpBatchDelete (lp_image 3 (enc_all lp_example) []) (map (lp_at lp_example) [0, 2]) = Some m' \<and>
    lp_rep m' [EInt 7]"
proof -
  have "nths lp_example (- set [0, 2]) = [EInt 7]" by (simp add: lp_example_def nths_Cons)
  then show ?thesis using lpBatchDelete_correct [OF lp_example_rep(1), of "[0, 2]"] lp_example_rep(2) by auto
qed

text \<open>
  C12: \<^verbatim>\<open>lpMerge\<close> of two different listpacks gives the concatenation of their elements, in the allocation
  of the first when that is at least as large as the second and in that of the second otherwise.
\<close>

theorem lpMerge_correct:
  assumes "lp_rep m1 xs" and "lp_rep m2 ys" and "lp_size (enc_all (xs @ ys)) < UINT32_MAX"
  shows "\<exists>m. lpMerge (Some m1) (Some m2) False =
      Some (Some (m, lp_size (enc_all ys) \<le> lp_size (enc_all xs))) \<and> lp_rep m (xs @ ys)"
proof -
  obtain n1 sl1 where m1: "m1 = lp_image n1 (enc_all xs) sl1" "lp_wf n1 (enc_all xs)" "\<forall>x \<in> set xs. elem_ok x"
    using assms(1) by (rule lp_repE)
  obtain n2 sl2 where m2: "m2 = lp_image n2 (enc_all ys) sl2" "lp_wf n2 (enc_all ys)" "\<forall>x \<in> set ys. elem_ok x"
    using assms(2) by (rule lp_repE)
  obtain n where "lpMerge (Some m1) (Some m2) False =
      Some (Some (lp_image n (enc_all (xs @ ys)) [], lp_size (enc_all ys) \<le> lp_size (enc_all xs)))"
    "lp_wf n (enc_all (xs @ ys))"
    using lpMerge_image [OF m1(2) m2(2), of sl1 sl2] assms(3) unfolding m1(1) m2(1) map_append by blast
  then show ?thesis using lp_rep_intro [of n "xs @ ys"] m1(3) m2(3) by auto
qed

theorem lpMerge_correct_witness:
  "\<exists>m. lpMerge (Some (lp_image 3 (enc_all lp_example) [])) (Some (lp_image 3 (enc_all lp_example) [])) False =
      Some (Some (m, True)) \<and> lp_rep m (lp_example @ lp_example)"
proof -
  have "lp_size (enc_all (lp_example @ lp_example)) < UINT32_MAX"
    by (simp add: lp_example_def lp_size_def length_raw lpEncodeString_def lpEncodeIntegerGetType_def
        lpEncodeBacklenBytes_def LP_HDR_SIZE_def UINT32_MAX_def)
  then show ?thesis using lpMerge_correct [OF lp_example_rep(1) lp_example_rep(1)] by simp
qed

end
