(* ===== verification/Glob.thy ===== *)
theory Glob
  imports Bytes
begin

text \<open>
  Glob-style matching of \<^verbatim>\<open>src/redis-stable/src/util.c\<close>: \<^verbatim>\<open>stringmatchlen_impl\<close> with its nesting limit and
  its \<^verbatim>\<open>skipLongerMatches\<close> shortcut, \<^verbatim>\<open>stringmatchlen\<close>, \<^verbatim>\<open>stringmatch\<close> and \<^verbatim>\<open>prefixmatch\<close>.

  A pattern or a string is the list of the bytes that are left. The code reads \<^verbatim>\<open>pattern[1]\<close> also when
  only one byte of the pattern is left; that byte, normally the terminating NUL, is the parameter \<open>t\<close>.
  The outer \<^term>\<open>None\<close> stands for the run that leaves the pattern, which happens when that byte is
  a \<open>*\<close>. The inner state is the value of \<^verbatim>\<open>*skipLongerMatches\<close>. Characters are signed, as on the
  supported platforms, and \<^verbatim>\<open>tolower\<close> is the one of the C locale.
\<close>

section \<open>The code\<close>

definition tolower :: "int \<Rightarrow> int" where
  "tolower c = (if 65 \<le> c \<and> c \<le> 90 then c + 32 else c)"

definition char_eq :: "bool \<Rightarrow> byte \<Rightarrow> byte \<Rightarrow> bool" where
  "char_eq nocase a b \<longleftrightarrow> (if nocase then tolower (sint a) = tolower (sint b) else a = b)"

text \<open>The range test of a character class, lines 131 to 147.\<close>

definition range_match :: "bool \<Rightarrow> byte \<Rightarrow> byte \<Rightarrow> byte \<Rightarrow> bool" where
  "range_match nocase a b s0 =
     (let (start, end) = (if sint a > sint b then (sint b, sint a) else (sint a, sint b));
          c = sint s0;
          (start, end, c) = (if nocase then (tolower start, tolower end, tolower c) else (start, end, c))
      in c \<ge> start \<and> c \<le> end)"

text \<open>
  The loop over a character class: whether \<open>s0\<close> is in it, and the pattern after the \<^verbatim>\<open>pattern++\<close> that
  follows the switch (the step back at the end of the pattern is undone by it).
\<close>

fun class_loop :: "bool \<Rightarrow> byte \<Rightarrow> bytes \<Rightarrow> bool \<Rightarrow> bool \<times> bytes" where
  "class_loop nocase s0 [] matched = (matched, [])"
| "class_loop nocase s0 [a] matched =
     (if a = 93 then (matched, []) else class_loop nocase s0 [] (char_eq nocase a s0 \<or> matched))"
| "class_loop nocase s0 [a, b] matched =
     (if a = 92 then class_loop nocase s0 [] (b = s0 \<or> matched)
      else if a = 93 then (matched, [b])
      else class_loop nocase s0 [b] (char_eq nocase a s0 \<or> matched))"
| "class_loop nocase s0 (a # b # c # pat) matched =
     (if a = 92 then class_loop nocase s0 (c # pat) (b = s0 \<or> matched)
      else if a = 93 then (matched, b # c # pat)
      else if b = 45 then class_loop nocase s0 pat (range_match nocase a c s0 \<or> matched)
      else class_loop nocase s0 (b # c # pat) (char_eq nocase a s0 \<or> matched))"

definition class_match :: "bool \<Rightarrow> byte \<Rightarrow> bytes \<Rightarrow> bool \<times> bytes" where
  "class_match nocase s0 pat =
     (let neg = (pat \<noteq> [] \<and> hd pat = 94);
          pat = (if neg then tl pat else pat);
          (matched, pat) = class_loop nocase s0 pat False
      in (if neg then \<not> matched else matched, pat))"

text \<open>\<^verbatim>\<open>while (patternLen && pattern[1] == '*')\<close>.\<close>

fun star_collapse :: "byte \<Rightarrow> bytes \<Rightarrow> bytes option" where
  "star_collapse t [] = None"
| "star_collapse t [c] = (if t = 42 then None else Some [c])"
| "star_collapse t (c # d # pat) = (if d = 42 then star_collapse t (d # pat) else Some (c # d # pat))"

lemma star_collapse_length: "star_collapse t pat = Some pat' \<Longrightarrow> pat' \<noteq> [] \<and> length pat' \<le> length pat"
  by (induction t pat rule: star_collapse.induct) (auto split: if_splits)

lemma class_loop_length: "length (snd (class_loop nocase s0 pat matched)) \<le> length pat"
  by (induction nocase s0 pat matched rule: class_loop.induct) auto

lemma class_match_length: "length (snd (class_match nocase s0 pat)) \<le> length pat"
  using class_loop_length [of nocase s0 pat False] class_loop_length [of nocase s0 "tl pat" False]
  by (cases pat) (auto simp: class_match_def Let_def split: prod.split)

text \<open>
  One turn of the main loop for a pattern that does not start with a star: \<^term>\<open>None\<close> is \<^verbatim>\<open>return 0\<close>,
  otherwise the pattern and the string after the switch and the \<^verbatim>\<open>pattern++\<close>.
\<close>

definition match_turn :: "bool \<Rightarrow> byte \<Rightarrow> bytes \<Rightarrow> byte \<Rightarrow> bytes option" where
  "match_turn nocase c pat s0 =
     (if c = 63 then Some pat
      else if c = 91 then (let (matched, pat) = class_match nocase s0 pat in if matched then Some pat else None)
      else let (c, pat) = (if c = 92 \<and> pat \<noteq> [] then (hd pat, tl pat) else (c, pat))
           in if char_eq nocase c s0 then Some pat else None)"

lemma match_turn_length: "match_turn nocase c pat s0 = Some pat' \<Longrightarrow> length pat' \<le> length pat"
  using class_match_length [of nocase s0 pat]
  by (auto simp: match_turn_def Let_def split: if_splits prod.splits)

function stringmatchlen_impl ::
    "bool \<Rightarrow> byte \<Rightarrow> bytes \<Rightarrow> bytes \<Rightarrow> bool \<Rightarrow> nat \<Rightarrow> (bool \<times> bool) option"
  and star_loop :: "bool \<Rightarrow> byte \<Rightarrow> bytes \<Rightarrow> bytes \<Rightarrow> bool \<Rightarrow> nat \<Rightarrow> (bool \<times> bool) option" where
  "stringmatchlen_impl nocase t pattern string skip nesting =
     (if nesting > 1000 then Some (False, skip)
      else case (pattern, string) of
        (c # pat, s0 # str) \<Rightarrow>
          if c = 42 then
            (case star_collapse t pattern of
               None \<Rightarrow> None
             | Some pattern' \<Rightarrow>
                 if length pattern' = 1 then Some (True, skip)
                 else star_loop nocase t (tl pattern') string skip nesting)
          else
            (case match_turn nocase c pat s0 of
               None \<Rightarrow> Some (False, skip)
             | Some pat' \<Rightarrow>
                 if str = [] then Some (dropWhile (\<lambda>b. b = 42) pat' = [], skip)
                 else stringmatchlen_impl nocase t pat' str skip nesting)
      | _ \<Rightarrow> Some (pattern = [] \<and> string = [], skip))"
| "star_loop nocase t pat string skip nesting =
     (case string of
        [] \<Rightarrow> Some (False, True)
      | s0 # str \<Rightarrow>
          (case stringmatchlen_impl nocase t pat string skip (nesting + 1) of
             None \<Rightarrow> None
           | Some (r, skip) \<Rightarrow>
               if r then Some (True, skip)
               else if skip then Some (False, skip)
               else star_loop nocase t pat str skip nesting))"
  by pat_completeness auto
termination
  by (relation "measures
      [\<lambda>x. case x of Inl (nc, t, p, s, k, n) \<Rightarrow> length p | Inr (nc, t, p, s, k, n) \<Rightarrow> length p,
       \<lambda>x. case x of Inl (nc, t, p, s, k, n) \<Rightarrow> length s | Inr (nc, t, p, s, k, n) \<Rightarrow> length s,
       \<lambda>x. case x of Inl _ \<Rightarrow> 0 | Inr _ \<Rightarrow> 1]")
     (auto dest!: star_collapse_length match_turn_length)

declare stringmatchlen_impl.simps [simp del] star_loop.simps [simp del]

definition stringmatchlen :: "byte \<Rightarrow> bytes \<Rightarrow> bytes \<Rightarrow> bool \<Rightarrow> bool option" where
  "stringmatchlen t pattern string nocase = map_option fst (stringmatchlen_impl nocase t pattern string False 0)"

text \<open>On C strings the byte after the pattern is the NUL.\<close>

definition stringmatch :: "bytes \<Rightarrow> bytes \<Rightarrow> bool \<Rightarrow> bool option" where
  "stringmatch pattern string nocase = stringmatchlen 0 pattern string nocase"

definition prefixmatch :: "byte \<Rightarrow> bytes \<Rightarrow> bytes \<Rightarrow> bool \<Rightarrow> bool option" where
  "prefixmatch t pattern prefixStr nocase =
     (case stringmatchlen_impl nocase t pattern prefixStr False 0 of
        None \<Rightarrow> None
      | Some (r, _) \<Rightarrow>
          if \<not> r then Some False
          else if pattern = [] \<or> last pattern \<noteq> 42 then Some False
          else Some (even (length (takeWhile (\<lambda>b. b = 92) (rev (butlast pattern))))))"

section \<open>Reference semantics\<close>

text \<open>
  A pattern is parsed once into tokens; \<open>glob\<close> is the textbook semantics of a token list. The items of a
  class are an escaped byte, which the code always compares exactly, a range and a single byte.
\<close>

datatype gitem = IEsc byte | IRange byte byte | IChar byte

datatype gtok = GStar | GAny | GClass bool "gitem list" | GLit byte

fun parse_items :: "bytes \<Rightarrow> gitem list \<times> bytes" where
  "parse_items [] = ([], [])"
| "parse_items [a] = (if a = 93 then ([], []) else ([IChar a], []))"
| "parse_items [a, b] =
     (if a = 92 then ([IEsc b], [])
      else if a = 93 then ([], [b])
      else apfst (Cons (IChar a)) (parse_items [b]))"
| "parse_items (a # b # c # pat) =
     (if a = 92 then apfst (Cons (IEsc b)) (parse_items (c # pat))
      else if a = 93 then ([], b # c # pat)
      else if b = 45 then apfst (Cons (IRange a c)) (parse_items pat)
      else apfst (Cons (IChar a)) (parse_items (b # c # pat)))"

fun item_match :: "bool \<Rightarrow> gitem \<Rightarrow> byte \<Rightarrow> bool" where
  "item_match nocase (IEsc b) s0 \<longleftrightarrow> b = s0"
| "item_match nocase (IRange a b) s0 \<longleftrightarrow> range_match nocase a b s0"
| "item_match nocase (IChar a) s0 \<longleftrightarrow> char_eq nocase a s0"

fun tok_match :: "bool \<Rightarrow> gtok \<Rightarrow> byte \<Rightarrow> bool" where
  "tok_match nocase GStar s0 \<longleftrightarrow> False"
| "tok_match nocase GAny s0 \<longleftrightarrow> True"
| "tok_match nocase (GClass neg items) s0 \<longleftrightarrow> neg \<noteq> list_ex (\<lambda>i. item_match nocase i s0) items"
| "tok_match nocase (GLit b) s0 \<longleftrightarrow> char_eq nocase b s0"

definition parse_class :: "bytes \<Rightarrow> gtok \<times> bytes" where
  "parse_class pat =
     (let neg = (pat \<noteq> [] \<and> hd pat = 94);
          (items, rest) = parse_items (if neg then tl pat else pat)
      in (GClass neg items, rest))"

lemma parse_items_length: "length (snd (parse_items pat)) \<le> length pat"
  by (induction pat rule: parse_items.induct) auto

lemma parse_class_length: "length (snd (parse_class pat)) \<le> length pat"
  using parse_items_length [of pat] parse_items_length [of "tl pat"]
  by (cases pat) (auto simp: parse_class_def Let_def split: prod.split)

text \<open>The token at the head of a pattern, and the rest of the pattern.\<close>

definition parse_tok :: "byte \<Rightarrow> bytes \<Rightarrow> gtok \<times> bytes" where
  "parse_tok c pat =
     (if c = 42 then (GStar, pat)
      else if c = 63 then (GAny, pat)
      else if c = 91 then parse_class pat
      else if c = 92 \<and> pat \<noteq> [] then (GLit (hd pat), tl pat)
      else (GLit c, pat))"

lemma parse_tok_length: "length (snd (parse_tok c pat)) \<le> length pat"
  using parse_class_length [of pat] by (auto simp: parse_tok_def)

function glob_parse :: "bytes \<Rightarrow> gtok list" where
  "glob_parse [] = []"
| "glob_parse (c # pat) = (case parse_tok c pat of (tok, rest) \<Rightarrow> tok # glob_parse rest)"
  by pat_completeness auto
termination
proof (relation "measure length")
  fix c pat tok rest
  assume "(tok, rest) = parse_tok c pat"
  then show "(rest, c # pat) \<in> measure length" using parse_tok_length [of c pat] by (metis in_measure le_imp_less_Suc length_Cons snd_conv)
qed simp

fun glob :: "bool \<Rightarrow> gtok list \<Rightarrow> bytes \<Rightarrow> bool" where
  "glob nocase [] string \<longleftrightarrow> string = []"
| "glob nocase (tok # toks) [] \<longleftrightarrow> tok = GStar \<and> glob nocase toks []"
| "glob nocase (tok # toks) (s0 # str) \<longleftrightarrow>
     (if tok = GStar then glob nocase toks (s0 # str) \<or> glob nocase (tok # toks) str
      else tok_match nocase tok s0 \<and> glob nocase toks str)"

text \<open>The number of groups of adjacent stars.\<close>

fun star_groups :: "gtok list \<Rightarrow> nat" where
  "star_groups [] = 0"
| "star_groups (tok # toks) =
     (if tok = GStar \<and> (toks = [] \<or> hd toks \<noteq> GStar) then 1 else 0) + star_groups toks"

section \<open>Correctness of the matcher\<close>

lemma glob_star: "glob nocase (GStar # toks) str \<longleftrightarrow> (\<exists>u v. str = u @ v \<and> glob nocase toks v)"
proof (induction str)
  case (Cons s0 str)
  have "(\<exists>u v. s0 # str = u @ v \<and> glob nocase toks v) \<longleftrightarrow>
      glob nocase toks (s0 # str) \<or> (\<exists>u v. str = u @ v \<and> glob nocase toks v)"
    by (auto simp: Cons_eq_append_conv)
  then show ?case using Cons.IH by simp
qed simp

lemma glob_star_star: "glob nocase (GStar # GStar # toks) str \<longleftrightarrow> glob nocase (GStar # toks) str"
  by (induction str) auto

lemma glob_tok: "tok \<noteq> GStar \<Longrightarrow> glob nocase (tok # toks) [] \<longleftrightarrow> False"
  "tok \<noteq> GStar \<Longrightarrow> glob nocase (tok # toks) (s0 # str) \<longleftrightarrow> tok_match nocase tok s0 \<and> glob nocase toks str"
  by (cases tok; simp)+

lemma class_loop_items:
  "class_loop nocase s0 pat matched =
     (list_ex (\<lambda>i. item_match nocase i s0) (fst (parse_items pat)) \<or> matched, snd (parse_items pat))"
  by (induction nocase s0 pat matched rule: class_loop.induct) auto

lemma class_match_parse:
  "class_match nocase s0 pat = (tok_match nocase (fst (parse_class pat)) s0, snd (parse_class pat))"
  by (auto simp: class_match_def parse_class_def class_loop_items Let_def split: prod.split)

lemma match_turn_parse:
  assumes "c \<noteq> 42"
  shows "match_turn nocase c pat s0 =
    (if tok_match nocase (fst (parse_tok c pat)) s0 then Some (snd (parse_tok c pat)) else None)"
  using assms by (auto simp: match_turn_def parse_tok_def class_match_parse Let_def)

lemma parse_tok_star: "fst (parse_tok c pat) = GStar \<longleftrightarrow> c = 42"
  by (auto simp: parse_tok_def parse_class_def Let_def split: prod.split)

lemma glob_parse_Cons: "glob_parse (c # pat) = fst (parse_tok c pat) # glob_parse (snd (parse_tok c pat))"
  by (simp split: prod.split)

declare glob_parse.simps(2) [simp del]

lemma glob_parse_star: "glob_parse (42 # pat) = GStar # glob_parse pat"
  by (simp add: glob_parse_Cons parse_tok_def)

lemma glob_parse_empty: "glob_parse pat = [] \<longleftrightarrow> pat = []"
  by (cases pat) (auto simp: glob_parse_Cons)

lemma hd_glob_parse: "pat \<noteq> [] \<Longrightarrow> hd (glob_parse pat) = GStar \<longleftrightarrow> hd pat = 42"
  by (cases pat) (auto simp: glob_parse_Cons parse_tok_star)

lemma glob_parse_Nil: "glob nocase (glob_parse pat) [] \<longleftrightarrow> dropWhile (\<lambda>b. b = 42) pat = []"
proof (induction pat)
  case (Cons c pat)
  show ?case
  proof (cases "c = 42")
    case True
    then show ?thesis using Cons.IH by (simp add: glob_parse_star)
  next
    case False
    then show ?thesis by (simp add: glob_parse_Cons glob_tok parse_tok_star)
  qed
qed simp

lemma star_collapse_parse:
  assumes "t \<noteq> 42"
  shows "\<exists>q. star_collapse t (42 # pat) = Some (42 # q) \<and> (q = [] \<or> hd q \<noteq> 42) \<and>
    (\<forall>str. glob nocase (glob_parse (42 # pat)) str \<longleftrightarrow> glob nocase (GStar # glob_parse q) str) \<and>
    star_groups (glob_parse (42 # pat)) = Suc (star_groups (glob_parse q))"
proof (induction pat)
  case Nil
  then show ?case using assms by (intro exI [of _ "[]"]) (simp add: glob_parse_star)
next
  case (Cons d pat)
  show ?case
  proof (cases "d = 42")
    case True
    then obtain q where "star_collapse t (42 # pat) = Some (42 # q)" "q = [] \<or> hd q \<noteq> 42"
      "\<forall>str. glob nocase (glob_parse (42 # pat)) str \<longleftrightarrow> glob nocase (GStar # glob_parse q) str"
      "star_groups (glob_parse (42 # pat)) = Suc (star_groups (glob_parse q))"
      using Cons.IH by blast
    then show ?thesis using True by (intro exI [of _ q]) (simp add: glob_parse_star glob_star_star)
  next
    case False
    then have "hd (glob_parse (d # pat)) \<noteq> GStar" using hd_glob_parse [of "d # pat"] by simp
    then show ?thesis using False by (intro exI [of _ "d # pat"]) (simp add: glob_parse_star)
  qed
qed

text \<open>
  The invariant of the recursion. \<open>exact\<close> is false beyond the nesting limit, where only the positive
  answer is reliable. When \<^verbatim>\<open>skipLongerMatches\<close> is set, no suffix of the string can match the pattern.
\<close>

definition match_inv :: "bool \<Rightarrow> bool \<Rightarrow> gtok list \<Rightarrow> bytes \<Rightarrow> bool \<Rightarrow> (bool \<times> bool) option \<Rightarrow> bool" where
  "match_inv exact nocase toks str m res \<longleftrightarrow>
     (\<exists>r k. res = Some (r, k) \<and> (r \<longrightarrow> m) \<and>
        (exact \<longrightarrow> (m \<longrightarrow> r) \<and> (k \<longrightarrow> (\<forall>u v. str = u @ v \<longrightarrow> \<not> glob nocase toks v))))"

lemma match_inv_const: "match_inv exact nocase toks str m (Some (m, False))"
  by (auto simp: match_inv_def)

lemma match_inv_no_skip:
  "(r \<Longrightarrow> m) \<Longrightarrow> (exact \<Longrightarrow> m \<Longrightarrow> r) \<Longrightarrow> match_inv exact nocase toks str m (Some (r, False))"
  by (auto simp: match_inv_def)

lemma match_inv_tok:
  assumes "match_inv exact nocase toks str m res" "tok \<noteq> GStar"
  shows "match_inv exact nocase (tok # toks) (s0 # str) m res"
proof -
  obtain r k where rk: "res = Some (r, k)" "r \<longrightarrow> m" "exact \<longrightarrow> (m \<longrightarrow> r) \<and> (k \<longrightarrow> (\<forall>u v. str = u @ v \<longrightarrow> \<not> glob nocase toks v))"
    using assms(1) by (auto simp: match_inv_def)
  have "\<not> glob nocase (tok # toks) v"
    if cut: "s0 # str = u @ v" and none: "\<forall>u v. str = u @ v \<longrightarrow> \<not> glob nocase toks v" for u v
  proof (cases v)
    case (Cons c w)
    obtain u' where "str = u' @ w" using cut Cons by (cases u) auto
    then show ?thesis using none Cons glob_tok(2) [OF assms(2)] by simp
  qed (use glob_tok(1) [OF assms(2)] in simp)
  then show ?thesis using rk by (auto simp: match_inv_def)
qed

lemma match_inv_star:
  assumes "\<And>str. glob nocase toks str \<longleftrightarrow> glob nocase (GStar # toks') str"
    and "match_inv exact nocase toks' str (\<exists>u v. str = u @ v \<and> glob nocase toks' v) res"
  shows "match_inv exact nocase toks str (glob nocase toks str) res"
proof -
  obtain r k where rk: "res = Some (r, k)" "r \<longrightarrow> (\<exists>u v. str = u @ v \<and> glob nocase toks' v)"
    "exact \<longrightarrow> ((\<exists>u v. str = u @ v \<and> glob nocase toks' v) \<longrightarrow> r) \<and> (k \<longrightarrow> (\<forall>u v. str = u @ v \<longrightarrow> \<not> glob nocase toks' v))"
    using assms(2) by (auto simp: match_inv_def)
  have m: "glob nocase toks str \<longleftrightarrow> (\<exists>u v. str = u @ v \<and> glob nocase toks' v)"
    by (simp only: assms(1) glob_star)
  have "\<not> glob nocase toks v" if none: "\<forall>u v. str = u @ v \<longrightarrow> \<not> glob nocase toks' v" and cut: "str = u @ v" for u v
  proof
    assume "glob nocase toks v"
    then obtain u' v' where "v = u' @ v'" "glob nocase toks' v'" by (auto simp only: assms(1) glob_star)
    then show False using none cut by (metis append.assoc)
  qed
  then show ?thesis unfolding match_inv_def m using rk by auto
qed

lemma match_inv_stop:
  assumes "match_inv exact nocase toks str (glob nocase toks str) (Some (r, k))" "r \<or> k"
  shows "match_inv exact nocase toks str (\<exists>u v. str = u @ v \<and> glob nocase toks v) (Some (r, k))"
proof -
  have "r \<longrightarrow> glob nocase toks str" "exact \<longrightarrow> k \<longrightarrow> (\<forall>u v. str = u @ v \<longrightarrow> \<not> glob nocase toks v)"
    using assms(1) by (auto simp: match_inv_def)
  moreover have "str = [] @ str" by simp
  ultimately show ?thesis using assms(2) unfolding match_inv_def by blast
qed

lemma match_inv_loop:
  assumes "match_inv exact nocase toks (s0 # str) (glob nocase toks (s0 # str)) (Some (False, False))"
    and "match_inv exact nocase toks str (\<exists>u v. str = u @ v \<and> glob nocase toks v) res"
  shows "match_inv exact nocase toks (s0 # str) (\<exists>u v. s0 # str = u @ v \<and> glob nocase toks v) res"
proof -
  have "(\<exists>u v. s0 # str = u @ v \<and> glob nocase toks v) \<longleftrightarrow>
      glob nocase toks (s0 # str) \<or> (\<exists>u v. str = u @ v \<and> glob nocase toks v)"
    by (auto simp: Cons_eq_append_conv)
  then show ?thesis using assms unfolding match_inv_def by auto
qed

text \<open>The equations of the matcher in terms of tokens.\<close>

lemma impl_end:
  "nesting > 1000 \<or> pattern = [] \<or> string = [] \<Longrightarrow>
   stringmatchlen_impl nocase t pattern string skip nesting =
     Some (\<not> nesting > 1000 \<and> pattern = [] \<and> string = [], skip)"
  by (subst stringmatchlen_impl.simps) (auto split: list.split)

lemma impl_star:
  "\<not> nesting > 1000 \<Longrightarrow> star_collapse t (42 # pat) = Some (42 # q) \<Longrightarrow>
   stringmatchlen_impl nocase t (42 # pat) (s0 # str) skip nesting =
     (if q = [] then Some (True, skip) else star_loop nocase t q (s0 # str) skip nesting)"
  by (subst stringmatchlen_impl.simps) simp

lemma impl_tok:
  "\<not> nesting > 1000 \<Longrightarrow> c \<noteq> 42 \<Longrightarrow>
   stringmatchlen_impl nocase t (c # pat) (s0 # str) skip nesting =
     (if \<not> tok_match nocase (fst (parse_tok c pat)) s0 then Some (False, skip)
      else if str = [] then Some (glob nocase (glob_parse (snd (parse_tok c pat))) [], skip)
      else stringmatchlen_impl nocase t (snd (parse_tok c pat)) str skip nesting)"
  by (subst stringmatchlen_impl.simps) (simp add: match_turn_parse glob_parse_Nil)

lemma star_loop_Nil: "star_loop nocase t pat [] skip nesting = Some (False, True)"
  by (subst star_loop.simps) simp

lemma star_loop_Cons:
  "stringmatchlen_impl nocase t pat (s0 # str) skip (nesting + 1) = Some (r, k) \<Longrightarrow>
   star_loop nocase t pat (s0 # str) skip nesting =
     (if r \<or> k then Some (r, k) else star_loop nocase t pat str k nesting)"
  by (subst star_loop.simps) simp

lemma match_correct_star:
  assumes "t \<noteq> 42" "\<not> nesting > 1000"
    and "\<And>q. q \<noteq> [] \<Longrightarrow> hd q \<noteq> 42 \<Longrightarrow> star_collapse t (42 # pat) = Some (42 # q) \<Longrightarrow>
      match_inv (star_groups (glob_parse q) + nesting < 1000) nocase (glob_parse q) (s0 # str)
        (\<exists>u v. s0 # str = u @ v \<and> glob nocase (glob_parse q) v) (star_loop nocase t q (s0 # str) False nesting)"
  shows "match_inv (star_groups (glob_parse (42 # pat)) + nesting \<le> 1000) nocase (glob_parse (42 # pat)) (s0 # str)
    (glob nocase (glob_parse (42 # pat)) (s0 # str)) (stringmatchlen_impl nocase t (42 # pat) (s0 # str) False nesting)"
proof -
  obtain q where q: "star_collapse t (42 # pat) = Some (42 # q)" "q = [] \<or> hd q \<noteq> 42"
    "\<And>str. glob nocase (glob_parse (42 # pat)) str \<longleftrightarrow> glob nocase (GStar # glob_parse q) str"
    "star_groups (glob_parse (42 # pat)) = Suc (star_groups (glob_parse q))"
    using star_collapse_parse [OF assms(1), of pat nocase] by blast
  show ?thesis
  proof (cases "q = []")
    case True
    then have "glob nocase (glob_parse (42 # pat)) (s0 # str)" using q(3) glob_star by simp
    then show ?thesis unfolding impl_star [OF assms(2) q(1)] if_P [OF True] using match_inv_const by simp
  next
    case False
    then have "match_inv (star_groups (glob_parse q) + nesting < 1000) nocase (glob_parse q) (s0 # str)
        (\<exists>u v. s0 # str = u @ v \<and> glob nocase (glob_parse q) v) (star_loop nocase t q (s0 # str) False nesting)"
      using assms(3) q(1,2) by blast
    then show ?thesis unfolding impl_star [OF assms(2) q(1)] if_not_P [OF False] q(4)
      using match_inv_star [OF q(3)] by (simp add: Suc_le_eq)
  qed
qed

lemma match_correct_tok:
  assumes "c \<noteq> 42" "\<not> nesting > 1000"
    and "str \<noteq> [] \<Longrightarrow> tok_match nocase (fst (parse_tok c pat)) s0 \<Longrightarrow>
      match_inv (star_groups (glob_parse (snd (parse_tok c pat))) + nesting \<le> 1000) nocase
        (glob_parse (snd (parse_tok c pat))) str (glob nocase (glob_parse (snd (parse_tok c pat))) str)
        (stringmatchlen_impl nocase t (snd (parse_tok c pat)) str False nesting)"
  shows "match_inv (star_groups (glob_parse (c # pat)) + nesting \<le> 1000) nocase (glob_parse (c # pat)) (s0 # str)
    (glob nocase (glob_parse (c # pat)) (s0 # str)) (stringmatchlen_impl nocase t (c # pat) (s0 # str) False nesting)"
proof -
  let ?tok = "fst (parse_tok c pat)" and ?rest = "snd (parse_tok c pat)"
  have tok: "?tok \<noteq> GStar" using assms(1) by (simp add: parse_tok_star)
  have g: "glob nocase (glob_parse (c # pat)) (s0 # str) \<longleftrightarrow>
      tok_match nocase ?tok s0 \<and> glob nocase (glob_parse ?rest) str"
    by (simp only: glob_parse_Cons glob_tok(2) [OF tok])
  have n: "star_groups (glob_parse (c # pat)) = star_groups (glob_parse ?rest)"
    using tok by (simp add: glob_parse_Cons)
  show ?thesis
  proof (cases "tok_match nocase ?tok s0 \<and> str \<noteq> []")
    case True
    then show ?thesis unfolding impl_tok [OF assms(2,1)] g n glob_parse_Cons
      using match_inv_tok [OF assms(3) tok] tok by simp
  next
    case False
    then show ?thesis unfolding impl_tok [OF assms(2,1)] g by (auto simp: match_inv_def)
  qed
qed

lemma match_correct:
  "t \<noteq> 42 \<Longrightarrow> \<not> skip \<Longrightarrow>
     match_inv (star_groups (glob_parse pattern) + nesting \<le> 1000) nocase (glob_parse pattern) string
       (if string = [] then pattern = [] else glob nocase (glob_parse pattern) string)
       (stringmatchlen_impl nocase t pattern string skip nesting)"
  "t \<noteq> 42 \<Longrightarrow> \<not> skip \<Longrightarrow> pat \<noteq> [] \<Longrightarrow> hd pat \<noteq> 42 \<Longrightarrow>
     match_inv (star_groups (glob_parse pat) + nesting < 1000) nocase (glob_parse pat) string
       (\<exists>u v. string = u @ v \<and> glob nocase (glob_parse pat) v)
       (star_loop nocase t pat string skip nesting)"
proof (induction nocase t pattern string skip nesting and nocase t pat string skip nesting
    rule: stringmatchlen_impl_star_loop.induct)
  case (1 nocase t pattern string skip nesting)
  have skip: "skip = False" using 1(4) by simp
  show ?case
  proof (cases "nesting > 1000 \<or> pattern = [] \<or> string = []")
    case True
    show ?thesis unfolding impl_end [OF True] skip
      by (rule match_inv_no_skip) (use True in \<open>auto split: if_splits\<close>)
  next
    case False
    then obtain c pat s0 str where ps: "pattern = c # pat" "string = s0 # str" and nest: "\<not> nesting > 1000"
      by (cases pattern; cases string) auto
    show ?thesis
    proof (cases "c = 42")
      case True
      have "match_inv (star_groups (glob_parse q) + nesting < 1000) nocase (glob_parse q) (s0 # str)
          (\<exists>u v. s0 # str = u @ v \<and> glob nocase (glob_parse q) v) (star_loop nocase t q (s0 # str) False nesting)"
        if "q \<noteq> []" "hd q \<noteq> 42" "star_collapse t (42 # pat) = Some (42 # q)" for q
        using 1(1) [OF nest, of pattern string c pat s0 str "42 # q"] 1(3) ps True that by (simp add: skip)
      then show ?thesis using match_correct_star [OF 1(3) nest] ps True by (simp add: skip)
    next
      case False
      then show ?thesis
        using match_correct_tok [OF False nest, of str nocase pat s0 t]
          1(2) [OF nest, of pattern string c pat s0 str "snd (parse_tok c pat)"] 1(3) ps
        by (simp add: skip match_turn_parse)
    qed
  qed
next
  case (2 nocase t pat string skip nesting)
  have hd: "hd (glob_parse pat) \<noteq> GStar" "glob_parse pat \<noteq> []"
    using 2(5,6) by (simp_all add: hd_glob_parse glob_parse_empty)
  show ?case
  proof (cases string)
    case Nil
    have "\<not> glob nocase (glob_parse pat) []" using hd by (cases "glob_parse pat") auto
    then show ?thesis unfolding Nil star_loop_Nil match_inv_def by auto
  next
    case (Cons s0 str)
    have first: "match_inv (star_groups (glob_parse pat) + nesting < 1000) nocase (glob_parse pat) (s0 # str)
        (glob nocase (glob_parse pat) (s0 # str)) (stringmatchlen_impl nocase t pat (s0 # str) skip (nesting + 1))"
      using 2(1) [OF Cons] 2(3,4) Cons by (simp add: Suc_le_eq)
    then obtain r k where rk: "stringmatchlen_impl nocase t pat (s0 # str) skip (nesting + 1) = Some (r, k)"
      unfolding match_inv_def by blast
    show ?thesis
    proof (cases "r \<or> k")
      case True
      then show ?thesis unfolding Cons star_loop_Cons [OF rk] if_P [OF True]
        using match_inv_stop [OF first [unfolded rk]] by blast
    next
      case False
      then have rk': "stringmatchlen_impl nocase t pat (s0 # str) skip (nesting + 1) = Some (False, False)"
        using rk by simp
      show ?thesis unfolding Cons star_loop_Cons [OF rk] if_not_P [OF False]
        using match_inv_loop [OF first [unfolded rk']] 2(2) [OF Cons rk [folded Cons], of r k] 2(3-6) False by simp
    qed
  qed
qed

section \<open>Prefixes\<close>

lemma glob_extend: "glob nocase (toks @ [GStar]) str \<Longrightarrow> glob nocase (toks @ [GStar]) (str @ suffix)"
proof (induction nocase toks str rule: glob.induct)
  case (1 nocase string)
  show ?case using glob_star [of nocase "[]" "string @ suffix"] by simp
next
  case (2 nocase tok toks)
  then show ?case by (cases suffix) (auto split: if_splits)
next
  case (3 nocase tok toks s0 str)
  then show ?case by (auto split: if_splits)
qed

text \<open>The number of backslashes at the end.\<close>

definition tail_bs :: "bytes \<Rightarrow> nat" where
  "tail_bs pat = length (takeWhile (\<lambda>b. b = 92) (rev pat))"

lemma tail_bs_Cons:
  "tail_bs (c # pat) = (if (\<forall>b \<in> set pat. b = 92) then (if c = 92 then Suc (length pat) else length pat) else tail_bs pat)"
  by (auto simp: tail_bs_def takeWhile_append takeWhile_eq_all_conv [THEN iffD2])

lemma tail_bs_all: "\<forall>b \<in> set pat. b = 92 \<Longrightarrow> tail_bs pat = length pat"
  by (simp add: tail_bs_def takeWhile_eq_all_conv [THEN iffD2])

text \<open>Without classes a star at the end that is not escaped is a token of its own.\<close>

lemma glob_parse_last_star:
  "91 \<notin> set pat \<Longrightarrow> even (tail_bs pat) \<Longrightarrow> glob_parse (pat @ [42]) = glob_parse pat @ [GStar]"
proof (induction "length pat" arbitrary: pat rule: less_induct)
  case less
  show ?case
  proof (cases pat)
    case (Cons c rest)
    show ?thesis
    proof (cases "c = 92")
      case False
      then have "glob_parse (rest @ [42]) = glob_parse rest @ [GStar]"
        using less.prems Cons tail_bs_all [of rest]
        by (intro less.hyps) (auto simp: tail_bs_Cons split: if_splits)
      then show ?thesis using False less.prems(1) Cons by (simp add: glob_parse_Cons parse_tok_def)
    next
      case True
      then obtain d rest' where rest: "rest = d # rest'"
        using less.prems(2) Cons by (cases rest) (auto simp: tail_bs_Cons)
      have "glob_parse (rest' @ [42]) = glob_parse rest' @ [GStar]"
        using less.prems Cons rest True tail_bs_all [of rest']
        by (intro less.hyps) (auto simp: tail_bs_Cons split: if_splits)
      then show ?thesis using True less.prems(1) Cons rest by (simp add: glob_parse_Cons parse_tok_def)
    qed
  qed (simp add: glob_parse_star)
qed

lemma stringmatchlen_exact:
  assumes "t \<noteq> 42" "star_groups (glob_parse pattern) \<le> 1000"
  shows "stringmatchlen t pattern string nocase =
    Some (if string = [] then pattern = [] else glob nocase (glob_parse pattern) string)"
  using match_correct(1) [OF assms(1), of False pattern 0 nocase string] assms(2)
  by (auto simp: match_inv_def stringmatchlen_def)

text \<open>
  A star inside a class that is never closed is not escaped, but it is no wildcard either:
  \<^verbatim>\<open>prefixmatch\<close> accepts the prefix \<open>*\<close> for the pattern \<open>[*\<close>, which does not match \<open>*x\<close>.
\<close>

lemma prefixmatch_open_class:
  "prefixmatch 0 [91, 42] [42] False = Some True \<and> stringmatchlen 0 [91, 42] [42, 120] False = Some False"
  by (simp add: prefixmatch_def stringmatchlen_def impl_tok impl_end parse_tok_def parse_class_def char_eq_def)

text \<open>No pattern but the empty one matches the empty string, not even \<open>*\<close>.\<close>

lemma star_empty_string: "stringmatchlen 0 [42] [] nocase = Some False"
  by (simp add: stringmatchlen_def impl_end)

text \<open>Without case, an escaped byte in a class is still compared exactly.\<close>

lemma nocase_escaped_class:
  "stringmatchlen 0 [91, 92, 97, 93] [65] True = Some False \<and> stringmatchlen 0 [91, 97, 93] [65] True = Some True"
  by (simp add: stringmatchlen_def impl_tok impl_end parse_tok_def parse_class_def char_eq_def tolower_def)

section \<open>Properties\<close>

text \<open>
  C24: the glob matcher, with its early exit through \<^verbatim>\<open>skipLongerMatches\<close>, always returns and decides the
  reference semantics of the pattern on every non-empty string, up to its limit of 1000 groups of stars;
  beyond the limit a positive answer is still right. On the empty string only the empty pattern
  matches. The byte behind the pattern must not be a star.
\<close>

theorem stringmatchlen_correct:
  assumes "t \<noteq> 42"
  shows "\<exists>r. stringmatchlen t pattern string nocase = Some r \<and>
    (r \<longrightarrow> (if string = [] then pattern = [] else glob nocase (glob_parse pattern) string)) \<and>
    (star_groups (glob_parse pattern) \<le> 1000 \<longrightarrow>
       r = (if string = [] then pattern = [] else glob nocase (glob_parse pattern) string))"
  using match_correct(1) [OF assms, of False pattern 0 nocase string]
  by (auto simp: match_inv_def stringmatchlen_def)

theorem stringmatchlen_correct_witness:
  "stringmatchlen 0 [104, 42, 108, 63] [104, 101, 108, 108, 111] False = Some True"
proof -
  have "glob_parse [104, 42, 108, 63] = [GLit 104, GStar, GLit 108, GAny]"
    by (simp add: glob_parse_Cons parse_tok_def)
  then show ?thesis
    using stringmatchlen_correct [of 0 "[104, 42, 108, 63]" "[104, 101, 108, 108, 111]" False]
    by (auto simp: char_eq_def)
qed

text \<open>
  C25: what \<^verbatim>\<open>prefixmatch\<close> promises: for a pattern without classes, when it accepts a prefix, the pattern
  matches every string that starts with the prefix.
\<close>

theorem prefixmatch_extends:
  assumes "t \<noteq> 42" and "91 \<notin> set pattern" and "star_groups (glob_parse pattern) \<le> 1000"
    and "prefixmatch t pattern prefixStr nocase = Some True"
  shows "stringmatchlen t pattern (prefixStr @ suffix) nocase = Some True"
proof -
  obtain r k where rk: "stringmatchlen_impl nocase t pattern prefixStr False 0 = Some (r, k)"
    using assms(4) by (cases "stringmatchlen_impl nocase t pattern prefixStr False 0") (auto simp: prefixmatch_def)
  then have r: "r \<and> pattern \<noteq> [] \<and> last pattern = 42 \<and> even (tail_bs (butlast pattern))"
    using assms(4) by (simp add: prefixmatch_def tail_bs_def split: if_splits)
  then have m: "stringmatchlen t pattern prefixStr nocase = Some True"
    and l: "pattern \<noteq> []" "last pattern = 42" "even (tail_bs (butlast pattern))"
    using rk by (simp_all add: stringmatchlen_def)
  have "pattern = butlast pattern @ [42]" using l by (metis append_butlast_last_id)
  moreover have "91 \<notin> set (butlast pattern)" using assms(2) in_set_butlastD by metis
  ultimately have p: "glob_parse pattern = glob_parse (butlast pattern) @ [GStar]"
    using glob_parse_last_star l(3) by metis
  have "prefixStr \<noteq> []" "glob nocase (glob_parse pattern) prefixStr"
    using m stringmatchlen_exact [OF assms(1,3), of prefixStr nocase] l(1) by (auto split: if_splits)
  then show ?thesis using stringmatchlen_exact [OF assms(1,3), of "prefixStr @ suffix" nocase] glob_extend p by simp
qed

theorem prefixmatch_extends_witness:
  "stringmatchlen 0 [97, 42] ([97, 98] @ [99]) False = Some True"
proof (rule prefixmatch_extends)
  have "star_collapse 0 [42] = Some [42]" by simp
  then show "prefixmatch 0 [97, 42] [97, 98] False = Some True"
    using impl_star [of 0 0 "[]" "[]" False 98 "[]" False]
    by (simp add: prefixmatch_def impl_tok parse_tok_def char_eq_def)
qed (simp_all add: glob_parse_Cons parse_tok_def)

end
