(* ===== verification/Util_Text.thy ===== *)
theory Util_Text
  imports Util_Num Glob
begin

text \<open>
  The remaining text helpers of \<^verbatim>\<open>src/redis-stable/src/util.c\<close>: memory sizes with units (\<^verbatim>\<open>memtoull\<close>),
  unsigned decimal and hexadecimal numbers (\<^verbatim>\<open>string2ull\<close>, \<^verbatim>\<open>string2ul_base16_async_signal_safe\<close>) and the
  two searches \<^verbatim>\<open>mempbrk\<close> and \<^verbatim>\<open>memmapchars\<close>. A C string is the list of its bytes before the NUL.
\<close>

section \<open>What the code uses of the C library\<close>

definition c_isspace :: "byte \<Rightarrow> bool" where
  "c_isspace c \<longleftrightarrow> c = 32 \<or> (9 \<le> c \<and> c \<le> 13)"

text \<open>\<^verbatim>\<open>strtoull(s, &endptr, 10)\<close>: the value, the offset of \<^verbatim>\<open>endptr\<close> and whether \<^verbatim>\<open>errno\<close> is \<^verbatim>\<open>ERANGE\<close>.\<close>

definition strtoull :: "bytes \<Rightarrow> nat \<times> nat \<times> bool" where
  "strtoull s =
     (let ws = takeWhile c_isspace s;
          s1 = drop (length ws) s;
          sign = (s1 \<noteq> [] \<and> (hd s1 = 43 \<or> hd s1 = 45));
          s2 = (if sign then tl s1 else s1);
          ds = takeWhile is_digit s2;
          v = dval 0 ds
      in if ds = [] then (0, 0, False)
         else (if v > ULLONG_MAX then ULLONG_MAX
               else if sign \<and> hd s1 = 45 then (ULLONG_MAX + 1 - v) mod (ULLONG_MAX + 1) else v,
               length s - length s2 + length ds, v > ULLONG_MAX))"

definition strcasecmp_eq :: "bytes \<Rightarrow> bytes \<Rightarrow> bool" where
  "strcasecmp_eq a b \<longleftrightarrow> map (\<lambda>c. tolower (uint c)) a = map (\<lambda>c. tolower (uint c)) b"

section \<open>The code\<close>

text \<open>\<^verbatim>\<open>memtoull\<close>: \<^term>\<open>None\<close> when \<^verbatim>\<open>*err\<close> is set.\<close>

definition memtoull :: "bytes \<Rightarrow> nat option" where
  "memtoull p =
     (if p \<noteq> [] \<and> hd p = 45 then None
      else let ds = takeWhile is_digit p;
               u = drop (length ds) p;
               mul = (if u = [] \<or> strcasecmp_eq u [98] then Some 1
                      else if strcasecmp_eq u [107] then Some 1000
                      else if strcasecmp_eq u [107, 98] then Some 1024
                      else if strcasecmp_eq u [109] then Some (1000 * 1000)
                      else if strcasecmp_eq u [109, 98] then Some (1024 * 1024)
                      else if strcasecmp_eq u [103] then Some (1000 * 1000 * 1000)
                      else if strcasecmp_eq u [103, 98] then Some (1024 * 1024 * 1024)
                      else None)
           in case mul of
                None \<Rightarrow> None
              | Some mul \<Rightarrow>
                  if length ds \<ge> 128 then None
                  else let (val, endptr, erange) = strtoull ds
                       in if endptr \<noteq> length ds then None else Some (val * mul mod (ULLONG_MAX + 1)))"

definition mempbrk :: "bytes \<Rightarrow> bytes \<Rightarrow> nat option" where
  "mempbrk s chars =
     (let n = length (takeWhile (\<lambda>c. \<not> list_ex (\<lambda>d. c = d) chars) s) in if n < length s then Some n else None)"

text \<open>One byte of \<^verbatim>\<open>memmapchars\<close>: the first byte of \<^verbatim>\<open>from\<close> that is equal decides.\<close>

fun map_char :: "(byte \<times> byte) list \<Rightarrow> byte \<Rightarrow> byte" where
  "map_char [] c = c"
| "map_char ((a, b) # xs) c = (if c = a then b else map_char xs c)"

definition memmapchars :: "bytes \<Rightarrow> bytes \<Rightarrow> bytes \<Rightarrow> bytes" where
  "memmapchars s from to = map (map_char (zip from to)) s"

definition string2ull :: "bytes \<Rightarrow> nat option" where
  "string2ull s =
     (case string2ll s of
        Some ll \<Rightarrow> if ll < 0 then None else Some (nat ll)
      | None \<Rightarrow>
          let (v, endptr, erange) = strtoull s
          in if erange \<or> \<not> (s \<noteq> [] \<and> endptr = length s) then None else Some v)"

definition safe_is_c_in_range :: "byte \<Rightarrow> byte \<Rightarrow> byte \<Rightarrow> bool" where
  "safe_is_c_in_range c start fin \<longleftrightarrow> c \<ge> start \<and> c \<le> fin"

definition base_16_char_type :: "byte \<Rightarrow> int" where
  "base_16_char_type c =
     (if safe_is_c_in_range c 48 57 then 0
      else if safe_is_c_in_range c 97 102 then 1
      else if safe_is_c_in_range c 65 70 then 2
      else -1)"

text \<open>\<^verbatim>\<open>ascii_to_dec[] = {'0', 'a' - 10, 'A' - 10}\<close>\<close>

definition ascii_to_dec :: "byte list" where
  "ascii_to_dec = [48, 97 - 10, 65 - 10]"

text \<open>
  \<^verbatim>\<open>string2ul_base16_async_signal_safe\<close>: the outer \<^term>\<open>None\<close> is a read outside the buffer (the byte at
  \<^verbatim>\<open>slen\<close> is read before the bound is tested), the inner one the result -1.
\<close>

function base16_loop :: "bytes \<Rightarrow> nat \<Rightarrow> nat \<Rightarrow> nat \<Rightarrow> nat option option" where
  "base16_loop src slen i result =
     (case rd src i of
        None \<Rightarrow> None
      | Some c \<Rightarrow>
          let char_type = base_16_char_type c
          in if char_type \<noteq> -1 \<and> i < slen then
               let curr_val = unat (c - ascii_to_dec ! nat char_type)
               in if result > ULLONG_MAX div 16 \<or> result > (ULLONG_MAX - curr_val) div 16 then Some None
                  else base16_loop src slen (i + 1) (result * 16 + curr_val)
             else Some (Some result))"
  by pat_completeness auto
termination by (relation "measure (\<lambda>(src, slen, i, result). slen - i)") auto

declare base16_loop.simps [simp del]

definition string2ul_base16_async_signal_safe :: "bytes \<Rightarrow> nat \<Rightarrow> nat option option" where
  "string2ul_base16_async_signal_safe src slen = base16_loop src slen 0 0"

section \<open>Lemmas\<close>

lemma takeWhile_dec: "u = [] \<or> \<not> is_digit (hd u) \<Longrightarrow> takeWhile is_digit (dec n @ u) = dec n"
  using dec_digits by (cases u) (auto simp: takeWhile_append)

lemma digit_not_space: "is_digit c \<Longrightarrow> \<not> c_isspace c \<and> c \<noteq> 43 \<and> c \<noteq> 45"
  by (auto simp: is_digit_def c_isspace_def word_le_nat_alt)

lemma strtoull_dec:
  assumes "n \<le> ULLONG_MAX"
  shows "strtoull (dec n) = (n, length (dec n), False)"
proof -
  obtain c cs where c: "dec n = c # cs" using length_dec_pos [of n] by (cases "dec n") auto
  then have d: "is_digit c" using dec_digits [of c n] by simp
  have "takeWhile c_isspace (dec n) = []" using c digit_not_space [OF d] by simp
  moreover have "takeWhile is_digit (dec n) = dec n" using takeWhile_dec [of "[]" n] by simp
  ultimately show ?thesis using assms c digit_not_space [OF d] dval_dec [of n]
    by (simp add: strtoull_def del: dval_dec)
qed

text \<open>
  Hexadecimal notation, independently of the code: the sixteen digits in their order, the letters in
  either case, and the value of a string of digits in positional notation.
\<close>

definition hex_table :: "(byte \<times> nat) list" where
  "hex_table = zip (map of_char ''0123456789abcdef'') [0..<16] @ zip (map of_char ''ABCDEF'') [10..<16]"

definition hex_digit :: "byte \<Rightarrow> nat option" where
  "hex_digit c = map_of hex_table c"

definition hex_number :: "bytes \<Rightarrow> nat" where
  "hex_number cs = (\<Sum>i < length cs. the (hex_digit (rev cs ! i)) * 16 ^ i)"

text \<open>The digits of the text: those among the first \<^verbatim>\<open>slen\<close> bytes, up to a byte that is no digit.\<close>

definition hex_prefix :: "nat \<Rightarrow> bytes \<Rightarrow> bytes" where
  "hex_prefix slen src = takeWhile (\<lambda>c. hex_digit c \<noteq> None) (take slen src)"

lemma hex_digit_eq:
  "hex_digit c =
     (if c = 48 then Some 0 else if c = 49 then Some 1 else if c = 50 then Some 2 else if c = 51 then Some 3
      else if c = 52 then Some 4 else if c = 53 then Some 5 else if c = 54 then Some 6 else if c = 55 then Some 7
      else if c = 56 then Some 8 else if c = 57 then Some 9 else if c = 97 then Some 10 else if c = 98 then Some 11
      else if c = 99 then Some 12 else if c = 100 then Some 13 else if c = 101 then Some 14 else if c = 102 then Some 15
      else if c = 65 then Some 10 else if c = 66 then Some 11 else if c = 67 then Some 12 else if c = 68 then Some 13
      else if c = 69 then Some 14 else if c = 70 then Some 15 else None)"
  by (simp add: hex_digit_def hex_table_def upt_rec)

lemma hex_ranges:
  "48 \<le> c \<and> c \<le> 57 \<longleftrightarrow> (c :: byte) \<in> {48, 49, 50, 51, 52, 53, 54, 55, 56, 57}"
  "97 \<le> c \<and> c \<le> 102 \<longleftrightarrow> (c :: byte) \<in> {97, 98, 99, 100, 101, 102}"
  "65 \<le> c \<and> c \<le> 70 \<longleftrightarrow> (c :: byte) \<in> {65, 66, 67, 68, 69, 70}"
  by (simp add: word_le_nat_alt word_unat_eq_iff, arith)+

lemma hex_digit_char_type:
  "hex_digit c = (if base_16_char_type c = -1 then None
     else Some (unat (c - ascii_to_dec ! nat (base_16_char_type c))))"
  unfolding base_16_char_type_def safe_is_c_in_range_def hex_ranges
  by (auto simp: hex_digit_eq ascii_to_dec_def)

lemma hex_number_snoc:
  "hex_number (cs @ [c]) = hex_number cs * 16 + the (hex_digit c)"
proof -
  have "hex_number (cs @ [c]) = (\<Sum>i < Suc (length cs). the (hex_digit ((c # rev cs) ! i)) * 16 ^ i)"
    by (simp add: hex_number_def)
  also have "\<dots> = the (hex_digit c) + (\<Sum>i < length cs. the (hex_digit (rev cs ! i)) * 16 ^ Suc i)"
    by (subst sum.lessThan_Suc_shift) simp
  finally show ?thesis unfolding hex_number_def by (simp add: sum_distrib_left mult_ac)
qed

lemma hex_number_append_le: "hex_number cs \<le> hex_number (cs @ ds)"
proof (induction ds rule: rev_induct)
  case (snoc d ds)
  then show ?case using hex_number_snoc [of "cs @ ds" d] by simp
qed simp

lemma base16_overflow:
  "v < 16 \<Longrightarrow> (r > ULLONG_MAX div 16 \<or> r > (ULLONG_MAX - v) div 16) \<longleftrightarrow> r * 16 + v > ULLONG_MAX"
  by (auto simp: ULLONG_MAX_def)

lemma hex_digit_less: "hex_digit c = Some v \<Longrightarrow> v < 16"
  unfolding hex_digit_def by (drule map_of_SomeD) (auto simp: hex_table_def set_zip nth_append)

text \<open>The byte behind the digits, and the next digit.\<close>

lemma hex_prefix_end:
  assumes "length (hex_prefix slen src) < length src"
  shows "hex_digit (src ! length (hex_prefix slen src)) = None \<or> \<not> length (hex_prefix slen src) < slen"
  using nth_length_takeWhile [of "\<lambda>c. hex_digit c \<noteq> None" "take slen src"] assms
  by (auto simp: hex_prefix_def)

lemma hex_prefix_next:
  assumes "hex_prefix slen src = A @ c # ds"
  shows "hex_digit c \<noteq> None" "length A < slen" "length A < length src" "src ! length A = c"
proof -
  have len: "length A < length (hex_prefix slen src)" using assms by simp
  moreover have "length (hex_prefix slen src) \<le> length (take slen src)"
    unfolding hex_prefix_def by (rule length_takeWhile_le)
  ultimately show A: "length A < slen" "length A < length src" by simp_all
  have "c \<in> set (hex_prefix slen src)" using assms by simp
  then show "hex_digit c \<noteq> None" unfolding hex_prefix_def by (rule set_takeWhileD [THEN conjunct2])
  have "hex_prefix slen src ! length A = take slen src ! length A"
    using len unfolding hex_prefix_def by (rule takeWhile_nth)
  then show "src ! length A = c" using A assms by simp
qed

text \<open>The loop, when the digits \<open>A\<close> have been read.\<close>

lemma base16_loop_value:
  assumes "hex_prefix slen src = A @ ds"
  shows "base16_loop src slen (length A) (hex_number A) =
    (if ds \<noteq> [] \<and> hex_number (A @ ds) > ULLONG_MAX then Some None
     else if length (A @ ds) < length src then Some (Some (hex_number (A @ ds))) else None)"
  using assms
proof (induction ds arbitrary: A)
  case Nil
  then show ?case using hex_prefix_end [of slen src]
    by (subst base16_loop.simps) (auto simp: rd_def hex_digit_char_type Let_def split: if_splits)
next
  case (Cons c ds)
  note nx = hex_prefix_next [OF Cons.prems]
  obtain v where v: "hex_digit c = Some v" using nx(1) by blast
  have ty: "base_16_char_type c \<noteq> -1" "unat (c - ascii_to_dec ! nat (base_16_char_type c)) = v"
    using v by (simp_all add: hex_digit_char_type split: if_splits)
  have sn: "hex_number (A @ [c]) = hex_number A * 16 + v" using v by (simp add: hex_number_snoc)
  have step: "base16_loop src slen (length A) (hex_number A) =
      (if hex_number (A @ [c]) > ULLONG_MAX then Some None
       else base16_loop src slen (length (A @ [c])) (hex_number (A @ [c])))"
    using base16_overflow [OF hex_digit_less [OF v], of "hex_number A"] nx(2-4) ty
    by (subst base16_loop.simps) (simp add: rd_def sn Let_def)
  show ?case
    using step Cons.IH [of "A @ [c]"] Cons.prems hex_number_append_le [of "A @ [c]" ds] by auto
qed

text \<open>\<^verbatim>\<open>string2ull\<close> accepts what only \<^verbatim>\<open>strtoull\<close> accepts: a negative number behind a space.\<close>

lemma string2ull_space_minus: "string2ull [32, 45, 49] = Some ULLONG_MAX"
proof -
  have "string2ll [32, 45, 49] = None"
    by (simp add: string2ll_def LONG_STR_SIZE_def)
  then show ?thesis
    by (simp add: string2ull_def strtoull_def c_isspace_def is_digit_def ULLONG_MAX_def Let_def)
qed

text \<open>\<^verbatim>\<open>memtoull\<close> does not look at \<^verbatim>\<open>ERANGE\<close>: a size that does not fit in 64 bits is accepted.\<close>

lemma memtoull_units:
  assumes "n \<le> ULLONG_MAX"
  shows "memtoull (dec n) = Some n" "memtoull (dec n @ [98]) = Some n"
    "memtoull (dec n @ [107]) = Some (n * 1000 mod 2 ^ 64)" "memtoull (dec n @ [107, 98]) = Some (n * 2 ^ 10 mod 2 ^ 64)"
    "memtoull (dec n @ [109]) = Some (n * 10 ^ 6 mod 2 ^ 64)" "memtoull (dec n @ [109, 98]) = Some (n * 2 ^ 20 mod 2 ^ 64)"
    "memtoull (dec n @ [103]) = Some (n * 10 ^ 9 mod 2 ^ 64)" "memtoull (dec n @ [103, 98]) = Some (n * 2 ^ 30 mod 2 ^ 64)"
proof -
  have l: "length (dec n) < 128"
  proof -
    have "n < 10 ^ 20" using assms by (simp add: ULLONG_MAX_def)
    then show ?thesis using length_dec_less [of 20 n] by simp
  qed
  have h: "\<not> (dec n @ u \<noteq> [] \<and> hd (dec n @ u) = 45)" for u
  proof -
    obtain c cs where "dec n = c # cs" using length_dec_pos [of n] by (cases "dec n") auto
    then show ?thesis using dec_digits [of c n] digit_not_space [of c] by simp
  qed
  have tw: "takeWhile is_digit (dec n @ u) = dec n" if "u = [] \<or> hd u \<in> {98, 107, 109, 103}" for u
    using that by (intro takeWhile_dec) (auto simp: is_digit_def word_le_nat_alt)
  note facts = memtoull_def if_not_P [OF h] tw strtoull_dec [OF assms] Let_def ULLONG_MAX_def strcasecmp_eq_def tolower_def
  have "memtoull (dec n @ []) = Some n" using l assms h [of "[]"] by (simp add: facts del: append_Nil2)
  then show "memtoull (dec n) = Some n" by simp
  show "memtoull (dec n @ [98]) = Some n" using l assms h [of "[98]"] by (simp add: facts)
  show "memtoull (dec n @ [107]) = Some (n * 1000 mod 2 ^ 64)" using l h [of "[107]"] by (simp add: facts)
  show "memtoull (dec n @ [107, 98]) = Some (n * 2 ^ 10 mod 2 ^ 64)" using l h [of "[107, 98]"] by (simp add: facts)
  show "memtoull (dec n @ [109]) = Some (n * 10 ^ 6 mod 2 ^ 64)" using l h [of "[109]"] by (simp add: facts)
  show "memtoull (dec n @ [109, 98]) = Some (n * 2 ^ 20 mod 2 ^ 64)" using l h [of "[109, 98]"] by (simp add: facts)
  show "memtoull (dec n @ [103]) = Some (n * 10 ^ 9 mod 2 ^ 64)" using l h [of "[103]"] by (simp add: facts)
  show "memtoull (dec n @ [103, 98]) = Some (n * 2 ^ 30 mod 2 ^ 64)" using l h [of "[103, 98]"] by (simp add: facts)
qed

lemma string2ull_dec:
  assumes "n \<le> ULLONG_MAX"
  shows "string2ull (dec n) = Some n"
proof (cases "n < 2 ^ 63")
  case True
  then have "string2ll (dec_int (int n)) = Some (int n)" by (intro string2ll_dec_int) simp_all
  then show ?thesis by (simp add: string2ull_def dec_int_def)
next
  case False
  have "string2ll (dec n) = None"
  proof (rule ccontr)
    assume "string2ll (dec n) \<noteq> None"
    then obtain v where v: "string2ll (dec n) = Some v" by blast
    then have "dec n = dec_int v" "v < 2 ^ 63" using string2ll_sound by auto
    moreover have "hd (dec n) \<noteq> 45"
    proof -
      obtain c cs where "dec n = c # cs" using length_dec_pos [of n] by (cases "dec n") auto
      then show ?thesis using dec_digits [of c n] digit_not_space [of c] by simp
    qed
    ultimately have "dec n = dec (nat v)" "0 \<le> v" by (auto simp: dec_int_def split: if_splits)
    then have "n = nat v" by (metis dval_dec)
    then show False using False \<open>v < 2 ^ 63\<close> \<open>0 \<le> v\<close> by (simp add: nat_less_iff)
  qed
  then show ?thesis using strtoull_dec [OF assms] length_dec_pos [of n] by (simp add: string2ull_def)
qed

section \<open>Properties\<close>

text \<open>
  C26: parsing unsigned hexadecimal text, as done in signal handlers, on any bytes and any \<^verbatim>\<open>slen\<close>: the
  result is the number that the leading hexadecimal digits among the first \<^verbatim>\<open>slen\<close> bytes denote, and -1
  when it does not fit in 64 bits. The byte behind the digits is read too, also when \<^verbatim>\<open>slen\<close> ends the text:
  the read stays inside the buffer exactly when the digits do not fill it.
\<close>

theorem string2ul_base16_correct:
  "string2ul_base16_async_signal_safe src slen =
    (let ds = hex_prefix slen src
     in if hex_number ds > ULLONG_MAX then Some None
        else if length ds < length src then Some (Some (hex_number ds)) else None)"
  using base16_loop_value [of slen src "[]" "hex_prefix slen src"]
  by (auto simp: string2ul_base16_async_signal_safe_def hex_number_def Let_def ULLONG_MAX_def)

end
