(* ===== verification/Dict.thy ===== *)
theory Dict
  imports Redis_Base "HOL-Library.Multiset"
begin

text \<open>
  The hash table of \<^verbatim>\<open>src/redis-stable/src/dict.c\<close>: chained buckets, two tables during an incremental
  rehash, automatic growth and shrinking.

  A bucket is the list of its entries. An entry is a \<^verbatim>\<open>dictEntry\<close> with a value, a \<^verbatim>\<open>dictEntryNoValue\<close>, or
  the key itself stored in the place of the entry pointer (\<open>EntryKey\<close>), which has no \<^verbatim>\<open>next\<close> field. The
  three arrays of \<^verbatim>\<open>struct dict\<close> that are indexed by the table are grouped in a record per table. The
  outer \<^term>\<open>None\<close> is a failing assertion or an access outside a table. Keys are compared with equality
  (\<^verbatim>\<open>keyCompare\<close>), \<^verbatim>\<open>keyFromStoredKey\<close> is the identity and the destructors are left out: they only
  free memory. The callbacks \<^verbatim>\<open>rehashingStarted\<close>, \<^verbatim>\<open>rehashingCompleted\<close> and \<^verbatim>\<open>bucketChanged\<close> are logged
  in \<open>callbacks\<close>, the first two with the size of the old table that \<^verbatim>\<open>dictRehashingInfo\<close> gives them.
  \<^verbatim>\<open>dict_can_resize\<close> is the parameter \<open>cr\<close>.
\<close>

section \<open>Data\<close>

datatype ('k, 'v) dictEntry = EntryVal 'k 'v | EntryNoValue 'k | EntryKey 'k

datatype dict_event = RehashingStarted nat | RehashingCompleted nat | BucketChanged int

datatype dictResizeEnable = DICT_RESIZE_ENABLE | DICT_RESIZE_AVOID | DICT_RESIZE_FORBID

record ('k, 'v) dictht =
  ht_table :: "('k, 'v) dictEntry list list"
  ht_used :: nat
  ht_size_exp :: int

record ('k, 'v) dict =
  ht0 :: "('k, 'v) dictht"
  ht1 :: "('k, 'v) dictht"
  rehashidx :: int
  pauserehash :: nat
  pauseAutoResize :: int
  callbacks :: "dict_event list"

text \<open>
  \<^verbatim>\<open>dictType\<close>. \<open>resizeAllowed\<close> gets the memory asked for and the two numbers whose quotient the code
  passes; \<open>uninit\<close> is what the value of a fresh entry holds before \<^verbatim>\<open>dictSetVal\<close>.
\<close>

record ('k, 'v) dictType =
  hashFunction :: "'k \<Rightarrow> u64"
  resizeAllowed :: "(nat \<Rightarrow> nat \<Rightarrow> nat \<Rightarrow> bool) option"
  no_value :: bool
  force_full_rehash :: bool
  uninit :: 'v

fun dictGetKey :: "('k, 'v) dictEntry \<Rightarrow> 'k" where
  "dictGetKey (EntryVal k v) = k"
| "dictGetKey (EntryNoValue k) = k"
| "dictGetKey (EntryKey k) = k"

fun entryIsKey :: "('k, 'v) dictEntry \<Rightarrow> bool" where
  "entryIsKey (EntryKey k) = True"
| "entryIsKey _ = False"

fun dictGetVal :: "('k, 'v) dictEntry \<Rightarrow> 'v option" where
  "dictGetVal (EntryVal k v) = Some v"
| "dictGetVal _ = None"

definition DICTHT_SIZE :: "int \<Rightarrow> nat" where
  "DICTHT_SIZE exp = (if exp = -1 then 0 else 2 ^ nat exp)"

definition DICTHT_SIZE_MASK :: "int \<Rightarrow> u64" where
  "DICTHT_SIZE_MASK exp = (if exp = -1 then 0 else of_nat (DICTHT_SIZE exp) - 1)"

definition dict_idx :: "u64 \<Rightarrow> int \<Rightarrow> nat" where
  "dict_idx h exp = unat (h AND DICTHT_SIZE_MASK exp)"

definition dictBuckets :: "('k, 'v) dict \<Rightarrow> nat" where
  "dictBuckets d = DICTHT_SIZE (ht_size_exp (ht0 d)) + DICTHT_SIZE (ht_size_exp (ht1 d))"

definition dictSize :: "('k, 'v) dict \<Rightarrow> nat" where
  "dictSize d = ht_used (ht0 d) + ht_used (ht1 d)"

definition dictIsRehashing :: "('k, 'v) dict \<Rightarrow> bool" where
  "dictIsRehashing d \<longleftrightarrow> rehashidx d \<noteq> -1"

definition ht_at :: "('k, 'v) dict \<Rightarrow> nat \<Rightarrow> ('k, 'v) dictht" where
  "ht_at d t = (if t = 0 then ht0 d else ht1 d)"

definition set_ht :: "('k, 'v) dict \<Rightarrow> nat \<Rightarrow> ('k, 'v) dictht \<Rightarrow> ('k, 'v) dict" where
  "set_ht d t h = (if t = 0 then d\<lparr>ht0 := h\<rparr> else d\<lparr>ht1 := h\<rparr>)"

text \<open>\<^verbatim>\<open>d->ht_table[t][i]\<close>, and the assignment to it.\<close>

definition bucket_at :: "('k, 'v) dictht \<Rightarrow> nat \<Rightarrow> ('k, 'v) dictEntry list option" where
  "bucket_at h i = (if i < length (ht_table h) then Some (ht_table h ! i) else None)"

definition set_bucket :: "('k, 'v) dictht \<Rightarrow> nat \<Rightarrow> ('k, 'v) dictEntry list \<Rightarrow> ('k, 'v) dictht" where
  "set_bucket h i c = h\<lparr>ht_table := (ht_table h)[i := c]\<rparr>"

definition log_event :: "('k, 'v) dict \<Rightarrow> dict_event list \<Rightarrow> ('k, 'v) dict" where
  "log_event d es = d\<lparr>callbacks := callbacks d @ es\<rparr>"

definition DICT_HT_INITIAL_EXP :: int where "DICT_HT_INITIAL_EXP = 2"
definition DICT_HT_INITIAL_SIZE :: nat where "DICT_HT_INITIAL_SIZE = 4"
definition HASHTABLE_MIN_FILL :: nat where "HASHTABLE_MIN_FILL = 8"
definition dict_force_resize_ratio :: nat where "dict_force_resize_ratio = 4"
definition LONG_MAX :: nat where "LONG_MAX = 9223372036854775807"

section \<open>Creation\<close>

definition dictReset :: "('k, 'v) dictht" where
  "dictReset = \<lparr>ht_table = [], ht_used = 0, ht_size_exp = -1\<rparr>"

definition dictInit :: "('k, 'v) dict" where
  "dictInit = \<lparr>ht0 = dictReset, ht1 = dictReset, rehashidx = -1, pauserehash = 0, pauseAutoResize = 0, callbacks = []\<rparr>"

definition dictCreate :: "('k, 'v) dict" where
  "dictCreate = dictInit"

section \<open>Rehashing\<close>

text \<open>
  One turn of the loop of \<^verbatim>\<open>rehashEntriesInBucketAtIndex\<close>: the bucket of the new table, and the form in
  which the entry is stored there.
\<close>

definition rehash_index :: "('k, 'v) dictType \<Rightarrow> ('k, 'v) dict \<Rightarrow> nat \<Rightarrow> 'k \<Rightarrow> nat" where
  "rehash_index ty d idx key =
     (if ht_size_exp (ht1 d) > ht_size_exp (ht0 d) then dict_idx (hashFunction ty key) (ht_size_exp (ht1 d))
      else dict_idx (of_nat idx) (ht_size_exp (ht1 d)))"

definition rehash_form :: "('k, 'v) dictType \<Rightarrow> ('k, 'v) dictEntry \<Rightarrow> ('k, 'v) dictEntry list \<Rightarrow> ('k, 'v) dictEntry option" where
  "rehash_form ty de dest =
     (if no_value ty then
        (if dest = [] then Some (EntryKey (dictGetKey de))
         else if entryIsKey de then Some (EntryNoValue (dictGetKey de))
         else Some de)
      else if entryIsKey de then None else Some de)"

fun rehash_chain :: "('k, 'v) dictType \<Rightarrow> nat \<Rightarrow> ('k, 'v) dict \<Rightarrow> ('k, 'v) dictEntry list \<Rightarrow> ('k, 'v) dict option" where
  "rehash_chain ty idx d [] = Some d"
| "rehash_chain ty idx d (de # chain) =
     do {
       let h = rehash_index ty d idx (dictGetKey de);
       dest \<leftarrow> bucket_at (ht1 d) h;
       de \<leftarrow> rehash_form ty de dest;
       let n0 = ht0 d;
       let n1 = set_bucket (ht1 d) h (de # dest);
       rehash_chain ty idx
         (d\<lparr>ht0 := n0\<lparr>ht_used := ht_used n0 - 1\<rparr>, ht1 := n1\<lparr>ht_used := ht_used n1 + 1\<rparr>\<rparr>) chain
     }"

definition rehashEntriesInBucketAtIndex :: "('k, 'v) dictType \<Rightarrow> ('k, 'v) dict \<Rightarrow> nat \<Rightarrow> ('k, 'v) dict option" where
  "rehashEntriesInBucketAtIndex ty d idx =
     do {
       chain \<leftarrow> bucket_at (ht0 d) idx;
       d \<leftarrow> rehash_chain ty idx d chain;
       Some (d\<lparr>ht0 := set_bucket (ht0 d) idx []\<rparr>)
     }"

definition dictCheckRehashingCompleted :: "('k, 'v) dict \<Rightarrow> ('k, 'v) dict \<times> bool" where
  "dictCheckRehashingCompleted d =
     (if ht_used (ht0 d) \<noteq> 0 then (d, False)
      else let d = log_event d [RehashingCompleted (DICTHT_SIZE (ht_size_exp (ht0 d))),
               BucketChanged (- int (DICTHT_SIZE (ht_size_exp (ht0 d))))]
           in (d\<lparr>ht0 := ht1 d, ht1 := dictReset, rehashidx := -1\<rparr>, True))"

text \<open>The condition under which \<^verbatim>\<open>dictRehash\<close> and \<^verbatim>\<open>_dictBucketRehash\<close> do nothing.\<close>

definition rehash_refused :: "dictResizeEnable \<Rightarrow> ('k, 'v) dict \<Rightarrow> bool" where
  "rehash_refused cr d =
     (let s0 = DICTHT_SIZE (ht_size_exp (ht0 d)); s1 = DICTHT_SIZE (ht_size_exp (ht1 d))
      in cr = DICT_RESIZE_FORBID \<or> \<not> dictIsRehashing d \<or>
         (cr = DICT_RESIZE_AVOID \<and>
           ((s1 > s0 \<and> s1 < dict_force_resize_ratio * s0) \<or>
            (s1 < s0 \<and> s0 < HASHTABLE_MIN_FILL * dict_force_resize_ratio * s1))))"

text \<open>
  The inner loop of \<^verbatim>\<open>dictRehash\<close> over empty buckets: the next index, the empty visits left, and whether
  the function returns because there are none left. The counter of empty visits is a 32-bit \<^verbatim>\<open>int\<close>, of
  which only the comparison with zero matters.
\<close>

function skip_empty :: "('k, 'v) dictEntry list list \<Rightarrow> nat \<Rightarrow> 32 word \<Rightarrow> (nat \<times> 32 word \<times> bool) option" where
  "skip_empty tbl i empty_visits =
     (if i < length tbl then
        (if tbl ! i = [] then
           (if empty_visits - 1 = 0 then Some (i + 1, 0, True) else skip_empty tbl (i + 1) (empty_visits - 1))
         else Some (i, empty_visits, False))
      else None)"
  by pat_completeness auto
termination by (relation "measure (\<lambda>(tbl, i, e). length tbl - i)") auto

declare skip_empty.simps [simp del]

fun rehash_loop :: "('k, 'v) dictType \<Rightarrow> nat \<Rightarrow> 32 word \<Rightarrow> ('k, 'v) dict \<Rightarrow> (('k, 'v) dict \<times> bool) option" where
  "rehash_loop ty 0 empty_visits d = Some (d, False)"
| "rehash_loop ty (Suc n) empty_visits d =
     (if ht_used (ht0 d) = 0 then Some (d, False)
      else if \<not> int (DICTHT_SIZE (ht_size_exp (ht0 d))) > rehashidx d then None
      else do {
        (i, empty_visits, stop) \<leftarrow> skip_empty (ht_table (ht0 d)) (nat (rehashidx d)) empty_visits;
        let d = d\<lparr>rehashidx := int i\<rparr>;
        if stop then Some (d, True)
        else do {
          d \<leftarrow> rehashEntriesInBucketAtIndex ty d i;
          rehash_loop ty n empty_visits (d\<lparr>rehashidx := int i + 1\<rparr>)
        }
      })"

definition dictRehash :: "dictResizeEnable \<Rightarrow> ('k, 'v) dictType \<Rightarrow> ('k, 'v) dict \<Rightarrow> nat \<Rightarrow> (('k, 'v) dict \<times> bool) option" where
  "dictRehash cr ty d n =
     (if rehash_refused cr d then Some (d, False)
      else do {
        (d, stop) \<leftarrow> rehash_loop ty n (of_nat n * 10) d;
        if stop then Some (d, True)
        else let (d, completed) = dictCheckRehashingCompleted d in Some (d, \<not> completed)
      })"

text \<open>\<^verbatim>\<open>while (dictRehash(d, n)) ...\<close>; \<open>stop i\<close> says that the loop is left after turn \<open>i\<close> (a timer).\<close>

partial_function (option) rehash_while ::
    "dictResizeEnable \<Rightarrow> ('k, 'v) dictType \<Rightarrow> nat \<Rightarrow> (nat \<Rightarrow> bool) \<Rightarrow> nat \<Rightarrow> ('k, 'v) dict \<Rightarrow> (('k, 'v) dict \<times> nat) option" where
  "rehash_while cr ty n stop i d =
     do {
       (d, more) \<leftarrow> dictRehash cr ty d n;
       if \<not> more then Some (d, i)
       else if stop (i + 1) then Some (d, i + 1)
       else rehash_while cr ty n stop (i + 1) d
     }"

text \<open>\<^verbatim>\<open>dictRehashMicroseconds\<close>: \<open>timeout i\<close> is the outcome of the timer test after turn \<open>i\<close>.\<close>

definition dictRehashMicroseconds ::
    "dictResizeEnable \<Rightarrow> ('k, 'v) dictType \<Rightarrow> (nat \<Rightarrow> bool) \<Rightarrow> ('k, 'v) dict \<Rightarrow> (('k, 'v) dict \<times> nat) option" where
  "dictRehashMicroseconds cr ty timeout d =
     (if pauserehash d > 0 then Some (d, 0)
      else map_option (\<lambda>(d, i). (d, i * 100)) (rehash_while cr ty 100 timeout 0 d))"

definition dictRehashStep :: "dictResizeEnable \<Rightarrow> ('k, 'v) dictType \<Rightarrow> ('k, 'v) dict \<Rightarrow> ('k, 'v) dict option" where
  "dictRehashStep cr ty d = (if pauserehash d = 0 then map_option fst (dictRehash cr ty d 1) else Some d)"

definition dictBucketRehash ::
    "dictResizeEnable \<Rightarrow> ('k, 'v) dictType \<Rightarrow> ('k, 'v) dict \<Rightarrow> nat \<Rightarrow> (('k, 'v) dict \<times> bool) option" where
  "dictBucketRehash cr ty d idx =
     (if pauserehash d \<noteq> 0 \<or> rehash_refused cr d then Some (d, False)
      else do {
        d \<leftarrow> rehashEntriesInBucketAtIndex ty d idx;
        Some (fst (dictCheckRehashingCompleted d), True)
      })"

definition dictRehashStepIfNeeded ::
    "dictResizeEnable \<Rightarrow> ('k, 'v) dictType \<Rightarrow> ('k, 'v) dict \<Rightarrow> nat \<Rightarrow> ('k, 'v) dict option" where
  "dictRehashStepIfNeeded cr ty d visitedIdx =
     (if \<not> dictIsRehashing d \<or> pauserehash d \<noteq> 0 then Some d
      else if int visitedIdx \<ge> rehashidx d then do {
        c \<leftarrow> bucket_at (ht0 d) visitedIdx;
        if c \<noteq> [] then map_option fst (dictBucketRehash cr ty d visitedIdx)
        else map_option fst (dictRehash cr ty d 1)
      }
      else map_option fst (dictRehash cr ty d 1))"

section \<open>Resizing\<close>

text \<open>\<^verbatim>\<open>64 - __builtin_clzl(n)\<close>: the number of bits of \<open>n\<close>.\<close>

fun bit_length :: "nat \<Rightarrow> nat" where
  "bit_length n = (if n = 0 then 0 else Suc (bit_length (n div 2)))"

declare bit_length.simps [simp del]

definition dictNextExp :: "nat \<Rightarrow> int" where
  "dictNextExp sz =
     (if sz \<le> DICT_HT_INITIAL_SIZE then DICT_HT_INITIAL_EXP
      else if sz \<ge> LONG_MAX then 63
      else int (bit_length (sz - 1)))"

text \<open>
  \<^verbatim>\<open>_dictResize\<close>: \<open>tryalloc\<close> is \<^term>\<open>Some False\<close> when \<^verbatim>\<open>malloc_failed\<close> is passed and the allocation fails. The
  results are the dict, whether it was resized, and \<^verbatim>\<open>*malloc_failed\<close>.
\<close>

definition dictResize ::
    "dictResizeEnable \<Rightarrow> ('k, 'v) dictType \<Rightarrow> bool option \<Rightarrow> ('k, 'v) dict \<Rightarrow> nat \<Rightarrow> (('k, 'v) dict \<times> bool \<times> bool) option" where
  "dictResize cr ty tryalloc d sz =
     (if dictIsRehashing d then None
      else let new_ht_size_exp = dictNextExp sz; newsize = DICTHT_SIZE new_ht_size_exp
           in if newsize < sz \<or> newsize * 8 mod 2 ^ 64 < newsize then Some (d, False, False)
              else if new_ht_size_exp = ht_size_exp (ht0 d) then Some (d, False, False)
              else if tryalloc = Some False then Some (d, False, True)
              else let new = \<lparr>ht_table = replicate newsize [], ht_used = 0, ht_size_exp = new_ht_size_exp\<rparr>;
                       d = log_event (d\<lparr>ht1 := new, rehashidx := 0\<rparr>) 
                         [RehashingStarted (DICTHT_SIZE (ht_size_exp (ht0 d))), BucketChanged (int newsize)]
                   in if ht_table (ht0 d) = [] \<or> ht_used (ht0 d) = 0 then
                        let d = log_event d [RehashingCompleted (DICTHT_SIZE (ht_size_exp (ht0 d))),
               BucketChanged (- int (DICTHT_SIZE (ht_size_exp (ht0 d))))]
                        in Some (d\<lparr>ht0 := new, ht1 := dictReset, rehashidx := -1\<rparr>, True, False)
                      else if force_full_rehash ty then
                        map_option (\<lambda>(d, _). (d, True, False)) (rehash_while cr ty 1000 (\<lambda>_. False) 0 d)
                      else Some (d, True, False))"

definition dictExpand0 ::
    "dictResizeEnable \<Rightarrow> ('k, 'v) dictType \<Rightarrow> bool option \<Rightarrow> ('k, 'v) dict \<Rightarrow> nat \<Rightarrow> (('k, 'v) dict \<times> bool \<times> bool) option" where
  "dictExpand0 cr ty tryalloc d sz =
     (if dictIsRehashing d \<or> ht_used (ht0 d) > sz \<or> DICTHT_SIZE (ht_size_exp (ht0 d)) \<ge> sz then Some (d, False, False)
      else dictResize cr ty tryalloc d sz)"

definition dictExpand :: "dictResizeEnable \<Rightarrow> ('k, 'v) dictType \<Rightarrow> ('k, 'v) dict \<Rightarrow> nat \<Rightarrow> (('k, 'v) dict \<times> bool) option" where
  "dictExpand cr ty d sz = map_option (\<lambda>(d, ok, _). (d, ok)) (dictExpand0 cr ty None d sz)"

definition dictTryExpand ::
    "dictResizeEnable \<Rightarrow> ('k, 'v) dictType \<Rightarrow> bool \<Rightarrow> ('k, 'v) dict \<Rightarrow> nat \<Rightarrow> (('k, 'v) dict \<times> bool) option" where
  "dictTryExpand cr ty alloc d sz = map_option (\<lambda>(d, _, failed). (d, \<not> failed)) (dictExpand0 cr ty (Some alloc) d sz)"

definition dictShrink :: "dictResizeEnable \<Rightarrow> ('k, 'v) dictType \<Rightarrow> ('k, 'v) dict \<Rightarrow> nat \<Rightarrow> (('k, 'v) dict \<times> bool) option" where
  "dictShrink cr ty d sz =
     (if dictIsRehashing d \<or> ht_used (ht0 d) > sz \<or> DICTHT_SIZE (ht_size_exp (ht0 d)) \<le> sz then Some (d, False)
      else map_option (\<lambda>(d, ok, _). (d, ok)) (dictResize cr ty None d sz))"

definition dictTypeResizeAllowed :: "('k, 'v) dictType \<Rightarrow> ('k, 'v) dict \<Rightarrow> nat \<Rightarrow> bool" where
  "dictTypeResizeAllowed ty d sz =
     (case resizeAllowed ty of
        None \<Rightarrow> True
      | Some f \<Rightarrow> f (DICTHT_SIZE (dictNextExp sz) * 8) (ht_used (ht0 d)) (DICTHT_SIZE (ht_size_exp (ht0 d))))"

definition dictExpandIfNeeded :: "dictResizeEnable \<Rightarrow> ('k, 'v) dictType \<Rightarrow> ('k, 'v) dict \<Rightarrow> (('k, 'v) dict \<times> bool) option" where
  "dictExpandIfNeeded cr ty d =
     (let sz = DICTHT_SIZE (ht_size_exp (ht0 d)); n = ht_used (ht0 d)
      in if dictIsRehashing d then Some (d, True)
         else if sz = 0 then map_option (\<lambda>(d, _). (d, True)) (dictExpand cr ty d DICT_HT_INITIAL_SIZE)
         else if (cr = DICT_RESIZE_ENABLE \<and> n \<ge> sz) \<or> (cr \<noteq> DICT_RESIZE_FORBID \<and> n \<ge> dict_force_resize_ratio * sz) then
           (if dictTypeResizeAllowed ty d (n + 1) then map_option (\<lambda>(d, _). (d, True)) (dictExpand cr ty d (n + 1))
            else Some (d, True))
         else Some (d, False))"

text \<open>\<^verbatim>\<open>_dictExpandIfNeeded\<close> and \<^verbatim>\<open>_dictShrinkIfNeeded\<close>: nothing while automatic resizing is paused.\<close>

definition dictExpandIfNeeded0 :: "dictResizeEnable \<Rightarrow> ('k, 'v) dictType \<Rightarrow> ('k, 'v) dict \<Rightarrow> ('k, 'v) dict option" where
  "dictExpandIfNeeded0 cr ty d =
     (if pauseAutoResize d > 0 then Some d else map_option fst (dictExpandIfNeeded cr ty d))"

definition dictShrinkIfNeeded :: "dictResizeEnable \<Rightarrow> ('k, 'v) dictType \<Rightarrow> ('k, 'v) dict \<Rightarrow> (('k, 'v) dict \<times> bool) option" where
  "dictShrinkIfNeeded cr ty d =
     (let sz = DICTHT_SIZE (ht_size_exp (ht0 d)); n = ht_used (ht0 d)
      in if dictIsRehashing d then Some (d, True)
         else if sz \<le> DICT_HT_INITIAL_SIZE then Some (d, True)
         else if (cr = DICT_RESIZE_ENABLE \<and> n * HASHTABLE_MIN_FILL \<le> sz) \<or>
                 (cr \<noteq> DICT_RESIZE_FORBID \<and> n * HASHTABLE_MIN_FILL * dict_force_resize_ratio \<le> sz) then
           (if dictTypeResizeAllowed ty d n then map_option (\<lambda>(d, _). (d, True)) (dictShrink cr ty d n)
            else Some (d, True))
         else Some (d, False))"

definition dictShrinkIfNeeded0 :: "dictResizeEnable \<Rightarrow> ('k, 'v) dictType \<Rightarrow> ('k, 'v) dict \<Rightarrow> ('k, 'v) dict option" where
  "dictShrinkIfNeeded0 cr ty d =
     (if pauseAutoResize d > 0 then Some d else map_option fst (dictShrinkIfNeeded cr ty d))"

end
