(* ===== verification/Dict_Inv.thy ===== *)
theory Dict_Inv
  imports Dict "HOL-Library.Sublist"
begin

text \<open>
  The invariant of the hash table of \<^verbatim>\<open>dict.c\<close> and the proof that rehashing and resizing keep it and do
  not change the contents: every entry sits in the bucket of its hash, keys are distinct over the two
  tables, the buckets below \<^verbatim>\<open>rehashidx\<close> are empty, and a key that is stored in the place of an entry
  is the last of its bucket.
\<close>

section \<open>Lists of buckets\<close>

lemma mset_concat_update:
  "i < length xs \<Longrightarrow> mset (concat (xs[i := ys])) + mset (xs ! i) = mset (concat xs) + mset ys"
proof -
  assume i: "i < length xs"
  have "concat xs = concat (take i xs) @ xs ! i @ concat (drop (Suc i) xs)"
    by (subst id_take_nth_drop [OF i]) simp
  moreover have "concat (xs[i := ys]) = concat (take i xs) @ ys @ concat (drop (Suc i) xs)"
    using i by (simp add: upd_conv_take_nth_drop)
  ultimately show ?thesis by simp
qed

lemma length_concat_update:
  "i < length xs \<Longrightarrow> length (concat (xs[i := ys])) + length (xs ! i) = length (concat xs) + length ys"
  using arg_cong [OF mset_concat_update, of i xs size ys] by simp

lemma concat_replicate_Nil [simp]: "concat (replicate n []) = []"
  by (induction n) simp_all

section \<open>Sizes and indices\<close>

lemma dict_idx_mod:
  assumes "0 \<le> e" "e < 64"
  shows "dict_idx h e = unat h mod 2 ^ nat e"
proof -
  have m: "DICTHT_SIZE_MASK e = mask (nat e)"
    using assms by (simp add: DICTHT_SIZE_MASK_def DICTHT_SIZE_def mask_eq_exp_minus_1)
  have "h AND mask (nat e) = take_bit (nat e) h" by (simp add: take_bit_eq_mask)
  then have "dict_idx h e = take_bit (nat e) (unat h)"
    unfolding dict_idx_def m by (simp only: unsigned_take_bit_eq)
  then show ?thesis by (simp add: take_bit_eq_mod)
qed

lemma DICTHT_SIZE_simps [simp]: "DICTHT_SIZE (-1) = 0" "0 \<le> e \<Longrightarrow> DICTHT_SIZE e = 2 ^ nat e"
  by (simp_all add: DICTHT_SIZE_def)

lemma bit_length_bound: "n < 2 ^ bit_length n" "0 < n \<Longrightarrow> 2 ^ (bit_length n - 1) \<le> n"
proof -
  have "n < 2 ^ bit_length n \<and> (0 < n \<longrightarrow> 2 ^ (bit_length n - 1) \<le> n)"
  proof (induction n rule: less_induct)
    case (less n)
    show ?case
    proof (cases "n = 0")
      case False
      then have IH: "n div 2 < 2 ^ bit_length (n div 2)" "0 < n div 2 \<longrightarrow> 2 ^ (bit_length (n div 2) - 1) \<le> n div 2"
        using less.IH [of "n div 2"] by auto
      have b: "bit_length n = Suc (bit_length (n div 2))" using False by (simp add: bit_length.simps [of n])
      show ?thesis
      proof (cases "n div 2 = 0")
        case True
        then show ?thesis using False b by (simp add: bit_length.simps [of 0])
      next
        case nz: False
        then have "bit_length (n div 2) = Suc (bit_length (n div 2 div 2))" by (subst bit_length.simps) simp
        then obtain k where "bit_length (n div 2) = Suc k" by blast
        then show ?thesis using IH nz b by auto
      qed
    qed (simp add: bit_length.simps [of 0])
  qed
  then show "n < 2 ^ bit_length n" "0 < n \<Longrightarrow> 2 ^ (bit_length n - 1) \<le> n" by auto
qed

lemma bit_length_le: "n < 2 ^ k \<Longrightarrow> bit_length n \<le> k"
proof (rule ccontr)
  assume n: "n < 2 ^ k" and "\<not> bit_length n \<le> k"
  then have "k \<le> bit_length n - 1" "0 < n" by (auto simp: bit_length.simps [of 0] intro: gr0I)
  then have "(2 :: nat) ^ k \<le> n"
    using bit_length_bound(2) [of n] power_increasing [of k "bit_length n - 1" "2 :: nat"] by linarith
  then show False using n by simp
qed

lemma dictNextExp_range: "2 \<le> dictNextExp sz" "dictNextExp sz \<le> 63"
proof -
  have "2 \<le> bit_length (sz - 1)" if "sz > 4"
  proof (rule ccontr)
    assume "\<not> 2 \<le> bit_length (sz - 1)"
    then have "(2 :: nat) ^ bit_length (sz - 1) \<le> 2 ^ 1" by (intro power_increasing) auto
    moreover have "sz - 1 < 2 ^ bit_length (sz - 1)" by (rule bit_length_bound)
    ultimately have "sz - 1 < 2" by simp
    then show False using that by simp
  qed
  then show "2 \<le> dictNextExp sz" by (simp add: dictNextExp_def DICT_HT_INITIAL_SIZE_def DICT_HT_INITIAL_EXP_def)
  have "bit_length (sz - 1) \<le> 63" if "sz < LONG_MAX"
    using that by (intro bit_length_le) (simp add: LONG_MAX_def)
  then show "dictNextExp sz \<le> 63" by (simp add: dictNextExp_def DICT_HT_INITIAL_EXP_def)
qed

lemma dictNextExp_size: "sz \<le> 2 ^ 63 \<Longrightarrow> sz \<le> DICTHT_SIZE (dictNextExp sz)"
  using bit_length_bound(1) [of "sz - 1"]
  by (auto simp: dictNextExp_def DICT_HT_INITIAL_SIZE_def DICT_HT_INITIAL_EXP_def LONG_MAX_def)

text \<open>What the overflow test of \<^verbatim>\<open>_dictResize\<close> lets through.\<close>

lemma dictNextExp_ok:
  assumes "\<not> (DICTHT_SIZE (dictNextExp sz) * 8 mod 2 ^ 64 < DICTHT_SIZE (dictNextExp sz))"
  shows "dictNextExp sz < 61"
proof (rule ccontr)
  assume "\<not> dictNextExp sz < 61"
  then have "dictNextExp sz = 61 \<or> dictNextExp sz = 62 \<or> dictNextExp sz = 63"
    using dictNextExp_range(2) [of sz] by linarith
  then show False using assms by auto
qed

section \<open>The invariant\<close>

definition ent :: "('k, 'v) dictEntry \<Rightarrow> 'k \<times> 'v option" where
  "ent e = (dictGetKey e, dictGetVal e)"

definition ht_ents :: "('k, 'v) dictht \<Rightarrow> ('k \<times> 'v option) multiset" where
  "ht_ents h = image_mset ent (mset (concat (ht_table h)))"

definition ents :: "('k, 'v) dict \<Rightarrow> ('k \<times> 'v option) multiset" where
  "ents d = ht_ents (ht0 d) + ht_ents (ht1 d)"

definition dict_keys :: "('k, 'v) dict \<Rightarrow> 'k list" where
  "dict_keys d = map dictGetKey (concat (ht_table (ht0 d)) @ concat (ht_table (ht1 d)))"

definition entry_ok :: "bool \<Rightarrow> ('k, 'v) dictEntry \<Rightarrow> bool" where
  "entry_ok nv e \<longleftrightarrow> (if nv then dictGetVal e = None else dictGetVal e \<noteq> None)"

definition chain_ok :: "bool \<Rightarrow> ('k, 'v) dictEntry list \<Rightarrow> bool" where
  "chain_ok nv c \<longleftrightarrow> (\<forall>e \<in> set c. entry_ok nv e) \<and> (\<forall>e \<in> set (butlast c). \<not> entryIsKey e)"

definition ht_ok :: "('k, 'v) dictType \<Rightarrow> ('k, 'v) dictht \<Rightarrow> bool" where
  "ht_ok ty h \<longleftrightarrow>
     (if ht_size_exp h = -1 then ht_table h = []
      else 0 \<le> ht_size_exp h \<and> ht_size_exp h < 61 \<and> length (ht_table h) = 2 ^ nat (ht_size_exp h)) \<and>
     ht_used h = length (concat (ht_table h)) \<and>
     (\<forall>i < length (ht_table h). chain_ok (no_value ty) (ht_table h ! i) \<and>
        (\<forall>e \<in> set (ht_table h ! i). dict_idx (hashFunction ty (dictGetKey e)) (ht_size_exp h) = i))"

definition event_delta :: "dict_event \<Rightarrow> int" where
  "event_delta ev = (case ev of BucketChanged n \<Rightarrow> n | _ \<Rightarrow> 0)"

definition bucket_count :: "dict_event list \<Rightarrow> int" where
  "bucket_count evs = sum_list (map event_delta evs)"

text \<open>The callbacks of a rehash: started and completed in turns, with the same size of the old table.\<close>

fun track_event :: "nat option \<Rightarrow> dict_event \<Rightarrow> nat option option" where
  "track_event None (RehashingStarted n) = Some (Some n)"
| "track_event (Some m) (RehashingCompleted n) = (if m = n then Some None else None)"
| "track_event r (BucketChanged n) = Some r"
| "track_event r ev = None"

fun track :: "nat option \<Rightarrow> dict_event list \<Rightarrow> nat option option" where
  "track r [] = Some r"
| "track r (ev # evs) = do { r \<leftarrow> track_event r ev; track r evs }"

lemma track_append [simp]: "track r (a @ b) = do { r \<leftarrow> track r a; track r b }"
  by (induction a arbitrary: r) (auto split: bind_split)

definition dict_inv :: "('k, 'v) dictType \<Rightarrow> ('k, 'v) dict \<Rightarrow> bool" where
  "dict_inv ty d \<longleftrightarrow>
     ht_ok ty (ht0 d) \<and> ht_ok ty (ht1 d) \<and> distinct (dict_keys d) \<and>
     (if rehashidx d = -1 then ht1 d = dictReset
      else 0 \<le> rehashidx d \<and> ht_size_exp (ht0 d) \<noteq> -1 \<and> ht_size_exp (ht1 d) \<noteq> -1 \<and>
        ht_size_exp (ht0 d) \<noteq> ht_size_exp (ht1 d) \<and>
        nat (rehashidx d) \<le> length (ht_table (ht0 d)) \<and>
        (\<forall>i < nat (rehashidx d). ht_table (ht0 d) ! i = [])) \<and>
     bucket_count (callbacks d) = int (dictBuckets d) \<and>
     track None (callbacks d) = Some (if rehashidx d = -1 then None else Some (DICTHT_SIZE (ht_size_exp (ht0 d))))"

text \<open>A step that leaves the contents alone.\<close>

definition same_dict :: "('k, 'v) dictType \<Rightarrow> ('k, 'v) dict \<Rightarrow> ('k, 'v) dict \<Rightarrow> bool" where
  "same_dict ty d d' \<longleftrightarrow> dict_inv ty d' \<and> ents d' = ents d \<and> pauserehash d' = pauserehash d \<and>
     pauseAutoResize d' = pauseAutoResize d \<and> prefix (callbacks d) (callbacks d')"

lemma same_dict_refl: "dict_inv ty d \<Longrightarrow> same_dict ty d d"
  by (simp add: same_dict_def)

lemma same_dict_trans: "same_dict ty d d1 \<Longrightarrow> same_dict ty d1 d2 \<Longrightarrow> same_dict ty d d2"
  by (auto simp: same_dict_def intro: prefix_order.trans)

lemma bucket_count_simps [simp]:
  "bucket_count [] = 0" "bucket_count (a @ b) = bucket_count a + bucket_count b"
  "bucket_count (ev # evs) = event_delta ev + bucket_count evs"
  by (simp_all add: bucket_count_def)

lemma event_delta_simps [simp]:
  "event_delta (RehashingStarted m) = 0" "event_delta (RehashingCompleted m) = 0" "event_delta (BucketChanged n) = n"
  by (simp_all add: event_delta_def)

lemma mset_dict_keys: "mset (dict_keys d) = image_mset fst (ents d)"
  by (simp add: dict_keys_def ents_def ht_ents_def image_mset.compositionality comp_def ent_def)

lemma distinct_keys_cong: "ents d' = ents d \<Longrightarrow> distinct (dict_keys d') = distinct (dict_keys d)"
  using mset_dict_keys [of d] mset_dict_keys [of d'] by (metis mset_eq_imp_distinct_iff)

lemma ht_ok_reset [simp]: "ht_ok ty dictReset"
  by (simp add: ht_ok_def dictReset_def)

lemma dictReset_simps [simp]:
  "ht_table dictReset = []" "ht_used dictReset = 0" "ht_size_exp dictReset = -1" "ht_ents dictReset = {#}"
  by (simp_all add: dictReset_def ht_ents_def)

lemma ht_ok_used: "ht_ok ty h \<Longrightarrow> ht_used h = size (ht_ents h)"
  by (simp add: ht_ok_def ht_ents_def)

lemma dictSize_ents: "dict_inv ty d \<Longrightarrow> dictSize d = size (ents d)"
  using ht_ok_used [of ty "ht0 d"] ht_ok_used [of ty "ht1 d"] by (simp add: dict_inv_def dictSize_def ents_def)

lemma ht_ok_size: "ht_ok ty h \<Longrightarrow> DICTHT_SIZE (ht_size_exp h) = length (ht_table h)"
  by (auto simp: ht_ok_def split: if_splits)

lemma ht_ok_index:
  "ht_ok ty h \<Longrightarrow> ht_size_exp h \<noteq> -1 \<Longrightarrow> dict_idx x (ht_size_exp h) < length (ht_table h)"
  by (auto simp: ht_ok_def dict_idx_mod)

section \<open>Moving a bucket\<close>

lemma rehash_form_ok:
  assumes "entry_ok (no_value ty) de" "chain_ok (no_value ty) dest"
  shows "\<exists>de'. rehash_form ty de dest = Some de' \<and> ent de' = ent de \<and> chain_ok (no_value ty) (de' # dest)"
  using assms by (cases de; cases "no_value ty") (auto simp: rehash_form_def entry_ok_def ent_def chain_ok_def)

lemma ht_ok_set:
  assumes ok: "ht_ok ty h" and i: "i < length (ht_table h)" and c: "chain_ok (no_value ty) c"
    and idx: "\<forall>e \<in> set c. dict_idx (hashFunction ty (dictGetKey e)) (ht_size_exp h) = i"
    and n: "n + length (ht_table h ! i) = ht_used h + length c"
  shows "ht_ok ty ((set_bucket h i c)\<lparr>ht_used := n\<rparr>)"
proof -
  have "length (concat ((ht_table h)[i := c])) + length (ht_table h ! i) = length (concat (ht_table h)) + length c"
    using i by (rule length_concat_update)
  then have used: "n = length (concat ((ht_table h)[i := c]))" using n ok by (simp add: ht_ok_def)
  have "chain_ok (no_value ty) ((ht_table h)[i := c] ! j) \<and>
      (\<forall>e \<in> set ((ht_table h)[i := c] ! j). dict_idx (hashFunction ty (dictGetKey e)) (ht_size_exp h) = j)"
    if "j < length (ht_table h)" for j
    using ok i c idx that by (cases "j = i") (simp_all add: ht_ok_def)
  then show ?thesis using ok used by (simp add: ht_ok_def set_bucket_def)
qed

lemma ht_ents_set:
  "i < length (ht_table h) \<Longrightarrow>
   ht_ents ((set_bucket h i c)\<lparr>ht_used := n\<rparr>) + image_mset ent (mset (ht_table h ! i)) =
   ht_ents h + image_mset ent (mset c)"
  using arg_cong [OF mset_concat_update, of i "ht_table h" "image_mset ent" c]
  by (simp add: ht_ents_def set_bucket_def)

lemma ht_ok_push:
  assumes ok: "ht_ok ty h" and i: "i < length (ht_table h)"
    and idx: "dict_idx (hashFunction ty (dictGetKey e)) (ht_size_exp h) = i"
    and c: "chain_ok (no_value ty) (e # ht_table h ! i)"
  shows "ht_ok ty ((set_bucket h i (e # ht_table h ! i))\<lparr>ht_used := ht_used h + 1\<rparr>)"
    and "ht_ents ((set_bucket h i (e # ht_table h ! i))\<lparr>ht_used := n\<rparr>) = add_mset (ent e) (ht_ents h)"
proof -
  have "\<forall>e \<in> set (ht_table h ! i). dict_idx (hashFunction ty (dictGetKey e)) (ht_size_exp h) = i"
    using ok i by (simp add: ht_ok_def)
  then show "ht_ok ty ((set_bucket h i (e # ht_table h ! i))\<lparr>ht_used := ht_used h + 1\<rparr>)"
    using idx by (intro ht_ok_set [OF ok i c]) simp_all
  show "ht_ents ((set_bucket h i (e # ht_table h ! i))\<lparr>ht_used := n\<rparr>) = add_mset (ent e) (ht_ents h)"
    using ht_ents_set [OF i, of n "e # ht_table h ! i"] by simp
qed

lemma rehash_index_eq:
  assumes "ht_ok ty (ht0 d)" "ht_ok ty (ht1 d)" "ht_size_exp (ht0 d) \<noteq> -1" "ht_size_exp (ht1 d) \<noteq> -1"
    and "dict_idx (hashFunction ty k) (ht_size_exp (ht0 d)) = idx"
  shows "rehash_index ty d idx k = dict_idx (hashFunction ty k) (ht_size_exp (ht1 d))"
proof (cases "ht_size_exp (ht1 d) > ht_size_exp (ht0 d)")
  case False
  let ?a = "ht_size_exp (ht0 d)" and ?b = "ht_size_exp (ht1 d)"
  have e: "0 \<le> ?a" "?a < 61" "0 \<le> ?b" "?b < 61" using assms(1-4) by (auto simp: ht_ok_def)
  have "idx = unat (hashFunction ty k) mod 2 ^ nat ?a" using assms(5) e by (simp add: dict_idx_mod)
  then have "idx < 2 ^ nat ?a" by simp
  moreover have "(2 :: nat) ^ nat ?a \<le> 2 ^ 61" using e by (intro power_increasing) auto
  ultimately have "unat (of_nat idx :: u64) = idx" by (simp add: unat_of_nat take_bit_eq_mod)
  moreover have "(2 :: nat) ^ nat ?b dvd 2 ^ nat ?a" using False e by (intro le_imp_power_dvd) simp
  ultimately show ?thesis using False e \<open>idx = unat (hashFunction ty k) mod 2 ^ nat ?a\<close>
    by (simp add: rehash_index_def dict_idx_mod mod_mod_cancel)
qed (simp add: rehash_index_def)

text \<open>The loop over one chain: the entries go to the front of their new buckets.\<close>

lemma rehash_chain_ok:
  assumes "ht_ok ty (ht1 d)" "ht_size_exp (ht1 d) \<noteq> -1"
    and "\<forall>e \<in> set chain. entry_ok (no_value ty) e \<and>
      (\<forall>d'. ht_size_exp (ht0 d') = ht_size_exp (ht0 d) \<and> ht_size_exp (ht1 d') = ht_size_exp (ht1 d) \<longrightarrow>
        rehash_index ty d' idx (dictGetKey e) = dict_idx (hashFunction ty (dictGetKey e)) (ht_size_exp (ht1 d)))"
  shows "\<exists>h1. rehash_chain ty idx d chain =
      Some (d\<lparr>ht0 := (ht0 d)\<lparr>ht_used := ht_used (ht0 d) - length chain\<rparr>, ht1 := h1\<rparr>) \<and>
    ht_ok ty h1 \<and> ht_size_exp h1 = ht_size_exp (ht1 d) \<and>
    ht_ents h1 = ht_ents (ht1 d) + image_mset ent (mset chain)"
  using assms
proof (induction chain arbitrary: d)
  case Nil
  then show ?case by (intro exI [of _ "ht1 d"]) simp
next
  case (Cons de chain)
  let ?i = "dict_idx (hashFunction ty (dictGetKey de)) (ht_size_exp (ht1 d))"
  have idx: "rehash_index ty d idx (dictGetKey de) = ?i" using Cons.prems(3) by simp
  have i: "?i < length (ht_table (ht1 d))" using Cons.prems(1,2) by (rule ht_ok_index)
  let ?dest = "ht_table (ht1 d) ! ?i"
  have "chain_ok (no_value ty) ?dest" using Cons.prems(1) i by (simp add: ht_ok_def)
  then obtain de' where de': "rehash_form ty de ?dest = Some de'" "ent de' = ent de" "chain_ok (no_value ty) (de' # ?dest)"
    using rehash_form_ok [of ty de ?dest] Cons.prems(3) by auto
  then have key: "dictGetKey de' = dictGetKey de" by (simp add: ent_def)
  let ?h1 = "(set_bucket (ht1 d) ?i (de' # ?dest))\<lparr>ht_used := ht_used (ht1 d) + 1\<rparr>"
  let ?d = "d\<lparr>ht0 := (ht0 d)\<lparr>ht_used := ht_used (ht0 d) - 1\<rparr>, ht1 := ?h1\<rparr>"
  have ok: "ht_ok ty ?h1" using key de'(3) by (intro ht_ok_push(1) [OF Cons.prems(1) i]) simp
  have en: "ht_ents ?h1 = add_mset (ent de) (ht_ents (ht1 d))"
    using ht_ok_push(2) [OF Cons.prems(1) i _ de'(3)] key de'(2) by simp
  have ex: "ht_size_exp ?h1 = ht_size_exp (ht1 d)" by (simp add: set_bucket_def)
  have step: "rehash_chain ty idx d (de # chain) = rehash_chain ty idx ?d chain"
    using i by (simp add: idx bucket_at_def de'(1) Let_def set_bucket_def)
  have "\<exists>h1. rehash_chain ty idx ?d chain =
      Some (?d\<lparr>ht0 := (ht0 ?d)\<lparr>ht_used := ht_used (ht0 ?d) - length chain\<rparr>, ht1 := h1\<rparr>) \<and>
    ht_ok ty h1 \<and> ht_size_exp h1 = ht_size_exp (ht1 ?d) \<and>
    ht_ents h1 = ht_ents (ht1 ?d) + image_mset ent (mset chain)"
    using ok ex Cons.prems(2,3) by (intro Cons.IH) simp_all
  then show ?case unfolding step using en ex by auto
qed

lemma rehash_bucket_ok:
  assumes inv: "dict_inv ty d" and re: "dictIsRehashing d" and i: "i < length (ht_table (ht0 d))"
  shows "\<exists>d'. rehashEntriesInBucketAtIndex ty d i = Some d' \<and> same_dict ty d d' \<and>
    rehashidx d' = rehashidx d \<and> ht_size_exp (ht0 d') = ht_size_exp (ht0 d) \<and> ht_size_exp (ht1 d') = ht_size_exp (ht1 d) \<and>
    ht_table (ht0 d') = (ht_table (ht0 d))[i := []]"
proof -
  let ?c = "ht_table (ht0 d) ! i"
  have exps: "ht_size_exp (ht0 d) \<noteq> -1" "ht_size_exp (ht1 d) \<noteq> -1"
    and ok: "ht_ok ty (ht0 d)" "ht_ok ty (ht1 d)"
    using inv re by (auto simp: dict_inv_def dictIsRehashing_def)
  have c: "chain_ok (no_value ty) ?c"
    "\<forall>e \<in> set ?c. dict_idx (hashFunction ty (dictGetKey e)) (ht_size_exp (ht0 d)) = i"
    using ok(1) i by (simp_all add: ht_ok_def)
  have "rehash_index ty d' i (dictGetKey e) = dict_idx (hashFunction ty (dictGetKey e)) (ht_size_exp (ht1 d))"
    if "ht_size_exp (ht0 d') = ht_size_exp (ht0 d) \<and> ht_size_exp (ht1 d') = ht_size_exp (ht1 d)" "e \<in> set ?c" for d' e
    using rehash_index_eq [OF ok exps, of "dictGetKey e" i] c(2) that by (auto simp: rehash_index_def split: if_splits)
  then obtain h1 where h1: "rehash_chain ty i d ?c =
      Some (d\<lparr>ht0 := (ht0 d)\<lparr>ht_used := ht_used (ht0 d) - length ?c\<rparr>, ht1 := h1\<rparr>)"
    "ht_ok ty h1" "ht_size_exp h1 = ht_size_exp (ht1 d)" "ht_ents h1 = ht_ents (ht1 d) + image_mset ent (mset ?c)"
    using rehash_chain_ok [OF ok(2) exps(2), of ?c i] c(1) by (auto simp: chain_ok_def)
  let ?h0 = "(set_bucket (ht0 d) i [])\<lparr>ht_used := ht_used (ht0 d) - length ?c\<rparr>"
  let ?d = "d\<lparr>ht0 := ?h0, ht1 := h1\<rparr>"
  have "length ?c \<le> ht_used (ht0 d)"
    using ok(1) length_concat_update [OF i, of "[]"] by (simp add: ht_ok_def)
  then have ok0: "ht_ok ty ?h0" by (intro ht_ok_set [OF ok(1) i]) (simp_all add: chain_ok_def)
  have "ht_ents ?h0 + image_mset ent (mset ?c) = ht_ents (ht0 d)" using ht_ents_set [OF i, of _ "[]"] by simp
  then have en: "ents ?d = ents d" using h1(4) by (simp add: ents_def)
  have dist: "distinct (dict_keys ?d)" using inv distinct_keys_cong [OF en] by (simp add: dict_inv_def)
  have "dict_inv ty ?d"
    using inv re dist ok0 h1(2,3) i
    by (auto simp: dict_inv_def dictIsRehashing_def dictBuckets_def set_bucket_def nth_list_update)
  moreover have "rehashEntriesInBucketAtIndex ty d i = Some ?d"
    using i h1(1) by (simp add: rehashEntriesInBucketAtIndex_def bucket_at_def set_bucket_def)
  ultimately show ?thesis using en h1(3)
    by (intro exI [of _ ?d]) (simp add: same_dict_def set_bucket_def)
qed

section \<open>Incremental rehashing\<close>

lemma skip_empty_eqs:
  "i < length tbl \<Longrightarrow> tbl ! i \<noteq> [] \<Longrightarrow> skip_empty tbl i ev = Some (i, ev, False)"
  "i < length tbl \<Longrightarrow> tbl ! i = [] \<Longrightarrow> ev - 1 = 0 \<Longrightarrow> skip_empty tbl i ev = Some (i + 1, 0, True)"
  "i < length tbl \<Longrightarrow> tbl ! i = [] \<Longrightarrow> ev - 1 \<noteq> 0 \<Longrightarrow> skip_empty tbl i ev = skip_empty tbl (i + 1) (ev - 1)"
  by (subst skip_empty.simps, simp)+

lemma skip_empty_ok:
  assumes "i \<le> j" "j < length tbl" "tbl ! j \<noteq> []"
  shows "\<exists>i' ev' stop. skip_empty tbl i ev = Some (i', ev', stop) \<and> i \<le> i' \<and> i' \<le> j \<and>
    (\<forall>k. i \<le> k \<and> k < i' \<longrightarrow> tbl ! k = []) \<and> (stop \<longrightarrow> i < i')"
  using assms(1)
proof (induction arbitrary: ev rule: inc_induct)
  case base
  show ?case unfolding skip_empty_eqs(1) [OF assms(2,3)]
    by (rule exI [of _ j], rule exI [of _ ev], rule exI [of _ False]) auto
next
  case (step i)
  have i: "i < length tbl" using step.hyps assms(2) by simp
  show ?case
  proof (cases "tbl ! i = []")
    case False
    show ?thesis unfolding skip_empty_eqs(1) [OF i False]
      by (rule exI [of _ i], rule exI [of _ ev], rule exI [of _ False]) (use step.hyps in auto)
  next
    case e: True
    show ?thesis
    proof (cases "ev - 1 = 0")
      case True
      then show ?thesis using skip_empty_eqs(2) [OF i e True] step.hyps e by (auto simp: less_Suc_eq)
    next
      case False
      obtain i' ev' stop where IH: "skip_empty tbl (Suc i) (ev - 1) = Some (i', ev', stop)"
        "Suc i \<le> i'" "i' \<le> j" "\<forall>k. Suc i \<le> k \<and> k < i' \<longrightarrow> tbl ! k = []"
        using step.IH by blast
      have "\<forall>k. i \<le> k \<and> k < i' \<longrightarrow> tbl ! k = []" using IH(4) e by (metis Suc_leI le_neq_implies_less)
      then show ?thesis using skip_empty_eqs(3) [OF i e False] IH(1-3) by auto
    qed
  qed
qed

lemma nonempty_bucket:
  assumes "dict_inv ty d" "dictIsRehashing d" "ht_used (ht0 d) \<noteq> 0"
  shows "\<exists>j. nat (rehashidx d) \<le> j \<and> j < length (ht_table (ht0 d)) \<and> ht_table (ht0 d) ! j \<noteq> []"
proof (rule ccontr)
  assume no: "\<not> ?thesis"
  have "\<forall>i < nat (rehashidx d). ht_table (ht0 d) ! i = []"
    using assms(1,2) by (auto simp: dict_inv_def dictIsRehashing_def)
  then have "ht_table (ht0 d) ! i = []" if "i < length (ht_table (ht0 d))" for i
    using no that by (cases "i < nat (rehashidx d)") auto
  then have "concat (ht_table (ht0 d)) = []" by (auto simp: in_set_conv_nth)
  then show False using assms(1,3) by (simp add: dict_inv_def ht_ok_def)
qed

text \<open>Skipping empty buckets only moves \<^verbatim>\<open>rehashidx\<close>.\<close>

lemma advance_ok:
  assumes "dict_inv ty d" "dictIsRehashing d" "nat (rehashidx d) \<le> i" "i \<le> length (ht_table (ht0 d))"
    and "\<forall>k. nat (rehashidx d) \<le> k \<and> k < i \<longrightarrow> ht_table (ht0 d) ! k = []"
  shows "same_dict ty d (d\<lparr>rehashidx := int i\<rparr>)"
proof -
  have "ht_table (ht0 d) ! k = []" if "k < i" for k
    using assms that by (cases "k < nat (rehashidx d)") (auto simp: dict_inv_def dictIsRehashing_def)
  then show ?thesis using assms
    by (auto simp: same_dict_def dict_inv_def dictIsRehashing_def dict_keys_def ents_def dictBuckets_def)
qed

text \<open>
  The loop makes progress: when it does not end the rehash, the index has moved (\<open>gain\<close>).
\<close>

lemma rehash_loop_ok:
  assumes "dict_inv ty d" "dictIsRehashing d"
  shows "\<exists>d' stop. rehash_loop ty n ev d = Some (d', stop) \<and> same_dict ty d d' \<and> dictIsRehashing d' \<and>
    ht_size_exp (ht0 d') = ht_size_exp (ht0 d) \<and> ht_size_exp (ht1 d') = ht_size_exp (ht1 d) \<and>
    rehashidx d \<le> rehashidx d' \<and>
    (0 < n \<and> ht_used (ht0 d') \<noteq> 0 \<longrightarrow> rehashidx d < rehashidx d') \<and> (stop \<longrightarrow> ht_used (ht0 d') \<noteq> 0)"
  using assms
proof (induction n arbitrary: d ev)
  case 0
  then show ?case by (auto simp: same_dict_refl)
next
  case (Suc n)
  show ?case
  proof (cases "ht_used (ht0 d) = 0")
    case True
    then show ?thesis using Suc.prems by (auto simp: same_dict_refl)
  next
    case used: False
    let ?t = "ht_table (ht0 d)" and ?r = "nat (rehashidx d)"
    obtain j where j: "?r \<le> j" "j < length ?t" "?t ! j \<noteq> []"
      using nonempty_bucket [OF Suc.prems used] by blast
    obtain i ev' stop where sk: "skip_empty ?t ?r ev = Some (i, ev', stop)" "?r \<le> i" "i \<le> j"
      "\<forall>k. ?r \<le> k \<and> k < i \<longrightarrow> ?t ! k = []" "stop \<longrightarrow> ?r < i"
      using skip_empty_ok [OF j, of ev] by blast
    let ?d = "d\<lparr>rehashidx := int i\<rparr>"
    have same: "same_dict ty d ?d" using sk j by (intro advance_ok [OF Suc.prems]) auto
    have r: "0 \<le> rehashidx d" "rehashidx d = int ?r" using Suc.prems by (auto simp: dict_inv_def dictIsRehashing_def)
    have "DICTHT_SIZE (ht_size_exp (ht0 d)) = length ?t"
      using Suc.prems(1) by (intro ht_ok_size [of ty]) (simp add: dict_inv_def)
    then have assertion: "\<not> \<not> int (DICTHT_SIZE (ht_size_exp (ht0 d))) > rehashidx d" using r j by simp
    show ?thesis
    proof (cases stop)
      case True
      have "rehash_loop ty (Suc n) ev d = Some (?d, True)" using used assertion sk(1) True by simp
      then show ?thesis using same used sk(2,5) r True by (auto simp: dictIsRehashing_def)
    next
      case False
      have inv: "dict_inv ty ?d" "dictIsRehashing ?d" using same by (simp_all add: same_dict_def dictIsRehashing_def)
      obtain d1 where d1: "rehashEntriesInBucketAtIndex ty ?d i = Some d1" "same_dict ty ?d d1"
        "rehashidx d1 = int i" "ht_size_exp (ht0 d1) = ht_size_exp (ht0 d)" "ht_table (ht0 d1) = ?t[i := []]"
        "ht_size_exp (ht1 d1) = ht_size_exp (ht1 d)"
        using rehash_bucket_ok [OF inv, of i] sk(3) j(2) by auto
      have "same_dict ty d1 (d1\<lparr>rehashidx := int (i + 1)\<rparr>)"
        using d1 j sk by (intro advance_ok) (auto simp: same_dict_def dictIsRehashing_def less_Suc_eq)
      then have s1: "same_dict ty d (d1\<lparr>rehashidx := int i + 1\<rparr>)"
        using same d1(2) same_dict_trans by (metis of_nat_Suc of_nat_add of_nat_1)
      then obtain d' stop' where d': "rehash_loop ty n ev' (d1\<lparr>rehashidx := int i + 1\<rparr>) = Some (d', stop')"
        "same_dict ty (d1\<lparr>rehashidx := int i + 1\<rparr>) d'" "dictIsRehashing d'"
        "ht_size_exp (ht0 d') = ht_size_exp (ht0 d1)" "int i + 1 \<le> rehashidx d'" "ht_size_exp (ht1 d') = ht_size_exp (ht1 d1)" "stop' \<longrightarrow> ht_used (ht0 d') \<noteq> 0"
        using Suc.IH [of "d1\<lparr>rehashidx := int i + 1\<rparr>" ev'] by (auto simp: same_dict_def dictIsRehashing_def)
      have "rehash_loop ty (Suc n) ev d = Some (d', stop')"
        using used assertion sk(1) False d1(1) d'(1) by simp
      then show ?thesis using s1 d' d1(4,6) sk(2) r same_dict_trans by fastforce
    qed
  qed
qed

lemma check_completed_ok:
  assumes "dict_inv ty d" "dictIsRehashing d"
  shows "same_dict ty d (fst (dictCheckRehashingCompleted d))"
    and "snd (dictCheckRehashingCompleted d) \<longleftrightarrow> ht_used (ht0 d) = 0"
    and "\<not> snd (dictCheckRehashingCompleted d) \<Longrightarrow> fst (dictCheckRehashingCompleted d) = d"
    and "snd (dictCheckRehashingCompleted d) \<Longrightarrow> \<not> dictIsRehashing (fst (dictCheckRehashingCompleted d))"
proof -
  show "same_dict ty d (fst (dictCheckRehashingCompleted d))"
  proof (cases "ht_used (ht0 d) = 0")
    case True
    let ?d = "fst (dictCheckRehashingCompleted d)"
    have "ht_ents (ht0 d) = {#}"
      using True assms(1) ht_ok_used [of ty "ht0 d"] by (simp add: dict_inv_def)
    then have en: "ents ?d = ents d"
      using True by (simp add: ents_def dictCheckRehashingCompleted_def log_event_def Let_def)
    then have "distinct (dict_keys ?d)" using assms(1) distinct_keys_cong by (auto simp: dict_inv_def)
    moreover have "rehashidx d \<noteq> -1" using assms(2) by (simp add: dictIsRehashing_def)
    ultimately have "dict_inv ty ?d" using assms(1) True
      by (auto simp: dict_inv_def dictCheckRehashingCompleted_def log_event_def Let_def dictBuckets_def)
    then show ?thesis using en True
      by (simp add: same_dict_def dictCheckRehashingCompleted_def log_event_def Let_def)
  qed (simp add: dictCheckRehashingCompleted_def same_dict_refl assms)
qed (auto simp: dictCheckRehashingCompleted_def Let_def log_event_def dictIsRehashing_def)

lemma dictRehash_ok:
  assumes "dict_inv ty d"
  shows "\<exists>d' more. dictRehash cr ty d n = Some (d', more) \<and> same_dict ty d d' \<and>
    (more \<longrightarrow> dictIsRehashing d \<and> dictIsRehashing d' \<and> ht_size_exp (ht0 d') = ht_size_exp (ht0 d) \<and>
      \<not> rehash_refused cr d' \<and> (0 < n \<longrightarrow> rehashidx d < rehashidx d')) \<and>
    (\<not> more \<longrightarrow> rehash_refused cr d \<and> d' = d \<or> \<not> rehash_refused cr d \<and> rehashidx d' = -1)"
proof (cases "rehash_refused cr d")
  case True
  then have "dictRehash cr ty d n = Some (d, False)" by (simp add: dictRehash_def)
  then show ?thesis using assms True same_dict_refl by blast
next
  case False
  then have re: "dictIsRehashing d" by (simp add: rehash_refused_def Let_def)
  obtain d1 stop where d1: "rehash_loop ty n (of_nat n * 10) d = Some (d1, stop)" "same_dict ty d d1" "dictIsRehashing d1"
    "ht_size_exp (ht0 d1) = ht_size_exp (ht0 d)" "ht_size_exp (ht1 d1) = ht_size_exp (ht1 d)"
    "0 < n \<and> ht_used (ht0 d1) \<noteq> 0 \<longrightarrow> rehashidx d < rehashidx d1" "stop \<longrightarrow> ht_used (ht0 d1) \<noteq> 0"
    using rehash_loop_ok [OF assms re, of n "of_nat n * 10"] by blast
  have nr: "\<not> rehash_refused cr d1" using False d1(3-5) by (simp add: rehash_refused_def Let_def)
  have inv: "dict_inv ty d1" using d1(2) by (simp add: same_dict_def)
  note c = check_completed_ok [OF inv d1(3)]
  let ?d = "fst (dictCheckRehashingCompleted d1)" and ?b = "snd (dictCheckRehashingCompleted d1)"
  have res: "dictRehash cr ty d n = Some (if stop then (d1, True) else (?d, \<not> ?b))"
    using d1(1) False by (simp add: dictRehash_def split: prod.split)
  show ?thesis
  proof (cases "stop \<or> \<not> ?b")
    case True
    then have "dictRehash cr ty d n = Some (d1, True)" using res c(3) by auto
    moreover have "ht_used (ht0 d1) \<noteq> 0" using True d1(7) c(2) by auto
    ultimately show ?thesis using d1 re nr by blast
  next
    case no: False
    then have "dictRehash cr ty d n = Some (?d, False)" using res by simp
    moreover have "rehashidx ?d = -1" using c(4) no by (simp add: dictIsRehashing_def)
    ultimately show ?thesis using same_dict_trans [OF d1(2) c(1)] False by blast
  qed
qed

text \<open>
  The loops that repeat \<^verbatim>\<open>dictRehash\<close> end: every turn that is not the last moves \<^verbatim>\<open>rehashidx\<close> towards the
  end of the old table.
\<close>

lemma rehash_while_ok:
  assumes "dict_inv ty d" "0 < n"
  shows "\<exists>d' k. rehash_while cr ty n stop i d = Some (d', k) \<and> same_dict ty d d' \<and>
    ((\<forall>i. \<not> stop i) \<longrightarrow> rehash_refused cr d \<and> d' = d \<or> \<not> rehash_refused cr d \<and> rehashidx d' = -1)"
  using assms(1)
proof (induction "DICTHT_SIZE (ht_size_exp (ht0 d)) - nat (rehashidx d)" arbitrary: d i rule: less_induct)
  case less
  obtain d1 more where d1: "dictRehash cr ty d n = Some (d1, more)" "same_dict ty d d1"
    "more \<longrightarrow> dictIsRehashing d \<and> dictIsRehashing d1 \<and> ht_size_exp (ht0 d1) = ht_size_exp (ht0 d) \<and>
      \<not> rehash_refused cr d1 \<and> (0 < n \<longrightarrow> rehashidx d < rehashidx d1)"
    "\<not> more \<longrightarrow> rehash_refused cr d \<and> d1 = d \<or> \<not> rehash_refused cr d \<and> rehashidx d1 = -1"
    using dictRehash_ok [OF less.prems, of cr n] by blast
  have nr: "more \<Longrightarrow> \<not> rehash_refused cr d" using d1(1) by (auto simp: dictRehash_def)
  show ?case
  proof (cases "more \<and> \<not> stop (i + 1)")
    case False
    have "\<exists>k. rehash_while cr ty n stop i d = Some (d1, k)"
      using d1(1) False by (subst rehash_while.simps) auto
    then show ?thesis using d1(2,4) False by blast
  next
    case True
    have inv: "dict_inv ty d1" using d1(2) by (simp add: same_dict_def)
    have r: "dictIsRehashing d" "dictIsRehashing d1" "rehashidx d < rehashidx d1" "ht_size_exp (ht0 d1) = ht_size_exp (ht0 d)"
      "\<not> rehash_refused cr d1"
      using d1(3) True assms(2) by simp_all
    have "DICTHT_SIZE (ht_size_exp (ht0 d1)) = length (ht_table (ht0 d1))"
      using inv ht_ok_size by (auto simp: dict_inv_def)
    then have "nat (rehashidx d1) \<le> DICTHT_SIZE (ht_size_exp (ht0 d))" "0 \<le> rehashidx d"
      using inv less.prems r by (auto simp: dict_inv_def dictIsRehashing_def)
    then have "DICTHT_SIZE (ht_size_exp (ht0 d1)) - nat (rehashidx d1) < DICTHT_SIZE (ht_size_exp (ht0 d)) - nat (rehashidx d)"
      using r(3,4) by simp
    then obtain d' k where d': "rehash_while cr ty n stop (i + 1) d1 = Some (d', k)" "same_dict ty d1 d'"
      "(\<forall>i. \<not> stop i) \<longrightarrow> rehashidx d' = -1"
      using less.hyps [of d1 "i + 1"] inv r(5) by blast
    have "rehash_while cr ty n stop i d = Some (d', k)"
      using d1(1) True d'(1) by (subst rehash_while.simps) simp
    then show ?thesis using same_dict_trans [OF d1(2) d'(2)] d'(3) nr True by blast
  qed
qed

section \<open>Resizing\<close>

lemma dictResize_ok:
  assumes inv: "dict_inv ty d" and re: "\<not> dictIsRehashing d"
  shows "\<exists>d' ok failed. dictResize cr ty tr d sz = Some (d', ok, failed) \<and> same_dict ty d d' \<and>
    rehashidx d' \<le> 0 \<and> (ht_table (ht0 d) = [] \<and> sz \<le> 4 \<and> tr \<noteq> Some False \<longrightarrow> ht_table (ht0 d') \<noteq> [])"
proof -
  let ?e = "dictNextExp sz"
  let ?n = "DICTHT_SIZE ?e"
  let ?stop = "?n < sz \<or> ?n * 8 mod 2 ^ 64 < ?n \<or> ?e = ht_size_exp (ht0 d) \<or> tr = Some False"
  have small: "sz \<le> 4 \<Longrightarrow> ?e = 2" by (simp add: dictNextExp_def DICT_HT_INITIAL_SIZE_def DICT_HT_INITIAL_EXP_def)
  show ?thesis
  proof (cases ?stop)
    case True
    have "\<exists>f. dictResize cr ty tr d sz = Some (d, False, f)"
    proof (cases "?n < sz \<or> ?n * 8 mod 2 ^ 64 < ?n")
      case ovf: True
      show ?thesis unfolding dictResize_def if_not_P [OF re] Let_def if_P [OF ovf] by blast
    next
      case ovf: False
      show ?thesis unfolding dictResize_def if_not_P [OF re] Let_def if_not_P [OF ovf] using True ovf by auto
    qed
    moreover have "\<not> (ht_table (ht0 d) = [] \<and> sz \<le> 4 \<and> tr \<noteq> Some False)"
      using True small inv by (auto simp: dict_inv_def ht_ok_def split: if_splits)
    moreover have "rehashidx d \<le> 0" using re by (simp add: dictIsRehashing_def)
    ultimately show ?thesis using inv same_dict_refl by auto
  next
    case False
    have e: "2 \<le> ?e" "?e < 61" "?n = 2 ^ nat ?e"
      using dictNextExp_range [of sz] dictNextExp_ok [of sz] False by auto
    let ?new = "\<lparr>ht_table = replicate ?n [], ht_used = 0, ht_size_exp = ?e\<rparr> :: ('a, 'b) dictht"
    let ?d1 = "log_event (d\<lparr>ht1 := ?new, rehashidx := 0\<rparr>) [RehashingStarted (DICTHT_SIZE (ht_size_exp (ht0 d))), BucketChanged (int ?n)]"
    have new: "ht_ok ty ?new" "ht_ents ?new = {#}"
      using e by (simp_all add: ht_ok_def chain_ok_def ht_ents_def)
    have h1: "rehashidx d = -1" "ht1 d = dictReset" using inv re by (simp_all add: dict_inv_def dictIsRehashing_def)
    show ?thesis
    proof (cases "ht_table (ht0 d) = [] \<or> ht_used (ht0 d) = 0")
      case True
      let ?d2 = "(log_event ?d1 [RehashingCompleted (DICTHT_SIZE (ht_size_exp (ht0 d))), BucketChanged (- int (DICTHT_SIZE (ht_size_exp (ht0 d))))])
        \<lparr>ht0 := ?new, ht1 := dictReset, rehashidx := -1\<rparr>"
      have res: "dictResize cr ty tr d sz = Some (?d2, True, False)"
        using False True re by (simp add: dictResize_def Let_def log_event_def)
      have "ht_ents (ht0 d) = {#}" using True inv ht_ok_used [of ty "ht0 d"] by (auto simp: dict_inv_def ht_ents_def)
      then have en: "ents ?d2 = ents d" using new h1 by (simp add: ents_def)
      then have "distinct (dict_keys ?d2)" using inv distinct_keys_cong by (auto simp: dict_inv_def)
      then have "dict_inv ty ?d2"
        using inv new h1 by (simp add: dict_inv_def log_event_def dictBuckets_def)
      then have "same_dict ty d ?d2" using en by (simp add: same_dict_def log_event_def)
      moreover have "ht_table (ht0 ?d2) \<noteq> []" "rehashidx ?d2 \<le> 0" using e by simp_all
      ultimately show ?thesis using res by blast
    next
      case no: False
      have en: "ents ?d1 = ents d" using new h1 by (simp add: ents_def log_event_def)
      then have "distinct (dict_keys ?d1)" using inv distinct_keys_cong by (auto simp: dict_inv_def)
      moreover have "ht_size_exp (ht0 d) \<noteq> -1" using no inv by (auto simp: dict_inv_def ht_ok_def)
      ultimately have "dict_inv ty ?d1"
        using inv new h1 e False by (simp add: dict_inv_def log_event_def dictBuckets_def)
      then have same: "same_dict ty d ?d1" using en by (simp add: same_dict_def log_event_def)
      obtain d' k where w: "rehash_while cr ty 1000 (\<lambda>_. False) 0 ?d1 = Some (d', k)" "same_dict ty ?d1 d'"
        "d' = ?d1 \<or> rehashidx d' = -1"
        using rehash_while_ok [OF \<open>dict_inv ty ?d1\<close>, of 1000 cr "\<lambda>_. False" 0] by auto
      have r: "rehashidx ?d1 = 0" "rehashidx d' \<le> 0" using w(3) by (auto simp: log_event_def)
      have "dictResize cr ty tr d sz = Some (if force_full_rehash ty then d' else ?d1, True, False)"
        using False no re w(1) by (simp add: dictResize_def Let_def log_event_def)
      then show ?thesis using no same w(2) r same_dict_trans [OF same] by auto
    qed
  qed
qed

lemma dictExpand_ok:
  assumes "dict_inv ty d"
  shows "\<exists>d' ok failed. dictExpand0 cr ty tr d sz = Some (d', ok, failed) \<and> same_dict ty d d' \<and>
    (rehashidx d' \<le> 0 \<or> d' = d) \<and>
    (ht_table (ht0 d) = [] \<and> sz = 4 \<and> tr \<noteq> Some False \<longrightarrow> ht_table (ht0 d') \<noteq> [])"
proof (cases "dictIsRehashing d \<or> ht_used (ht0 d) > sz \<or> DICTHT_SIZE (ht_size_exp (ht0 d)) \<ge> sz")
  case True
  then have "dictExpand0 cr ty tr d sz = Some (d, False, False)" by (auto simp: dictExpand0_def)
  moreover have "\<not> (ht_table (ht0 d) = [] \<and> sz = 4)"
    using True assms ht_ok_size [of ty "ht0 d"] ht_ok_size [of ty "ht1 d"]
    by (auto simp: dict_inv_def dictIsRehashing_def ht_ok_def)
  ultimately show ?thesis using assms same_dict_refl by auto
next
  case False
  then show ?thesis using dictResize_ok [OF assms, of cr tr sz] by (auto simp: dictExpand0_def)
qed

lemma dictShrink_ok:
  assumes "dict_inv ty d"
  shows "\<exists>d' ok. dictShrink cr ty d sz = Some (d', ok) \<and> same_dict ty d d'"
proof (cases "dictIsRehashing d \<or> ht_used (ht0 d) > sz \<or> DICTHT_SIZE (ht_size_exp (ht0 d)) \<le> sz")
  case True
  then show ?thesis using assms same_dict_refl by (auto simp: dictShrink_def)
next
  case False
  then show ?thesis using dictResize_ok [OF assms, of cr None sz] by (auto simp: dictShrink_def)
qed

lemma dictExpandIfNeeded_ok:
  assumes "dict_inv ty d"
  shows "\<exists>d' ok. dictExpandIfNeeded cr ty d = Some (d', ok) \<and> same_dict ty d d' \<and> ht_table (ht0 d') \<noteq> [] \<and>
    (rehashidx d' \<le> 0 \<or> d' = d)"
proof -
  have sz: "DICTHT_SIZE (ht_size_exp (ht0 d)) = length (ht_table (ht0 d))"
    using assms ht_ok_size by (auto simp: dict_inv_def)
  have exp: "\<exists>d' ok. dictExpand cr ty d k = Some (d', ok) \<and> same_dict ty d d' \<and> (rehashidx d' \<le> 0 \<or> d' = d) \<and>
      (ht_table (ht0 d) = [] \<and> k = 4 \<longrightarrow> ht_table (ht0 d') \<noteq> [])" for k
    using dictExpand_ok [OF assms, of cr None k] by (auto simp: dictExpand_def)
  have grown: "ht_table (ht0 d') \<noteq> []" if "same_dict ty d d'" "0 < ht_used (ht0 d)" for d'
  proof -
    have "dictSize d' = dictSize d" using that(1) assms dictSize_ents [of ty] by (simp add: same_dict_def)
    then have "0 < dictSize d'" using that(2) by (simp add: dictSize_def)
    then show ?thesis using that(1)
      by (auto simp: same_dict_def dict_inv_def dictSize_def ht_ok_def split: if_splits)
  qed
  consider "dictIsRehashing d" | "\<not> dictIsRehashing d" "ht_table (ht0 d) = []"
    | "\<not> dictIsRehashing d" "ht_table (ht0 d) \<noteq> []" by blast
  then show ?thesis
  proof cases
    case 1
    then have "ht_table (ht0 d) \<noteq> []" using assms by (auto simp: dict_inv_def dictIsRehashing_def ht_ok_def)
    then show ?thesis using 1 assms same_dict_refl by (auto simp: dictExpandIfNeeded_def Let_def)
  next
    case 2
    then show ?thesis using exp [of 4] sz by (auto simp: dictExpandIfNeeded_def Let_def DICT_HT_INITIAL_SIZE_def)
  next
    case 3
    let ?n = "ht_used (ht0 d)" and ?sz = "length (ht_table (ht0 d))"
    let ?c = "(cr = DICT_RESIZE_ENABLE \<and> ?n \<ge> ?sz) \<or> (cr \<noteq> DICT_RESIZE_FORBID \<and> ?n \<ge> dict_force_resize_ratio * ?sz)"
    have "0 < ?n" if ?c using that 3(2) by (cases "ht_table (ht0 d)") (auto simp: dict_force_resize_ratio_def)
    then show ?thesis using 3 sz exp [of "?n + 1"] grown assms same_dict_refl
      by (auto simp: dictExpandIfNeeded_def Let_def)
  qed
qed

lemma dictExpandIfNeeded0_ok:
  assumes "dict_inv ty d" "pauseAutoResize d \<le> 0 \<or> ht_table (ht0 d) \<noteq> []"
  shows "\<exists>d'. dictExpandIfNeeded0 cr ty d = Some d' \<and> same_dict ty d d' \<and> ht_table (ht0 d') \<noteq> [] \<and>
    (rehashidx d' \<le> 0 \<or> d' = d)"
  using dictExpandIfNeeded_ok [OF assms(1), of cr] assms same_dict_refl
  by (auto simp: dictExpandIfNeeded0_def)

lemma dictShrinkIfNeeded_ok:
  assumes "dict_inv ty d"
  shows "\<exists>d' ok. dictShrinkIfNeeded cr ty d = Some (d', ok) \<and> same_dict ty d d'"
  using dictShrink_ok [OF assms, of cr "ht_used (ht0 d)"] same_dict_refl [OF assms]
  by (auto simp: dictShrinkIfNeeded_def Let_def)

lemma dictShrinkIfNeeded0_ok:
  assumes "dict_inv ty d"
  shows "\<exists>d'. dictShrinkIfNeeded0 cr ty d = Some d' \<and> same_dict ty d d'"
  using dictShrinkIfNeeded_ok [OF assms, of cr] same_dict_refl [OF assms] by (auto simp: dictShrinkIfNeeded0_def)

lemma dictBucketRehash_ok:
  assumes "dict_inv ty d" "i < length (ht_table (ht0 d))"
  shows "\<exists>d' b. dictBucketRehash cr ty d i = Some (d', b) \<and> same_dict ty d d' \<and>
    (rehashidx d' = -1 \<or> ht_size_exp (ht0 d') = ht_size_exp (ht0 d))"
proof (cases "pauserehash d \<noteq> 0 \<or> rehash_refused cr d")
  case True
  then show ?thesis using assms(1) same_dict_refl by (auto simp: dictBucketRehash_def)
next
  case False
  then have re: "dictIsRehashing d" by (simp add: rehash_refused_def Let_def)
  obtain d1 where d1: "rehashEntriesInBucketAtIndex ty d i = Some d1" "same_dict ty d d1" "rehashidx d1 = rehashidx d"
    "ht_size_exp (ht0 d1) = ht_size_exp (ht0 d)"
    using rehash_bucket_ok [OF assms(1) re assms(2)] by blast
  have inv: "dict_inv ty d1" "dictIsRehashing d1" using d1(2,3) re by (simp_all add: same_dict_def dictIsRehashing_def)
  note c = check_completed_ok [OF inv]
  have "rehashidx (fst (dictCheckRehashingCompleted d1)) = -1 \<or>
      ht_size_exp (ht0 (fst (dictCheckRehashingCompleted d1))) = ht_size_exp (ht0 d)"
    using c(3,4) d1(4) by (cases "snd (dictCheckRehashingCompleted d1)") (auto simp: dictIsRehashing_def)
  then show ?thesis using False d1(1) same_dict_trans [OF d1(2) c(1)] by (auto simp: dictBucketRehash_def)
qed

lemma dictRehash_fst_ok:
  assumes "dict_inv ty d"
  shows "\<exists>d'. map_option fst (dictRehash cr ty d n) = Some d' \<and> same_dict ty d d' \<and>
    (rehashidx d' = -1 \<or> ht_size_exp (ht0 d') = ht_size_exp (ht0 d))"
proof -
  obtain d' more where d': "dictRehash cr ty d n = Some (d', more)" "same_dict ty d d'"
    "more \<longrightarrow> ht_size_exp (ht0 d') = ht_size_exp (ht0 d)" "\<not> more \<longrightarrow> d' = d \<or> rehashidx d' = -1"
    using dictRehash_ok [OF assms, of cr n] by blast
  then show ?thesis by (cases more) auto
qed

lemma dictRehashStep_ok:
  assumes "dict_inv ty d"
  shows "\<exists>d'. dictRehashStep cr ty d = Some d' \<and> same_dict ty d d' \<and>
    (rehashidx d' = -1 \<or> ht_size_exp (ht0 d') = ht_size_exp (ht0 d))"
  using dictRehash_fst_ok [OF assms, of cr 1] same_dict_refl [OF assms] by (auto simp: dictRehashStep_def)

lemma dictRehashStepIfNeeded_ok:
  assumes "dict_inv ty d"
  shows "\<exists>d'. dictRehashStepIfNeeded cr ty d (dict_idx h (ht_size_exp (ht0 d))) = Some d' \<and> same_dict ty d d' \<and>
    (rehashidx d' = -1 \<or> ht_size_exp (ht0 d') = ht_size_exp (ht0 d))"
proof (cases "\<not> dictIsRehashing d \<or> pauserehash d \<noteq> 0")
  case True
  then show ?thesis using assms same_dict_refl by (auto simp: dictRehashStepIfNeeded_def)
next
  case False
  let ?i = "dict_idx h (ht_size_exp (ht0 d))"
  have i: "?i < length (ht_table (ht0 d))"
    using assms False by (intro ht_ok_index [of ty]) (auto simp: dict_inv_def dictIsRehashing_def)
  show ?thesis using False i dictBucketRehash_ok [OF assms i, of cr] dictRehash_fst_ok [OF assms, of cr 1]
    by (auto simp: dictRehashStepIfNeeded_def bucket_at_def)
qed

end
