(* ===== verification/Dict_Find.thy ===== *)
theory Dict_Find
  imports Dict_Ops
begin

text \<open>
  The finite map that a hash table of \<^verbatim>\<open>dict.c\<close> stands for, how it changes with the contents, and the
  search through the tables.
\<close>

section \<open>The map of a table\<close>

definition dict_map :: "('k, 'v) dict \<Rightarrow> 'k \<Rightarrow> 'v option option" where
  "dict_map d = map_of (map ent (concat (ht_table (ht0 d)) @ concat (ht_table (ht1 d))))"

lemma dict_map_iff:
  assumes "distinct (dict_keys d)"
  shows "dict_map d k = Some v \<longleftrightarrow> (k, v) \<in># ents d"
proof -
  let ?l = "map ent (concat (ht_table (ht0 d)) @ concat (ht_table (ht1 d)))"
  have "map fst ?l = dict_keys d" by (simp add: dict_keys_def ent_def)
  then have "dict_map d k = Some v \<longleftrightarrow> (k, v) \<in> set ?l"
    unfolding dict_map_def using assms by (intro map_of_eq_Some_iff) simp
  also have "\<dots> \<longleftrightarrow> (k, v) \<in># mset ?l" by simp
  also have "mset ?l = ents d" by (simp add: ents_def ht_ents_def)
  finally show ?thesis .
qed

lemma dict_map_eqI:
  assumes "distinct (dict_keys d)" "\<And>k v. (k, v) \<in># ents d \<longleftrightarrow> m k = Some v"
  shows "dict_map d = m"
proof
  fix k
  have "dict_map d k = Some v \<longleftrightarrow> m k = Some v" for v using dict_map_iff [OF assms(1)] assms(2) by simp
  then show "dict_map d k = m k" by (metis not_None_eq)
qed

lemma dict_map_cong: "dict_inv ty d \<Longrightarrow> same_dict ty d d' \<Longrightarrow> dict_map d' = dict_map d"
  by (rule dict_map_eqI) (auto simp: same_dict_def dict_inv_def dict_map_iff)

lemma dict_map_keys: "dict_map d k = None \<longleftrightarrow> k \<notin> set (dict_keys d)"
  by (auto simp: dict_map_def dict_keys_def map_of_eq_None_iff ent_def image_image image_Un)

lemma distinct_keys_iff: "distinct (dict_keys d) \<longleftrightarrow> (\<forall>k. count (image_mset fst (ents d)) k \<le> 1)"
  by (auto simp: distinct_count_atmost_1 mset_dict_keys [symmetric] count_eq_zero_iff not_in_iff le_Suc_eq) 

lemma keys_in_ents: "k \<in> set (dict_keys d) \<longleftrightarrow> k \<in># image_mset fst (ents d)"
  by (simp add: mset_dict_keys [symmetric])

text \<open>How the map changes with the contents.\<close>

lemma fresh_key:
  assumes "distinct (dict_keys d)" "ents d = add_mset (k, v) M"
  shows "k \<notin># image_mset fst M" "(k, w) \<notin># M"
proof -
  have "count (image_mset fst (ents d)) k \<le> 1" using assms(1) unfolding distinct_keys_iff by (rule spec)
  then have "count (image_mset fst M) k = 0" using assms(2) by simp
  then show *: "k \<notin># image_mset fst M" by (rule count_eq_zero_iff [THEN iffD1])
  then show "(k, w) \<notin># M" using imageI [of "(k, w)" "set_mset M" fst] by auto
qed

lemma dict_map_ents:
  assumes "distinct (dict_keys d)" "ents d = add_mset (k, v) M"
  shows "dict_map d k' = Some v' \<longleftrightarrow> (if k' = k then v' = v else (k', v') \<in># M)"
  using fresh_key(2) [OF assms] unfolding dict_map_iff [OF assms(1)] assms(2) by simp

lemma dict_map_add:
  assumes "distinct (dict_keys d)" "distinct (dict_keys d')" "ents d' = add_mset (k, v) (ents d)"
  shows "dict_map d' = (dict_map d)(k \<mapsto> v)" "dict_map d k = None"
proof -
  show "dict_map d' = (dict_map d)(k \<mapsto> v)"
    using assms(3) fresh_key(2) [OF assms(2,3)]
    by (intro dict_map_eqI [OF assms(2)]) (auto simp: dict_map_iff [OF assms(1)])
  show "dict_map d k = None"
    using fresh_key(1) [OF assms(2,3)] by (simp add: dict_map_keys keys_in_ents)
qed

lemma dict_map_del:
  assumes "distinct (dict_keys d)" "distinct (dict_keys d')" "ents d = add_mset (k, v) (ents d')"
  shows "dict_map d' = (dict_map d)(k := None)" "dict_map d k = Some v"
proof -
  have "dict_map d = (dict_map d')(k \<mapsto> v)" "dict_map d' k = None" using dict_map_add [OF assms(2,1,3)] .
  then show "dict_map d' = (dict_map d)(k := None)" "dict_map d k = Some v" by auto
qed

lemma dict_map_upd:
  assumes "distinct (dict_keys d)" "distinct (dict_keys d')" "ents d = add_mset (k, v) M" "ents d' = add_mset (k, v') M"
  shows "dict_map d' = (dict_map d)(k \<mapsto> v')" "dict_map d k = Some v"
proof -
  show "dict_map d' = (dict_map d)(k \<mapsto> v')"
  proof
    fix k'
    have "dict_map d' k' = Some w \<longleftrightarrow> ((dict_map d)(k \<mapsto> v')) k' = Some w" for w
      using dict_map_ents [OF assms(1,3), of k' w] dict_map_ents [OF assms(2,4), of k' w] by auto
    then show "dict_map d' k' = ((dict_map d)(k \<mapsto> v')) k'" by (metis not_None_eq)
  qed
  show "dict_map d k = Some v" using dict_map_ents [OF assms(1,3)] by simp
qed

section \<open>Lookup\<close>

lemma chain_find_Some: "chain_find k c = Some p \<Longrightarrow> p < length c \<and> dictGetKey (c ! p) = k"
  by (induction c arbitrary: p) (auto split: if_splits)

lemma chain_find_None: "chain_find k c = None \<longleftrightarrow> k \<notin> dictGetKey ` set c"
  by (induction c) auto

lemma ht_key_bucket:
  assumes "ht_ok ty h" "ht_size_exp h \<noteq> -1"
  shows "k \<in> dictGetKey ` set (concat (ht_table h)) \<longleftrightarrow>
    k \<in> dictGetKey ` set (ht_table h ! dict_idx (hashFunction ty k) (ht_size_exp h))"
proof -
  let ?i = "dict_idx (hashFunction ty k) (ht_size_exp h)"
  have "?i < length (ht_table h)" using assms by (rule ht_ok_index)
  moreover have "i = ?i" if "i < length (ht_table h)" "e \<in> set (ht_table h ! i)" "dictGetKey e = k" for i e
    using assms(1) that by (auto simp: ht_ok_def)
  ultimately have "(\<exists>i < length (ht_table h). e \<in> set (ht_table h ! i)) \<longleftrightarrow> e \<in> set (ht_table h ! ?i)"
    if "dictGetKey e = k" for e
    using that by blast
  then have "e \<in> set (concat (ht_table h)) \<longleftrightarrow> e \<in> set (ht_table h ! ?i)" if "dictGetKey e = k" for e
    using that by (metis (no_types, lifting) UN_iff set_concat in_set_conv_nth nth_mem)
  then show ?thesis by blast
qed

lemma find_in_table_ok:
  assumes "ht_ok ty (ht_at d t)" "ht_size_exp (ht_at d t) \<noteq> -1"
    and i_def: "i = dict_idx (hashFunction ty k) (ht_size_exp (ht_at d t))"
  shows "\<exists>l. find_in_table d t (hashFunction ty k) k = Some (l, (t, i)) \<and> i < length (ht_table (ht_at d t)) \<and>
    (l = None \<longleftrightarrow> k \<notin> dictGetKey ` set (concat (ht_table (ht_at d t)))) \<and>
    (\<forall>l'. l = Some l' \<longrightarrow> (\<exists>e. entry_at d l' = Some e \<and> dictGetKey e = k))"
proof -
  have i: "i < length (ht_table (ht_at d t))" unfolding i_def using assms(1,2) by (rule ht_ok_index)
  let ?l = "map_option (\<lambda>p. (t, i, p)) (chain_find k (ht_table (ht_at d t) ! i))"
  have "find_in_table d t (hashFunction ty k) k = Some (?l, (t, i))"
    using i by (simp add: find_in_table_def bucket_at_def i_def Let_def)
  moreover have "?l = None \<longleftrightarrow> k \<notin> dictGetKey ` set (concat (ht_table (ht_at d t)))"
    using ht_key_bucket [OF assms(1,2), of k] by (simp add: chain_find_None i_def)
  moreover have "\<forall>l'. ?l = Some l' \<longrightarrow> (\<exists>e. entry_at d l' = Some e \<and> dictGetKey e = k)"
  proof (intro allI impI)
    fix l' assume l: "?l = Some l'"
    then obtain p where p: "chain_find k (ht_table (ht_at d t) ! i) = Some p" "l' = (t, i, p)" by auto
    then show "\<exists>e. entry_at d l' = Some e \<and> dictGetKey e = k"
      using i chain_find_Some [OF p(1)] by (simp add: entry_at_def bucket_at_def)
  qed
  ultimately show ?thesis using i by (intro exI [of _ ?l] conjI)
qed

lemma dict_keys_tables:
  "k \<in> set (dict_keys d) \<longleftrightarrow> k \<in> dictGetKey ` set (concat (ht_table (ht_at d 0))) \<or>
     k \<in> dictGetKey ` set (concat (ht_table (ht_at d 1)))"
  by (auto simp: dict_keys_def ht_at_def)

text \<open>The index that was computed before the rehashing step may be stale, but then nothing is skipped.\<close>

definition idx_ok :: "('k, 'v) dictType \<Rightarrow> ('k, 'v) dict \<Rightarrow> nat \<Rightarrow> 'k \<Rightarrow> bool" where
  "idx_ok ty d idx k \<longleftrightarrow> (int idx < rehashidx d \<longrightarrow> idx = dict_idx (hashFunction ty k) (ht_size_exp (ht0 d)))"

lemma skipped_bucket:
  assumes "dict_inv ty d" "idx_ok ty d idx k" "int idx < rehashidx d"
  shows "k \<notin> dictGetKey ` set (concat (ht_table (ht0 d)))"
proof -
  have "ht_table (ht0 d) ! idx = []" using assms(1,3) by (auto simp: dict_inv_def)
  moreover have "ht_ok ty (ht0 d)" "ht_size_exp (ht0 d) \<noteq> -1" using assms(1,3) by (auto simp: dict_inv_def)
  ultimately show ?thesis using ht_key_bucket [of ty "ht0 d" k] assms(2,3) by (simp add: idx_ok_def)
qed

text \<open>The bucket for a new key.\<close>

definition insert_table :: "('k, 'v) dict \<Rightarrow> nat" where
  "insert_table d = (if dictIsRehashing d then 1 else 0)"

definition insert_idx :: "('k, 'v) dictType \<Rightarrow> ('k, 'v) dict \<Rightarrow> 'k \<Rightarrow> nat" where
  "insert_idx ty d k = dict_idx (hashFunction ty k) (ht_size_exp (ht_at d (insert_table d)))"

lemma find_tables_ok:
  assumes inv: "dict_inv ty d" and e: "ht_size_exp (ht0 d) \<noteq> -1" and idx: "idx_ok ty d idx k"
  shows "\<exists>l b. find_tables d idx (hashFunction ty k) k = Some (l, b) \<and>
    (l = None \<longleftrightarrow> dict_map d k = None) \<and> (l = None \<longrightarrow> b = (insert_table d, insert_idx ty d k) \<and>
      insert_idx ty d k < length (ht_table (ht_at d (insert_table d)))) \<and>
    (\<forall>l'. l = Some l' \<longrightarrow> (\<exists>e. entry_at d l' = Some e \<and> dictGetKey e = k))"
proof -
  let ?h = "hashFunction ty k"
  have ok: "ht_ok ty (ht_at d 0)" "ht_ok ty (ht_at d 1)" "ht_size_exp (ht_at d 0) \<noteq> -1"
    "dictIsRehashing d \<Longrightarrow> ht_size_exp (ht_at d 1) \<noteq> -1"
    "\<not> dictIsRehashing d \<Longrightarrow> ht_table (ht_at d 1) = []"
    using inv e by (auto simp: dict_inv_def ht_at_def dictIsRehashing_def)
  obtain l0 i0 where l0: "find_in_table d 0 ?h k = Some (l0, (0, i0))"
      "i0 = dict_idx ?h (ht_size_exp (ht_at d 0))" "i0 < length (ht_table (ht_at d 0))"
      "l0 = None \<longleftrightarrow> k \<notin> dictGetKey ` set (concat (ht_table (ht_at d 0)))"
      "\<forall>l'. l0 = Some l' \<longrightarrow> (\<exists>e. entry_at d l' = Some e \<and> dictGetKey e = k)"
    using find_in_table_ok [OF ok(1,3) refl, of k] by blast
  let ?x = "if int idx < rehashidx d then Some (None, (0, idx)) else Some (l0, (0, i0))"
  have x: "find_tables d idx ?h k = do { (l, b) \<leftarrow> ?x;
      if l = None \<and> dictIsRehashing d then find_in_table d 1 ?h k else Some (l, b) }"
    unfolding find_tables_def l0(1) ..
  have sk: "int idx < rehashidx d \<Longrightarrow> k \<notin> dictGetKey ` set (concat (ht_table (ht_at d 0)))"
    using skipped_bucket [OF inv idx] by (simp add: ht_at_def)
  show ?thesis
  proof (cases "dictIsRehashing d")
    case False
    then have "\<not> int idx < rehashidx d" by (simp add: dictIsRehashing_def)
    then show ?thesis using False l0 ok(5) unfolding x dict_map_keys dict_keys_tables insert_table_def insert_idx_def by simp
  next
    case True
    obtain l1 where l1: "find_in_table d 1 ?h k = Some (l1, (1, insert_idx ty d k))" "insert_idx ty d k < length (ht_table (ht_at d 1))"
      "l1 = None \<longleftrightarrow> k \<notin> dictGetKey ` set (concat (ht_table (ht_at d 1)))"
      "\<forall>l'. l1 = Some l' \<longrightarrow> (\<exists>e. entry_at d l' = Some e \<and> dictGetKey e = k)"
      using find_in_table_ok [OF ok(2) ok(4) [OF True] refl, of k] True unfolding insert_idx_def insert_table_def by auto
    show ?thesis
    proof (cases "int idx < rehashidx d \<or> l0 = None")
      case no: True
      then have "find_tables d idx ?h k = Some (l1, (1, insert_idx ty d k))" using True l1(1) by (auto simp: x)
      moreover have "k \<notin> dictGetKey ` set (concat (ht_table (ht_at d 0)))" using no sk l0(4) by blast
      ultimately show ?thesis using l1 True by (auto simp: dict_map_keys dict_keys_tables insert_table_def)
    next
      case False
      then have "find_tables d idx ?h k = Some (l0, (0, i0))" by (auto simp: x)
      then show ?thesis using False l0(4,5) by (auto simp: dict_map_keys dict_keys_tables)
    qed
  qed
qed

end
