(* ===== verification/Dict_Correct.thy ===== *)
theory Dict_Correct
  imports Dict_Find
begin

text \<open>
  Correctness of the operations of \<^verbatim>\<open>dict.c\<close> against a finite map, for single calls and for every
  sequence of them.
\<close>

section \<open>Replacing a bucket\<close>

definition upd_bucket :: "('k, 'v) dict \<Rightarrow> nat \<Rightarrow> nat \<Rightarrow> ('k, 'v) dictEntry list \<Rightarrow> nat \<Rightarrow> ('k, 'v) dict" where
  "upd_bucket d t i c n = set_ht d t ((set_bucket (ht_at d t) i c)\<lparr>ht_used := n\<rparr>)"

lemma upd_bucket_simps [simp]:
  "rehashidx (upd_bucket d t i c n) = rehashidx d" "pauserehash (upd_bucket d t i c n) = pauserehash d"
  "pauseAutoResize (upd_bucket d t i c n) = pauseAutoResize d" "callbacks (upd_bucket d t i c n) = callbacks d"
  "dictIsRehashing (upd_bucket d t i c n) = dictIsRehashing d"
  "ht_size_exp (ht0 (upd_bucket d t i c n)) = ht_size_exp (ht0 d)"
  "ht_size_exp (ht1 (upd_bucket d t i c n)) = ht_size_exp (ht1 d)"
  by (simp_all add: upd_bucket_def set_ht_def ht_at_def set_bucket_def dictIsRehashing_def)

lemma upd_bucket_ents:
  assumes "i < length (ht_table (ht_at d t))"
  shows "ents (upd_bucket d t i c n) + image_mset ent (mset (ht_table (ht_at d t) ! i)) = ents d + image_mset ent (mset c)"
  using ht_ents_set [OF assms, of n c]
  by (cases "t = 0") (simp_all add: ents_def upd_bucket_def set_ht_def ht_at_def ac_simps)

text \<open>A bucket that is not empty is not one that has been rehashed.\<close>

lemma upd_bucket_inv:
  assumes inv: "dict_inv ty d" and i: "i < length (ht_table (ht_at d t))"
    and c: "chain_ok (no_value ty) c"
    and idx: "\<forall>e \<in> set c. dict_idx (hashFunction ty (dictGetKey e)) (ht_size_exp (ht_at d t)) = i"
    and n: "n + length (ht_table (ht_at d t) ! i) = ht_used (ht_at d t) + length c"
    and ne: "t = 0 \<and> dictIsRehashing d \<longrightarrow> ht_table (ht0 d) ! i \<noteq> []"
    and dist: "distinct (dict_keys (upd_bucket d t i c n))"
  shows "dict_inv ty (upd_bucket d t i c n)"
proof -
  let ?h = "(set_bucket (ht_at d t) i c)\<lparr>ht_used := n\<rparr>"
  have "ht_ok ty (ht_at d t)" using inv by (simp add: dict_inv_def ht_at_def)
  then have ok: "ht_ok ty ?h" using i c idx n by (rule ht_ok_set)
  have t1: "t = 0" if "rehashidx d = -1" using that inv i by (auto simp: dict_inv_def ht_at_def split: if_splits)
  have bu: "dictBuckets (upd_bucket d t i c n) = dictBuckets d" by (simp add: dictBuckets_def)
  have "(ht_table (ht0 d))[i := c] ! j = []" if "t = 0" "rehashidx d \<noteq> -1" "j < nat (rehashidx d)" for j
    using that inv ne i by (cases "j = i") (auto simp: dict_inv_def dictIsRehashing_def ht_at_def)
  then show ?thesis
    using inv ok t1 dist bu unfolding dict_inv_def upd_bucket_def set_ht_def ht_at_def set_bucket_def
    by (cases "t = 0") auto
qed

lemma inv_count:
  assumes "dict_inv ty d"
  shows "count (image_mset fst (ents d)) k \<le> 1"
proof -
  have "distinct (dict_keys d)" using assms by (simp add: dict_inv_def)
  then show ?thesis unfolding distinct_keys_iff by (rule spec)
qed

lemma distinct_sub:
  assumes "dict_inv ty d" "image_mset fst (ents d') \<subseteq># image_mset fst (ents d)"
  shows "distinct (dict_keys d')"
proof -
  have "\<forall>k. count (image_mset fst (ents d)) k \<le> 1" using inv_count [OF assms(1)] by blast
  moreover have "count (image_mset fst (ents d')) k \<le> count (image_mset fst (ents d)) k" for k
    using assms(2) by (rule mset_subset_eq_count)
  ultimately show ?thesis unfolding distinct_keys_iff by (meson le_trans)
qed

lemma distinct_add:
  assumes "dict_inv ty d" "dict_map d k = None" "ents d' = add_mset (k, v) (ents d)"
  shows "distinct (dict_keys d')"
proof -
  have "\<forall>k. count (image_mset fst (ents d)) k \<le> 1" using inv_count [OF assms(1)] by blast
  moreover have "count (image_mset fst (ents d)) k = 0"
    using assms(2) unfolding dict_map_keys keys_in_ents by (rule not_in_iff [THEN iffD1])
  ultimately show ?thesis unfolding distinct_keys_iff assms(3) by simp
qed

section \<open>Insertion\<close>

lemma step_idx_ok:
  assumes "dict_inv ty d"
  shows "\<exists>d'. dictRehashStepIfNeeded cr ty d (dict_idx (hashFunction ty k) (ht_size_exp (ht0 d))) = Some d' \<and>
    same_dict ty d d' \<and> idx_ok ty d' (dict_idx (hashFunction ty k) (ht_size_exp (ht0 d))) k"
  using dictRehashStepIfNeeded_ok [OF assms, of cr "hashFunction ty k"] by (auto simp: idx_ok_def)

lemma idx_ok_expand: "idx_ok ty d idx k \<Longrightarrow> rehashidx d' \<le> 0 \<or> d' = d \<Longrightarrow> idx_ok ty d' idx k"
  by (auto simp: idx_ok_def)

lemma ht_exp_table: "ht_ok ty h \<Longrightarrow> ht_table h \<noteq> [] \<Longrightarrow> ht_size_exp h \<noteq> -1"
  by (auto simp: ht_ok_def)

lemma dictFindLinkForInsert_ok:
  assumes inv: "dict_inv ty d" and auto_resize: "pauseAutoResize d \<le> 0"
  shows "\<exists>d' r. dictFindLinkForInsert cr ty d k = Some (d', r) \<and> same_dict ty d d' \<and>
    (case r of
       Inl l \<Rightarrow> dict_map d k \<noteq> None \<and> (\<exists>e. entry_at d' l = Some e \<and> dictGetKey e = k)
     | Inr b \<Rightarrow> dict_map d k = None \<and> b = (insert_table d', insert_idx ty d' k) \<and>
         insert_idx ty d' k < length (ht_table (ht_at d' (insert_table d'))))"
proof -
  let ?h = "hashFunction ty k"
  let ?i = "dict_idx ?h (ht_size_exp (ht0 d))"
  obtain d1 where d1: "dictRehashStepIfNeeded cr ty d ?i = Some d1" "same_dict ty d d1" "idx_ok ty d1 ?i k"
    using step_idx_ok [OF inv] by blast
  then have i1: "dict_inv ty d1" "pauseAutoResize d1 \<le> 0" using auto_resize by (auto simp: same_dict_def)
  obtain d2 where d2: "dictExpandIfNeeded0 cr ty d1 = Some d2" "same_dict ty d1 d2" "ht_table (ht0 d2) \<noteq> []"
    "rehashidx d2 \<le> 0 \<or> d2 = d1"
    using dictExpandIfNeeded0_ok [OF i1(1), of cr] i1(2) by blast
  have inv2: "dict_inv ty d2" using d2(2) by (simp add: same_dict_def)
  then have "ht_size_exp (ht0 d2) \<noteq> -1" using d2(3) ht_exp_table by (auto simp: dict_inv_def)
  from find_tables_ok [OF inv2 this idx_ok_expand [OF d1(3) d2(4)]] obtain l b where f: "find_tables d2 ?i ?h k = Some (l, b)" "l = None \<longleftrightarrow> dict_map d2 k = None"
    "l = None \<longrightarrow> b = (insert_table d2, insert_idx ty d2 k) \<and>
       insert_idx ty d2 k < length (ht_table (ht_at d2 (insert_table d2)))"
    "\<forall>l'. l = Some l' \<longrightarrow> (\<exists>e. entry_at d2 l' = Some e \<and> dictGetKey e = k)"
    by (elim exE conjE)
  have s: "same_dict ty d d2" using same_dict_trans [OF d1(2) d2(2)] .
  have "dictFindLinkForInsert cr ty d k = Some (d2, case l of Some l \<Rightarrow> Inl l | None \<Rightarrow> Inr b)"
    unfolding dictFindLinkForInsert_def Let_def d1(1) d2(1) f(1) by (simp add: d2(1) f(1))
  then show ?thesis using s f(2-4) dict_map_cong [OF inv s] by (cases l) auto
qed

lemma dictInsertKeyAtLink_ok:
  assumes inv: "dict_inv ty d" and new: "dict_map d k = None"
    and i: "insert_idx ty d k < length (ht_table (ht_at d (insert_table d)))"
  shows "\<exists>d' e. dictInsertKeyAtLink ty d k (insert_table d, insert_idx ty d k) =
      Some (d', (insert_table d, insert_idx ty d k, 0)) \<and>
    dict_inv ty d' \<and> pauserehash d' = pauserehash d \<and> pauseAutoResize d' = pauseAutoResize d \<and> callbacks d' = callbacks d \<and>
    entry_at d' (insert_table d, insert_idx ty d k, 0) = Some e \<and> dictGetKey e = k \<and>
    dict_map d' = (dict_map d)(k \<mapsto> if no_value ty then None else Some (uninit ty))"
proof -
  let ?t = "insert_table d" and ?i = "insert_idx ty d k"
  let ?c = "ht_table (ht_at d ?t) ! ?i"
  let ?e = "new_entry ty k ?c" and ?n = "ht_used (ht_at d ?t) + 1"
  let ?d = "upd_bucket d ?t ?i (?e # ?c) ?n"
  have res: "dictInsertKeyAtLink ty d k (?t, ?i) = Some (?d, (?t, ?i, 0))"
    using i by (simp add: dictInsertKeyAtLink_def insert_table_def [symmetric] bucket_at_def upd_bucket_def set_bucket_def Let_def)
  have key: "ent ?e = (k, if no_value ty then None else Some (uninit ty))" "dictGetKey ?e = k"
    by (simp_all add: new_entry_def ent_def)
  have en: "ents ?d = add_mset (ent ?e) (ents d)" using upd_bucket_ents [OF i, of "?e # ?c" ?n] by simp
  have dist: "distinct (dict_keys ?d)" using distinct_add [OF inv new] en key by simp
  have ok: "ht_ok ty (ht_at d ?t)" using inv by (simp add: dict_inv_def ht_at_def)
  have "chain_ok (no_value ty) ?c" using ok i by (simp add: ht_ok_def)
  then have c: "chain_ok (no_value ty) (?e # ?c)"
    by (auto simp: chain_ok_def new_entry_def entry_ok_def)
  have ch: "\<forall>e \<in> set (?e # ?c). dict_idx (hashFunction ty (dictGetKey e)) (ht_size_exp (ht_at d ?t)) = ?i"
    using ok i key(2) by (auto simp: ht_ok_def insert_idx_def)
  have inv': "dict_inv ty ?d"
    using dist by (intro upd_bucket_inv [OF inv i c ch]) (simp_all add: insert_table_def)
  have "entry_at ?d (?t, ?i, 0) = Some ?e"
    using i by (auto simp: entry_at_def upd_bucket_def bucket_at_def set_ht_def ht_at_def set_bucket_def)
  moreover have "dict_map ?d = (dict_map d)(k \<mapsto> if no_value ty then None else Some (uninit ty))"
    using inv dist en key by (intro dict_map_add) (simp_all add: dict_inv_def)
  ultimately show ?thesis using res inv' key(2) by auto
qed

text \<open>What an operation keeps besides the contents.\<close>

definition good :: "('k, 'v) dictType \<Rightarrow> ('k, 'v) dict \<Rightarrow> ('k, 'v) dict \<Rightarrow> bool" where
  "good ty d d' \<longleftrightarrow> dict_inv ty d' \<and> pauserehash d' = pauserehash d \<and> pauseAutoResize d' = pauseAutoResize d \<and>
     prefix (callbacks d) (callbacks d')"

lemma good_same: "same_dict ty d d' \<Longrightarrow> good ty d d'"
  by (simp add: good_def same_dict_def)

lemma good_trans: "good ty d d1 \<Longrightarrow> good ty d1 d2 \<Longrightarrow> good ty d d2"
  by (auto simp: good_def intro: prefix_order.trans)

definition new_val :: "('k, 'v) dictType \<Rightarrow> 'v \<Rightarrow> 'v option" where
  "new_val ty v = (if no_value ty then None else Some v)"

lemma dictAddRaw_ok:
  assumes inv: "dict_inv ty d" and auto_resize: "pauseAutoResize d \<le> 0"
  shows "\<exists>d' l e. dictAddRaw cr ty d k = Some (d', if dict_map d k = None then Inr l else Inl l) \<and> good ty d d' \<and>
    entry_at d' l = Some e \<and> dictGetKey e = k \<and>
    dict_map d' = (if dict_map d k = None then (dict_map d)(k \<mapsto> new_val ty (uninit ty)) else dict_map d)"
proof -
  obtain d1 r where d1: "dictFindLinkForInsert cr ty d k = Some (d1, r)" "same_dict ty d d1"
    "case r of
       Inl l \<Rightarrow> dict_map d k \<noteq> None \<and> (\<exists>e. entry_at d1 l = Some e \<and> dictGetKey e = k)
     | Inr b \<Rightarrow> dict_map d k = None \<and> b = (insert_table d1, insert_idx ty d1 k) \<and>
         insert_idx ty d1 k < length (ht_table (ht_at d1 (insert_table d1)))"
    using dictFindLinkForInsert_ok [OF assms, of cr k] by (elim exE conjE)
  have inv1: "dict_inv ty d1" and m: "dict_map d1 = dict_map d"
    using d1(2) dict_map_cong [OF inv d1(2)] by (simp_all add: same_dict_def)
  show ?thesis
  proof (cases r)
    case (Inl l)
    then obtain e where e: "dict_map d k \<noteq> None" "entry_at d1 l = Some e" "dictGetKey e = k" using d1(3) by auto
    have "dictAddRaw cr ty d k = Some (d1, Inl l)" using Inl d1(1) by (simp add: dictAddRaw_def)
    then show ?thesis using m good_same [OF d1(2)] e by (intro exI [of _ d1] exI [of _ l] exI [of _ e]) simp
  next
    case (Inr b)
    then have b: "dict_map d1 k = None" "b = (insert_table d1, insert_idx ty d1 k)"
      "insert_idx ty d1 k < length (ht_table (ht_at d1 (insert_table d1)))" using d1(3) m by auto
    let ?l = "(insert_table d1, insert_idx ty d1 k, 0)"
    obtain d2 e where d2: "dictInsertKeyAtLink ty d1 k b = Some (d2, ?l)" "dict_inv ty d2"
      "pauserehash d2 = pauserehash d1" "pauseAutoResize d2 = pauseAutoResize d1" "callbacks d2 = callbacks d1" "entry_at d2 ?l = Some e"
      "dictGetKey e = k" "dict_map d2 = (dict_map d1)(k \<mapsto> if no_value ty then None else Some (uninit ty))"
      using dictInsertKeyAtLink_ok [OF inv1 b(1,3)] unfolding b(2) by (elim exE conjE)
    have "good ty d d2" using d2(2-5) good_same [OF d1(2)] by (simp add: good_def)
    moreover have "dictAddRaw cr ty d k = Some (d2, Inr ?l)" using Inr d1(1) d2(1) by (simp add: dictAddRaw_def)
    ultimately show ?thesis using b(1) d2(6-8) m by (auto simp: new_val_def)
  qed
qed

section \<open>Values\<close>

lemma chain_ok_values: "chain_ok False c \<longleftrightarrow> (\<forall>e \<in> set c. entry_ok False e)"
proof -
  have "\<not> entryIsKey e" if "entry_ok False e" for e :: "('a, 'b) dictEntry"
    using that by (cases e) (auto simp: entry_ok_def)
  then show ?thesis using in_set_butlastD by (fastforce simp: chain_ok_def)
qed

lemma entry_atD:
  assumes "entry_at d (t, i, p) = Some e"
  shows "i < length (ht_table (ht_at d t))" "p < length (ht_table (ht_at d t) ! i)" "ht_table (ht_at d t) ! i ! p = e"
  using assms by (auto simp: entry_at_def bucket_at_def split: if_splits option.splits bind_splits)

lemma entry_at_table:
  assumes "dict_inv ty d" "entry_at d (t, i, p) = Some e"
  shows "ht_ok ty (ht_at d t)" "dict_idx (hashFunction ty (dictGetKey e)) (ht_size_exp (ht_at d t)) = i"
    "entry_ok (no_value ty) e"
proof -
  note e = entry_atD [OF assms(2)]
  show ok: "ht_ok ty (ht_at d t)" using assms(1) by (simp add: dict_inv_def ht_at_def)
  have "e \<in> set (ht_table (ht_at d t) ! i)" using e nth_mem by blast
  then show "dict_idx (hashFunction ty (dictGetKey e)) (ht_size_exp (ht_at d t)) = i" "entry_ok (no_value ty) e"
    using ok e(1) by (auto simp: ht_ok_def chain_ok_def)
qed

lemma entry_at_ents:
  assumes "entry_at d (t, i, p) = Some e"
  shows "ent e \<in># ents d"
proof -
  note e = entry_atD [OF assms]
  have "e \<in> set (ht_table (ht_at d t) ! i)" using e(2,3) nth_mem by blast
  then have "e \<in> set (concat (ht_table (ht_at d t)))" using e(1) nth_mem by fastforce
  then show ?thesis by (auto simp: ents_def ht_ents_def ht_at_def split: if_splits)
qed

lemma set_ht_upd: "set_ht d t (set_bucket (ht_at d t) i c) = upd_bucket d t i c (ht_used (ht_at d t))"
  by (simp add: upd_bucket_def set_bucket_def)

lemma dictSetVal_ok:
  assumes inv: "dict_inv ty d" and nv: "\<not> no_value ty"
    and e: "entry_at d (t, i, p) = Some e" and k: "dictGetKey e = k"
  shows "\<exists>d'. dictSetVal d (t, i, p) v = Some d' \<and> good ty d d' \<and> dict_map d' = (dict_map d)(k \<mapsto> Some v)"
proof -
  note l = entry_atD [OF e] and tb = entry_at_table [OF inv e]
  let ?c = "ht_table (ht_at d t) ! i"
  let ?c' = "?c[p := EntryVal k v]"
  let ?d = "upd_bucket d t i ?c' (ht_used (ht_at d t))"
  obtain w where w: "e = EntryVal k w" using tb(3) nv k by (cases e) (auto simp: entry_ok_def)
  have res: "dictSetVal d (t, i, p) v = Some ?d"
    using l e w by (simp add: dictSetVal_def bucket_at_def set_ht_upd)
  let ?r = "image_mset ent (mset ?c - {#?c ! p#})"
  have m: "image_mset ent (mset ?c) = add_mset (k, Some w) ?r" "image_mset ent (mset ?c') = add_mset (k, Some v) ?r"
  proof -
    have "mset ?c = add_mset (?c ! p) (mset ?c - {#?c ! p#})" using l(2) by (simp add: nth_mem)
    then have "image_mset ent (mset ?c) = image_mset ent (add_mset (?c ! p) (mset ?c - {#?c ! p#}))" by simp
    then show "image_mset ent (mset ?c) = add_mset (k, Some w) ?r" using l(3) w by (simp add: ent_def)
    show "image_mset ent (mset ?c') = add_mset (k, Some v) ?r" using l(2) by (simp add: mset_update ent_def)
  qed
  have en: "ents ?d + {#(k, Some w)#} = ents d + {#(k, Some v)#}"
    using upd_bucket_ents [OF l(1), of ?c' "ht_used (ht_at d t)"] unfolding m by simp
  have "image_mset fst (ents ?d) = image_mset fst (ents d)"
    using arg_cong [OF en, of "image_mset fst"] by simp
  then have dist: "distinct (dict_keys ?d)" by (intro distinct_sub [OF inv]) simp
  have "chain_ok (no_value ty) ?c" using tb(1) l(1) by (simp add: ht_ok_def)
  then have c: "chain_ok (no_value ty) ?c'"
    using nv set_update_subset_insert [of ?c p "EntryVal k v"] by (auto simp: chain_ok_values entry_ok_def)
  have idx: "\<forall>e \<in> set ?c'. dict_idx (hashFunction ty (dictGetKey e)) (ht_size_exp (ht_at d t)) = i"
    using tb(1,2) l(1) k set_update_subset_insert [of ?c p "EntryVal k v"] by (auto simp: ht_ok_def)
  have inv': "dict_inv ty ?d"
    using dist l(2) by (intro upd_bucket_inv [OF inv l(1) c idx]) (auto simp: ht_at_def)
  have "(k, Some w) \<in># ents d" using entry_at_ents [OF e] w by (simp add: ent_def)
  then have M: "ents d = add_mset (k, Some w) (ents d - {#(k, Some w)#})" by simp
  then have "ents d + {#(k, Some v)#} = add_mset (k, Some v) (ents d - {#(k, Some w)#}) + {#(k, Some w)#}"
    by (metis add_mset_add_single add_mset_commute)
  then have M': "ents ?d = add_mset (k, Some v) (ents d - {#(k, Some w)#})"
    using en by (simp only: add_right_cancel)
  have "distinct (dict_keys d)" using inv by (simp add: dict_inv_def)
  from dict_map_upd(1) [OF this dist M M'] show ?thesis using res inv' by (simp add: good_def)
qed

end
