(* ===== verification/Dict_Spec.thy ===== *)
theory Dict_Spec
  imports Dict_Correct
begin

text \<open>
  The operations of \<^verbatim>\<open>dict.c\<close> implement a finite map: each of them alone, and every sequence of them from
  an empty table, whatever the resizing policy is at each call.
\<close>

section \<open>Adding and replacing\<close>

lemma dictAdd_ok:
  assumes "dict_inv ty d" "pauseAutoResize d \<le> 0"
  shows "\<exists>d'. dictAdd cr ty d k v = Some (d', dict_map d k = None) \<and> good ty d d' \<and>
    dict_map d' = (if dict_map d k = None then (dict_map d)(k \<mapsto> new_val ty v) else dict_map d)"
proof -
  obtain d1 l e where a: "dictAddRaw cr ty d k = Some (d1, if dict_map d k = None then Inr l else Inl l)" "good ty d d1"
    "entry_at d1 l = Some e" "dictGetKey e = k"
    "dict_map d1 = (if dict_map d k = None then (dict_map d)(k \<mapsto> new_val ty (uninit ty)) else dict_map d)"
    using dictAddRaw_ok [OF assms, of cr k] by (elim exE conjE)
  obtain t i p where l: "l = (t, i, p)" by (cases l)
  show ?thesis
  proof (cases "dict_map d k = None \<and> \<not> no_value ty")
    case True
    obtain d2 where d2: "dictSetVal d1 l v = Some d2" "good ty d1 d2" "dict_map d2 = (dict_map d1)(k \<mapsto> Some v)"
      using dictSetVal_ok [of ty d1 t i p e k v] a(2-4) True l by (auto simp: good_def)
    then show ?thesis using a(1,5) True good_trans [OF a(2) d2(2)] by (simp add: dictAdd_def new_val_def)
  next
    case False
    then show ?thesis using a(1,2,5) by (auto simp: dictAdd_def new_val_def)
  qed
qed

lemma dictReplace_ok:
  assumes "dict_inv ty d" "pauseAutoResize d \<le> 0" "\<not> no_value ty"
  shows "\<exists>d'. dictReplace cr ty d k v = Some (d', dict_map d k = None) \<and> good ty d d' \<and>
    dict_map d' = (dict_map d)(k \<mapsto> Some v)"
proof -
  obtain d1 l e where a: "dictAddRaw cr ty d k = Some (d1, if dict_map d k = None then Inr l else Inl l)" "good ty d d1"
    "entry_at d1 l = Some e" "dictGetKey e = k"
    "dict_map d1 = (if dict_map d k = None then (dict_map d)(k \<mapsto> new_val ty (uninit ty)) else dict_map d)"
    using dictAddRaw_ok [OF assms(1,2), of cr k] by (elim exE conjE)
  obtain t i p where l: "l = (t, i, p)" by (cases l)
  obtain d2 where d2: "dictSetVal d1 l v = Some d2" "good ty d1 d2" "dict_map d2 = (dict_map d1)(k \<mapsto> Some v)"
    using dictSetVal_ok [of ty d1 t i p e k v] a(2-4) assms(3) l by (auto simp: good_def)
  have "\<exists>w. dictGetVal e = Some w"
    using entry_at_table(3) [of ty d1 t i p e] a(2,3) assms(3) l by (auto simp: good_def entry_ok_def)
  then show ?thesis using a(1,3,5) d2 good_trans [OF a(2) d2(2)] by (auto simp: dictReplace_def)
qed

section \<open>Finding\<close>

lemma find_or_null_table:
  "ht_table (ht_at d t) \<noteq> [] \<Longrightarrow> find_or_null d t h k = map_option (\<lambda>(l, b). (l, Some b)) (find_in_table d t h k)"
  by (simp add: find_or_null_def)

text \<open>The search with optional buckets, where table 0 exists, is the plain one.\<close>

lemma find_or_null_tables:
  assumes "dict_inv ty d" "ht_table (ht0 d) \<noteq> []" "find_tables d idx h k = Some (l, b)"
  shows "do { (l, b) \<leftarrow> (if int idx < rehashidx d then Some (None, None) else find_or_null d 0 h k);
           (l, b) \<leftarrow> (if l = None \<and> dictIsRehashing d then find_or_null d 1 h k else Some (l, b));
           Some (d, l, if w then b else None) } = Some (d, l, if w then Some b else None)"
proof -
  have t: "ht_table (ht_at d 0) \<noteq> []" "dictIsRehashing d \<Longrightarrow> ht_table (ht_at d 1) \<noteq> []"
    using assms(1,2) by (auto simp: ht_at_def dict_inv_def dictIsRehashing_def ht_ok_def)
  have "int idx < rehashidx d \<Longrightarrow> dictIsRehashing d" by (auto simp: dictIsRehashing_def)
  then show ?thesis
    using assms(3) t unfolding find_tables_def
    by (auto simp: find_or_null_table split: if_splits bind_splits)
qed

text \<open>A table that exists is never given up by a rehashing step.\<close>

lemma rehashing_tables:
  assumes "dict_inv ty d" "dictIsRehashing d"
  shows "ht_table (ht0 d) \<noteq> []" "ht_table (ht0 (fst (dictCheckRehashingCompleted d))) \<noteq> []"
proof -
  have "ht_table (ht0 d) \<noteq> []" "ht_table (ht1 d) \<noteq> []"
    using assms by (auto simp: dict_inv_def dictIsRehashing_def ht_ok_def)
  then show "ht_table (ht0 d) \<noteq> []" "ht_table (ht0 (fst (dictCheckRehashingCompleted d))) \<noteq> []"
    by (simp_all add: dictCheckRehashingCompleted_def log_event_def Let_def)
qed

lemma dictRehash_table:
  assumes "dict_inv ty d" "dictRehash cr ty d n = Some (d', m)" "ht_table (ht0 d) \<noteq> []"
  shows "ht_table (ht0 d') \<noteq> []"
proof (cases "rehash_refused cr d")
  case True
  then show ?thesis using assms by (simp add: dictRehash_def)
next
  case False
  then have re: "dictIsRehashing d" by (simp add: rehash_refused_def Let_def)
  obtain d1 stop where d1: "rehash_loop ty n (of_nat n * 10) d = Some (d1, stop)" "same_dict ty d d1" "dictIsRehashing d1"
    using rehash_loop_ok [OF assms(1) re, of n "of_nat n * 10"] by blast
  then have "dict_inv ty d1" by (simp add: same_dict_def)
  note t = rehashing_tables [OF this d1(3)]
  have "d' = d1 \<or> d' = fst (dictCheckRehashingCompleted d1)"
    using False assms(2) d1(1) by (auto simp: dictRehash_def split: if_splits prod.splits)
  then show ?thesis using t by blast
qed

lemma dictBucketRehash_table:
  assumes "dict_inv ty d" "dictBucketRehash cr ty d i = Some (d', b)" "i < length (ht_table (ht0 d))"
  shows "ht_table (ht0 d') \<noteq> []"
proof (cases "pauserehash d \<noteq> 0 \<or> rehash_refused cr d")
  case True
  then show ?thesis using assms by (auto simp: dictBucketRehash_def)
next
  case False
  then have re: "dictIsRehashing d" by (simp add: rehash_refused_def Let_def)
  obtain d1 where d1: "rehashEntriesInBucketAtIndex ty d i = Some d1" "same_dict ty d d1" "rehashidx d1 = rehashidx d"
    using rehash_bucket_ok [OF assms(1) re assms(3)] by blast
  then have "dict_inv ty d1" "dictIsRehashing d1" using re by (simp_all add: same_dict_def dictIsRehashing_def)
  moreover have "d' = fst (dictCheckRehashingCompleted d1)"
    using False assms(2) d1(1) by (auto simp: dictBucketRehash_def split: prod.splits)
  ultimately show ?thesis using rehashing_tables(2) by blast
qed

lemma dictRehashStepIfNeeded_table:
  assumes "dict_inv ty d" "dictRehashStepIfNeeded cr ty d i = Some d'" "ht_table (ht0 d) \<noteq> []"
  shows "ht_table (ht0 d') \<noteq> []"
proof -
  consider "d' = d" | b where "dictBucketRehash cr ty d i = Some (d', b)" "i < length (ht_table (ht0 d))"
    | m where "dictRehash cr ty d 1 = Some (d', m)"
    using assms(2) by (auto simp: dictRehashStepIfNeeded_def bucket_at_def split: if_splits)
  then show ?thesis
  proof cases
    case 1
    then show ?thesis using assms(3) by simp
  next
    case 2
    then show ?thesis using dictBucketRehash_table [OF assms(1)] by blast
  next
    case 3
    then show ?thesis using dictRehash_table [OF assms(1)] assms(3) by blast
  qed
qed

lemma dictSize_table:
  assumes "dict_inv ty d" "dictSize d \<noteq> 0"
  shows "ht_table (ht0 d) \<noteq> []"
  using assms by (auto simp: dict_inv_def dictSize_def ht_ok_def split: if_splits)

lemma dictFindLinkInternal_ok:
  assumes inv: "dict_inv ty d" and tab: "ht_table (ht0 d) \<noteq> []"
  shows "\<exists>d' l b. dictFindLinkInternal cr ty d k w = Some (d', l, b) \<and> same_dict ty d d' \<and>
    (l = None \<longleftrightarrow> dict_map d k = None) \<and>
    (l = None \<and> w \<longrightarrow> b = Some (insert_table d', insert_idx ty d' k) \<and>
      insert_idx ty d' k < length (ht_table (ht_at d' (insert_table d')))) \<and>
    (\<forall>l'. l = Some l' \<longrightarrow> (\<exists>e. entry_at d' l' = Some e \<and> dictGetKey e = k))"
proof (cases "\<not> w \<and> dictSize d = 0")
  case True
  then have "ents d = {#}" using dictSize_ents [OF inv] by simp
  then have "dict_map d k = None" unfolding dict_map_keys keys_in_ents by simp
  then show ?thesis using True same_dict_refl [OF inv] by (simp add: dictFindLinkInternal_def)
next
  case False
  let ?h = "hashFunction ty k"
  let ?i = "dict_idx ?h (ht_size_exp (ht0 d))"
  obtain d1 where d1: "dictRehashStepIfNeeded cr ty d ?i = Some d1" "same_dict ty d d1" "idx_ok ty d1 ?i k"
    using step_idx_ok [OF inv] by blast
  have inv1: "dict_inv ty d1" using d1(2) by (simp add: same_dict_def)
  have tab1: "ht_table (ht0 d1) \<noteq> []" using dictRehashStepIfNeeded_table [OF inv d1(1) tab] .
  then have "ht_size_exp (ht0 d1) \<noteq> -1" using inv1 ht_exp_table by (auto simp: dict_inv_def)
  from find_tables_ok [OF inv1 this d1(3)] obtain l b where
    f: "find_tables d1 ?i ?h k = Some (l, b)" "l = None \<longleftrightarrow> dict_map d1 k = None"
    "l = None \<longrightarrow> b = (insert_table d1, insert_idx ty d1 k) \<and>
       insert_idx ty d1 k < length (ht_table (ht_at d1 (insert_table d1)))"
    "\<forall>l'. l = Some l' \<longrightarrow> (\<exists>e. entry_at d1 l' = Some e \<and> dictGetKey e = k)"
    by (elim exE conjE)
  have "dictFindLinkInternal cr ty d k w = Some (d1, l, if w then Some b else None)"
    using find_or_null_tables [OF inv1 tab1 f(1), of w]
    unfolding dictFindLinkInternal_def Let_def d1(1) bind.bind_lunit if_not_P [OF False] .
  then show ?thesis using d1(2) f(2-4) dict_map_cong [OF inv d1(2)]
    by (intro exI [of _ d1] exI [of _ l] exI [of _ "if w then Some b else None"]) simp
qed

lemma dict_map_empty:
  assumes "dict_inv ty d" "dictSize d = 0"
  shows "dict_map d = Map.empty"
proof
  fix k
  have "ents d = {#}" using dictSize_ents [OF assms(1)] assms(2) by simp
  then show "dict_map d k = None" unfolding dict_map_keys keys_in_ents by simp
qed

lemma entry_at_map:
  assumes "dict_inv ty d" "entry_at d l = Some e"
  shows "dict_map d (dictGetKey e) = Some (dictGetVal e)"
proof -
  have "ent e \<in># ents d" using entry_at_ents assms(2) by (metis prod_cases3)
  then show ?thesis using assms(1) by (simp add: dict_map_iff dict_inv_def ent_def)
qed

lemma dictFind_ok:
  assumes inv: "dict_inv ty d"
  shows "\<exists>d' he. dictFind cr ty d k = Some (d', he) \<and> same_dict ty d d' \<and>
    map_option ent he = map_option (Pair k) (dict_map d k)"
proof (cases "dictSize d = 0")
  case True
  then show ?thesis using dict_map_empty [OF inv True] same_dict_refl [OF inv]
    by (simp add: dictFind_def dictFindLink_def)
next
  case False
  obtain d' l b where d': "dictFindLinkInternal cr ty d k False = Some (d', l, b)" "same_dict ty d d'"
    "l = None \<longleftrightarrow> dict_map d k = None"
    "\<forall>l'. l = Some l' \<longrightarrow> (\<exists>e. entry_at d' l' = Some e \<and> dictGetKey e = k)"
    using dictFindLinkInternal_ok [OF inv dictSize_table [OF inv False], of cr k False] by (elim exE conjE)
  have inv': "dict_inv ty d'" using d'(2) by (simp add: same_dict_def)
  show ?thesis
  proof (cases l)
    case None
    then show ?thesis using False d' by (simp add: dictFind_def dictFindLink_def)
  next
    case (Some l')
    then obtain e where e: "entry_at d' l' = Some e" "dictGetKey e = k" using d'(4) by blast
    have "dict_map d k = Some (dictGetVal e)" using entry_at_map [OF inv' e(1)] e(2) dict_map_cong [OF inv d'(2)] by simp
    then show ?thesis using False d'(1,2) Some e by (simp add: dictFind_def dictFindLink_def ent_def)
  qed
qed

lemma dictFetchValue_ok:
  assumes inv: "dict_inv ty d" and nv: "\<not> no_value ty"
  shows "\<exists>d'. dictFetchValue cr ty d k = Some (d', Option.bind (dict_map d k) id) \<and> same_dict ty d d'"
proof -
  obtain d' he where d': "dictFind cr ty d k = Some (d', he)" "same_dict ty d d'"
    "map_option ent he = map_option (Pair k) (dict_map d k)"
    using dictFind_ok [OF inv] by blast
  have "v \<noteq> None" if "(k, v) \<in># ents d" for v
  proof -
    have "ht_ok ty (ht0 d)" "ht_ok ty (ht1 d)" using inv by (simp_all add: dict_inv_def)
    then have "dictGetVal e \<noteq> None" if "e \<in> set (concat (ht_table (ht0 d)) @ concat (ht_table (ht1 d)))" for e
      using that nv by (auto simp: ht_ok_def chain_ok_def entry_ok_def in_set_conv_nth [of _ "ht_table (ht0 d)"]
        in_set_conv_nth [of _ "ht_table (ht1 d)"])
    then show ?thesis using that by (auto simp: ents_def ht_ents_def ent_def)
  qed
  then have nn: "dict_map d k \<noteq> Some None" using dict_map_iff [of d k None] inv by (auto simp: dict_inv_def)
  show ?thesis
  proof (cases he)
    case None
    then show ?thesis using d' by (simp add: dictFetchValue_def)
  next
    case (Some e)
    then have "dict_map d k = Some (dictGetVal e)" using d'(3) by (cases "dict_map d k") (auto simp: ent_def)
    then show ?thesis using d'(1,2) Some nn by (cases "dictGetVal e") (simp_all add: dictFetchValue_def)
  qed
qed

section \<open>Deleting\<close>

lemma chain_unlink_ok:
  assumes "chain_ok nv c" "p < length c"
  shows "chain_unlink c p = Some (take p c @ drop (Suc p) c)" "chain_ok nv (take p c @ drop (Suc p) c)"
    "mset c = add_mset (c ! p) (mset (take p c @ drop (Suc p) c))"
proof -
  have c: "c = take p c @ c ! p # drop (Suc p) c" using assms(2) by (rule id_take_nth_drop)
  have b: "butlast c = take p c @ butlast (c ! p # drop (Suc p) c)" by (subst c) (simp add: butlast_append)
  have last: "drop (Suc p) c = []" if "entryIsKey (c ! p)"
    using that assms(1) b by (cases "drop (Suc p) c = []") (auto simp: chain_ok_def)
  have "c ! (p - 1) \<in> set (take p c)" if "0 < p" using that assms(2) by (auto simp: in_set_conv_nth intro: exI [of _ "p - 1"])
  then have "\<not> entryIsKey (c ! (p - 1))" if "0 < p" using that assms(1) b by (auto simp: chain_ok_def)
  then show "chain_unlink c p = Some (take p c @ drop (Suc p) c)" using last by (cases "p = 0") (simp_all add: chain_unlink_def Let_def)
  have "set (butlast (take p c @ drop (Suc p) c)) \<subseteq> set (butlast c)"
    unfolding b by (cases "drop (Suc p) c = []") (auto simp: butlast_append dest: in_set_butlastD)
  moreover have "set (take p c @ drop (Suc p) c) \<subseteq> set c" using set_take_subset set_drop_subset by fastforce
  ultimately show "chain_ok nv (take p c @ drop (Suc p) c)" using assms(1) by (auto simp: chain_ok_def)
  show "mset c = add_mset (c ! p) (mset (take p c @ drop (Suc p) c))" by (subst (1) c) simp
qed

lemma unlink_at_ok:
  assumes inv: "dict_inv ty d" and e: "entry_at d (t, i, p) = Some e"
  shows "\<exists>d'. unlink_at cr ty d (t, i, p) = Some d' \<and> good ty d d' \<and>
    dict_map d' = (dict_map d)(dictGetKey e := None)"
proof -
  note l = entry_atD [OF e] and tb = entry_at_table [OF inv e]
  let ?c = "ht_table (ht_at d t) ! i"
  let ?c' = "take p ?c @ drop (Suc p) ?c"
  let ?n = "ht_used (ht_at d t) - 1"
  let ?d = "upd_bucket d t i ?c' ?n"
  have "chain_ok (no_value ty) ?c" using tb(1) l(1) by (simp add: ht_ok_def)
  note c = chain_unlink_ok [OF this l(2)]
  have en: "ents d = add_mset (ent e) (ents ?d)"
    using upd_bucket_ents [OF l(1), of ?c' ?n] unfolding c(3) l(3) by simp
  then have dist: "distinct (dict_keys ?d)" by (intro distinct_sub [OF inv]) simp
  have "set ?c' \<subseteq> set ?c" using set_take_subset set_drop_subset by fastforce
  then have idx: "\<forall>e \<in> set ?c'. dict_idx (hashFunction ty (dictGetKey e)) (ht_size_exp (ht_at d t)) = i"
    using tb(1) l(1) by (auto simp: ht_ok_def)
  have "0 < ht_used (ht_at d t)"
  proof -
    have "e \<in> set (concat (ht_table (ht_at d t)))" using l nth_mem by fastforce
    then have "0 < length (concat (ht_table (ht_at d t)))" by (rule length_pos_if_in_set)
    then show ?thesis using tb(1) by (simp add: ht_ok_def)
  qed
  then have n: "?n + length ?c = ht_used (ht_at d t) + length ?c'" using l(2) by simp
  have inv': "dict_inv ty ?d"
    using dist l(2) by (intro upd_bucket_inv [OF inv l(1) c(2) idx n]) (auto simp: ht_at_def)
  obtain d' where d': "dictShrinkIfNeeded0 cr ty ?d = Some d'" "same_dict ty ?d d'"
    using dictShrinkIfNeeded0_ok [OF inv'] by blast
  have "unlink_at cr ty d (t, i, p) = Some d'"
    using l(1) c(1) d'(1) by (simp add: unlink_at_def bucket_at_def upd_bucket_def set_bucket_def)
  moreover have "good ty d d'" using d'(2) by (simp add: good_def same_dict_def)
  moreover have "dict_map d' = (dict_map d)(dictGetKey e := None)"
    using dict_map_del(1) [of d ?d "dictGetKey e" "dictGetVal e"] dict_map_cong [OF inv' d'(2)] inv dist en
    by (simp add: ent_def dict_inv_def)
  ultimately show ?thesis by blast
qed

text \<open>\<^verbatim>\<open>dictGenericDelete\<close> unlinks what the search finds.\<close>

lemma delete_in_table_find:
  assumes "find_in_table d t h k = Some (l, b)"
  shows "delete_in_table cr ty d t h k =
    (case l of None \<Rightarrow> Some (d, None)
     | Some l \<Rightarrow> do { he \<leftarrow> entry_at d l; d' \<leftarrow> unlink_at cr ty d l; Some (d', Some he) })"
proof -
  let ?i = "dict_idx h (ht_size_exp (ht_at d t))"
  obtain c where c: "bucket_at (ht_at d t) ?i = Some c" "l = map_option (\<lambda>p. (t, ?i, p)) (chain_find k c)"
    using assms by (auto simp: find_in_table_def Let_def split: bind_splits)
  show ?thesis
  proof (cases "chain_find k c")
    case None
    then show ?thesis using c by (simp add: delete_in_table_def Let_def)
  next
    case (Some p)
    then have "entry_at d (t, ?i, p) = Some (c ! p)" using c(1) chain_find_Some by (fastforce simp: entry_at_def)
    then show ?thesis using Some c by (simp add: delete_in_table_def Let_def)
  qed
qed

lemma delete_tables:
  assumes "find_tables d idx h k = Some (l, b)"
  shows "do {
      (d, he) \<leftarrow> (if int idx < rehashidx d then Some (d, None) else delete_in_table cr ty d 0 h k);
      if he = None \<and> dictIsRehashing d then delete_in_table cr ty d 1 h k else Some (d, he)
    } = (case l of None \<Rightarrow> Some (d, None)
         | Some l \<Rightarrow> do { he \<leftarrow> entry_at d l; d' \<leftarrow> unlink_at cr ty d l; Some (d', Some he) })"
proof (cases "int idx < rehashidx d")
  case True
  then have "dictIsRehashing d" by (auto simp: dictIsRehashing_def)
  then show ?thesis using assms True delete_in_table_find [of d 1 h k l b cr ty] by (simp add: find_tables_def)
next
  case False
  then obtain l0 b0 where f0: "find_in_table d 0 h k = Some (l0, b0)"
    "(if l0 = None \<and> dictIsRehashing d then find_in_table d 1 h k else Some (l0, b0)) = Some (l, b)"
    using assms by (auto simp: find_tables_def split: bind_splits)
  show ?thesis
  proof (cases l0)
    case None
    then show ?thesis using False f0 delete_in_table_find [OF f0(1), of cr ty] delete_in_table_find [of d 1 h k l b cr ty]
      by (cases "dictIsRehashing d") simp_all
  next
    case (Some l')
    then have l: "l = Some l'" using f0(2) by simp
    have "delete_in_table cr ty d 0 h k = do { he \<leftarrow> entry_at d l'; d' \<leftarrow> unlink_at cr ty d l'; Some (d', Some he) }"
      using delete_in_table_find [OF f0(1), of cr ty] Some by simp
    then show ?thesis using False l by (cases "entry_at d l'"; cases "unlink_at cr ty d l'") simp_all
  qed
qed

lemma dictGenericDelete_ok:
  assumes inv: "dict_inv ty d"
  shows "\<exists>d' he. dictGenericDelete cr ty d k = Some (d', he) \<and> good ty d d' \<and>
    map_option ent he = map_option (Pair k) (dict_map d k) \<and> dict_map d' = (dict_map d)(k := None)"
proof (cases "dictSize d = 0")
  case True
  then show ?thesis using dict_map_empty [OF inv True] good_same [OF same_dict_refl [OF inv]]
    by (simp add: dictGenericDelete_def)
next
  case False
  let ?h = "hashFunction ty k"
  let ?i = "dict_idx ?h (ht_size_exp (ht0 d))"
  obtain d1 where d1: "dictRehashStepIfNeeded cr ty d ?i = Some d1" "same_dict ty d d1" "idx_ok ty d1 ?i k"
    using step_idx_ok [OF inv] by blast
  have inv1: "dict_inv ty d1" using d1(2) by (simp add: same_dict_def)
  have m: "dict_map d1 = dict_map d" using dict_map_cong [OF inv d1(2)] .
  have "ht_table (ht0 d1) \<noteq> []" using dictRehashStepIfNeeded_table [OF inv d1(1) dictSize_table [OF inv False]] .
  then have "ht_size_exp (ht0 d1) \<noteq> -1" using inv1 ht_exp_table by (auto simp: dict_inv_def)
  from find_tables_ok [OF inv1 this d1(3)] obtain l b where
    f: "find_tables d1 ?i ?h k = Some (l, b)" "l = None \<longleftrightarrow> dict_map d1 k = None"
    "\<forall>l'. l = Some l' \<longrightarrow> (\<exists>e. entry_at d1 l' = Some e \<and> dictGetKey e = k)"
    by (elim exE conjE)
  have res: "dictGenericDelete cr ty d k =
      (case l of None \<Rightarrow> Some (d1, None)
       | Some l \<Rightarrow> do { he \<leftarrow> entry_at d1 l; d' \<leftarrow> unlink_at cr ty d1 l; Some (d', Some he) })"
    unfolding dictGenericDelete_def if_not_P [OF False] Let_def d1(1) bind.bind_lunit by (rule delete_tables [OF f(1)])
  show ?thesis
  proof (cases l)
    case None
    then show ?thesis using res f(2) m good_same [OF d1(2)] by (auto simp: fun_upd_idem)
  next
    case (Some l')
    then obtain e where e: "entry_at d1 l' = Some e" "dictGetKey e = k" using f(3) by blast
    obtain t i p where l': "l' = (t, i, p)" by (cases l')
    obtain d' where d': "unlink_at cr ty d1 l' = Some d'" "good ty d1 d'" "dict_map d' = (dict_map d1)(k := None)"
      using unlink_at_ok [OF inv1 e(1) [unfolded l'], of cr] e(2) l' by auto
    have "dict_map d k = Some (dictGetVal e)" using entry_at_map [OF inv1 e(1)] e(2) m by simp
    then show ?thesis using res Some e d' m good_trans [OF good_same [OF d1(2)] d'(2)] by (simp add: ent_def)
  qed
qed

lemma dictTwoPhaseUnlinkFind_ok:
  assumes inv: "dict_inv ty d"
  shows "\<exists>d' l. dictTwoPhaseUnlinkFind cr ty d k = Some (if l = None then d' else dictPauseRehashing d', l) \<and>
    same_dict ty d d' \<and> (l = None \<longleftrightarrow> dict_map d k = None) \<and>
    (\<forall>l'. l = Some l' \<longrightarrow> (\<exists>e. entry_at d' l' = Some e \<and> dictGetKey e = k))"
proof (cases "dictSize d = 0")
  case True
  then show ?thesis using dict_map_empty [OF inv True] same_dict_refl [OF inv]
    by (intro exI [of _ d] exI [of _ None]) (simp add: dictTwoPhaseUnlinkFind_def)
next
  case False
  let ?h = "hashFunction ty k"
  let ?step = "if dictIsRehashing d then dictRehashStep cr ty d else Some d"
  obtain d1 where d1: "?step = Some d1" "same_dict ty d d1"
    using dictRehashStep_ok [OF inv, of cr] same_dict_refl [OF inv] by (cases "dictIsRehashing d") auto
  have inv1: "dict_inv ty d1" using d1(2) by (simp add: same_dict_def)
  have "dictSize d1 \<noteq> 0" using False dictSize_ents [OF inv] dictSize_ents [OF inv1] d1(2) by (simp add: same_dict_def)
  then have "ht_size_exp (ht0 d1) \<noteq> -1" using dictSize_table [OF inv1] inv1 ht_exp_table by (auto simp: dict_inv_def)
  from find_tables_ok [OF inv1 this, of "dict_idx ?h (ht_size_exp (ht0 d1))" k] obtain l b where
    f: "find_tables d1 (dict_idx ?h (ht_size_exp (ht0 d1))) ?h k = Some (l, b)" "l = None \<longleftrightarrow> dict_map d1 k = None"
    "\<forall>l'. l = Some l' \<longrightarrow> (\<exists>e. entry_at d1 l' = Some e \<and> dictGetKey e = k)"
    by (auto simp: idx_ok_def)
  have "dictTwoPhaseUnlinkFind cr ty d k = Some (if l = None then d1 else dictPauseRehashing d1, l)"
    unfolding dictTwoPhaseUnlinkFind_def if_not_P [OF False] d1(1) bind.bind_lunit Let_def f(1) by simp
  then show ?thesis using d1(2) f(2,3) dict_map_cong [OF inv d1(2)]
    by (intro exI [of _ d1] exI [of _ l]) simp
qed

lemma pause_simps [simp]:
  "ht0 (dictPauseRehashing d) = ht0 d" "ht1 (dictPauseRehashing d) = ht1 d"
  "dict_map (dictPauseRehashing d) = dict_map d" "entry_at (dictPauseRehashing d) l = entry_at d l"
  "dict_inv ty (dictPauseRehashing d) = dict_inv ty d"
  "ht0 (dictResumeRehashing d) = ht0 d" "ht1 (dictResumeRehashing d) = ht1 d"
  "dict_map (dictResumeRehashing d) = dict_map d" "dict_inv ty (dictResumeRehashing d) = dict_inv ty d"
  "pauseAutoResize (dictPauseRehashing d) = pauseAutoResize d" "pauseAutoResize (dictResumeRehashing d) = pauseAutoResize d"
  "callbacks (dictPauseRehashing d) = callbacks d" "callbacks (dictResumeRehashing d) = callbacks d"
  by (simp_all add: dictPauseRehashing_def dictResumeRehashing_def dict_map_def entry_at_def ht_at_def dict_inv_def
    dict_keys_def dictBuckets_def split: prod.split)

lemma pause_resume:
  assumes "pauserehash d < 2 ^ 32" "pauserehash d' = pauserehash (dictPauseRehashing d)"
  shows "pauserehash (dictResumeRehashing d') = pauserehash d"
proof -
  have "((pauserehash d + 1) mod 2 ^ 32 + (2 ^ 32 - 1)) mod 2 ^ 32 = (pauserehash d + 1 + (2 ^ 32 - 1)) mod 2 ^ 32"
    by (rule mod_add_left_eq)
  also have "\<dots> = (pauserehash d + 2 ^ 32) mod 2 ^ 32" by simp
  also have "\<dots> = pauserehash d" using assms(1) by simp
  finally show ?thesis using assms(2) by (simp add: dictPauseRehashing_def dictResumeRehashing_def)
qed

text \<open>The two phases together are a deletion, and leave the counter of paused rehashing as it was.\<close>

lemma dictTwoPhaseUnlink_ok:
  assumes inv: "dict_inv ty d" and pr: "pauserehash d < 2 ^ 32"
  shows "\<exists>d1 l d2. dictTwoPhaseUnlinkFind cr ty d k = Some (d1, l) \<and> dictTwoPhaseUnlinkFree cr ty d1 l = Some d2 \<and>
    (l = None \<longleftrightarrow> dict_map d k = None) \<and> dict_map d1 = dict_map d \<and>
    good ty d d2 \<and> dict_map d2 = (dict_map d)(k := None) \<and>
    prefix (callbacks d) (callbacks d1) \<and> prefix (callbacks d1) (callbacks d2)"
proof -
  obtain d' l where f: "dictTwoPhaseUnlinkFind cr ty d k = Some (if l = None then d' else dictPauseRehashing d', l)"
    "same_dict ty d d'" "l = None \<longleftrightarrow> dict_map d k = None"
    "\<forall>l'. l = Some l' \<longrightarrow> (\<exists>e. entry_at d' l' = Some e \<and> dictGetKey e = k)"
    using dictTwoPhaseUnlinkFind_ok [OF inv, of cr k] by (elim exE conjE)
  have m: "dict_map d' = dict_map d" using dict_map_cong [OF inv f(2)] .
  have s: "dict_inv ty d'" "pauserehash d' = pauserehash d" "pauseAutoResize d' = pauseAutoResize d"
    using f(2) by (simp_all add: same_dict_def)
  show ?thesis
  proof (cases l)
    case None
    then show ?thesis using f(1,2,3) m good_same [OF f(2)]
      by (simp add: dictTwoPhaseUnlinkFree_def fun_upd_idem same_dict_def)
  next
    case (Some l')
    then obtain e where e: "entry_at d' l' = Some e" "dictGetKey e = k" using f(4) by blast
    obtain t i p where l': "l' = (t, i, p)" by (cases l')
    let ?d = "dictPauseRehashing d'"
    have at: "entry_at ?d (t, i, p) = Some e" using e(1) l' by simp
    obtain d2 where d2: "unlink_at cr ty ?d (t, i, p) = Some d2" "good ty ?d d2" "dict_map d2 = (dict_map ?d)(k := None)"
      using unlink_at_ok [OF _ at, of ty cr] s(1) e(2) by auto
    have "dictTwoPhaseUnlinkFree cr ty ?d l = Some (dictResumeRehashing d2)"
      using Some l' d2(1) entry_atD [OF at] by (simp add: dictTwoPhaseUnlinkFree_def bucket_at_def)
    moreover have "good ty d (dictResumeRehashing d2)"
      using d2(2) s pause_resume [of d' d2] pr f(2) prefix_order.trans by (fastforce simp: good_def same_dict_def)
    moreover have "prefix (callbacks d) (callbacks ?d)" "prefix (callbacks ?d) (callbacks (dictResumeRehashing d2))"
      using f(2) d2(2) by (simp_all add: same_dict_def good_def dictPauseRehashing_def dictResumeRehashing_def)
    ultimately show ?thesis using f(1,3) Some d2(3) m by simp
  qed
qed

section \<open>Clearing\<close>

lemma clear_loop_all: "clear_loop cs (length (concat cs)) = concat cs"
  by (induction cs) auto

lemma dictClear_freed: "ht_ok ty (ht_at d t) \<Longrightarrow> snd (dictClear d t) = concat (ht_table (ht_at d t))"
  by (simp add: dictClear_def ht_ok_def clear_loop_all)

lemma release_events_simps [simp]:
  "ht0 (release_events d) = ht0 d" "ht1 (release_events d) = ht1 d"
  "bucket_count (callbacks (release_events d)) = bucket_count (callbacks d) - int (dictBuckets d)"
  "prefix (callbacks d) (callbacks (release_events d))"
  by (simp_all add: release_events_def log_event_def Let_def dictBuckets_def)

lemma release_events_track: "dict_inv ty d \<Longrightarrow> track None (callbacks (release_events d)) = Some None"
  by (simp add: release_events_def log_event_def Let_def dict_inv_def dictIsRehashing_def)

lemma clear_both:
  assumes "dict_inv ty d"
  shows "dictClear (release_events d) 0 = ((release_events d)\<lparr>ht0 := dictReset\<rparr>, concat (ht_table (ht0 d)))"
    "dictClear ((release_events d)\<lparr>ht0 := dictReset\<rparr>) 1 =
      ((release_events d)\<lparr>ht0 := dictReset, ht1 := dictReset\<rparr>, concat (ht_table (ht1 d)))"
  using assms by (simp_all add: dictClear_def set_ht_def ht_at_def dict_inv_def ht_ok_def clear_loop_all)

lemma dictEmpty_ok:
  assumes "dict_inv ty d"
  shows "dict_inv ty (fst (dictEmpty d))" "dict_map (fst (dictEmpty d)) = Map.empty"
    "mset (map ent (snd (dictEmpty d))) = ents d" "pauseAutoResize (fst (dictEmpty d)) = 0"
    "pauserehash (fst (dictEmpty d)) = 0" "callbacks (fst (dictEmpty d)) = callbacks (release_events d)"
  using assms clear_both [OF assms] release_events_track [OF assms]
  by (simp_all add: dictEmpty_def Let_def dict_inv_def dict_keys_def dictBuckets_def dict_map_def ents_def ht_ents_def)

lemma dictRelease_ok:
  assumes "dict_inv ty d"
  shows "mset (map ent (snd (dictRelease d))) = ents d" "bucket_count (fst (dictRelease d)) = 0"
    "fst (dictRelease d) = callbacks (release_events d)"
  using assms clear_both [OF assms]
  by (simp_all add: dictRelease_def Let_def dict_inv_def ents_def ht_ents_def)

end
