(* ===== verification/Op_Machine.thy ===== *)
theory Op_Machine
  imports Redis_Base
begin

text \<open>
  The contract of a data structure that is driven by a sequence of calls: each call succeeds on a
  well-formed state, keeps it well-formed, and has the effect and the result of the abstract call.
  Sequences of calls then do too. The invariant is indexed by the number of calls, for structures with
  counters of limited size; \<open>fits\<close> says that one more call is possible.
\<close>

fun run_ops :: "('op \<Rightarrow> 's \<Rightarrow> ('s \<times> 'out) option) \<Rightarrow> 'op list \<Rightarrow> 's \<Rightarrow> ('s \<times> 'out list) option" where
  "run_ops step [] s = Some (s, [])"
| "run_ops step (op # ops) s = do {
     (s, out) \<leftarrow> step op s;
     (s, outs) \<leftarrow> run_ops step ops s;
     Some (s, out # outs)
   }"

fun run_spec :: "('op \<Rightarrow> 'a \<Rightarrow> 'a \<times> 'out) \<Rightarrow> 'op list \<Rightarrow> 'a \<Rightarrow> 'a \<times> 'out list" where
  "run_spec spec [] a = (a, [])"
| "run_spec spec (op # ops) a =
     (let (a, out) = spec op a; (a, outs) = run_spec spec ops a in (a, out # outs))"

locale op_machine =
  fixes inv :: "nat \<Rightarrow> 's \<Rightarrow> bool"
    and abs :: "'s \<Rightarrow> 'a"
    and step :: "'op \<Rightarrow> 's \<Rightarrow> ('s \<times> 'out) option"
    and spec :: "'op \<Rightarrow> 'a \<Rightarrow> 'a \<times> 'out"
    and allowed :: "'op \<Rightarrow> bool"
    and fits :: "nat \<Rightarrow> bool"
  assumes step_refines: "inv n s \<Longrightarrow> allowed op \<Longrightarrow> fits n \<Longrightarrow>
    \<exists>s'. step op s = Some (s', snd (spec op (abs s))) \<and> inv (Suc n) s' \<and> abs s' = fst (spec op (abs s))"
begin

lemma run_refines:
  assumes "inv n s" "\<forall>op \<in> set ops. allowed op" "\<forall>i < length ops. fits (n + i)"
  shows "\<exists>s'. run_ops step ops s = Some (s', snd (run_spec spec ops (abs s))) \<and> inv (n + length ops) s' \<and>
    abs s' = fst (run_spec spec ops (abs s))"
  using assms
proof (induction ops arbitrary: n s)
  case (Cons op ops)
  have "allowed op" "fits n" using Cons.prems(2,3) by auto
  then obtain s1 where s1: "step op s = Some (s1, snd (spec op (abs s)))" "inv (Suc n) s1" "abs s1 = fst (spec op (abs s))"
    using step_refines [OF Cons.prems(1), of op] by blast
  have "fits (Suc n + i)" if "i < length ops" for i using Cons.prems(3) [rule_format, of "Suc i"] that by simp
  then obtain s' where "run_ops step ops s1 = Some (s', snd (run_spec spec ops (abs s1)))" "inv (n + length (op # ops)) s'"
    "abs s' = fst (run_spec spec ops (abs s1))"
    using Cons.IH [OF s1(2)] Cons.prems(2) by fastforce
  then show ?case using s1 by (simp add: Let_def case_prod_beta)
qed simp

end

end
