(* ===== verification/Dict_Run.thy ===== *)
theory Dict_Run
  imports Dict_Spec Op_Machine
begin

text \<open>
  The hash table of \<^verbatim>\<open>dict.c\<close> as an implementation of a finite map under every sequence of calls, with the
  properties of the single calls.
\<close>

section \<open>Calls\<close>

datatype ('k, 'v) dict_call =
    CallAdd 'k 'v | CallReplace 'k 'v | CallAddOrFind 'k | CallFind 'k | CallDelete 'k | CallTwoPhaseUnlink 'k
  | CallExpand nat | CallTryExpand bool nat | CallShrink nat | CallRehash nat | CallRehashMicroseconds "nat \<Rightarrow> bool"
  | CallEmpty

datatype ('k, 'v) dict_reply = ReplyBool bool | ReplyEntry "('k \<times> 'v option) option" | ReplyNone

text \<open>A call comes with the value of \<^verbatim>\<open>dict_can_resize\<close> at that moment.\<close>

fun dict_do :: "('k, 'v) dictType \<Rightarrow> dictResizeEnable \<times> ('k, 'v) dict_call \<Rightarrow> ('k, 'v) dict \<Rightarrow>
    (('k, 'v) dict \<times> ('k, 'v) dict_reply) option" where
  "dict_do ty (cr, CallAdd k v) d = map_option (\<lambda>(d, b). (d, ReplyBool b)) (dictAdd cr ty d k v)"
| "dict_do ty (cr, CallReplace k v) d = map_option (\<lambda>(d, b). (d, ReplyBool b)) (dictReplace cr ty d k v)"
| "dict_do ty (cr, CallAddOrFind k) d = do {
     (d, l) \<leftarrow> dictAddOrFind cr ty d k;
     e \<leftarrow> entry_at d l;
     Some (d, ReplyEntry (Some (ent e)))
   }"
| "dict_do ty (cr, CallFind k) d = map_option (\<lambda>(d, he). (d, ReplyEntry (map_option ent he))) (dictFind cr ty d k)"
| "dict_do ty (cr, CallDelete k) d =
     map_option (\<lambda>(d, he). (d, ReplyEntry (map_option ent he))) (dictGenericDelete cr ty d k)"
| "dict_do ty (cr, CallTwoPhaseUnlink k) d = do {
     (d, l) \<leftarrow> dictTwoPhaseUnlinkFind cr ty d k;
     d \<leftarrow> dictTwoPhaseUnlinkFree cr ty d l;
     Some (d, ReplyBool (l \<noteq> None))
   }"
| "dict_do ty (cr, CallExpand n) d = map_option (\<lambda>(d, _). (d, ReplyNone)) (dictExpand cr ty d n)"
| "dict_do ty (cr, CallTryExpand a n) d = map_option (\<lambda>(d, _). (d, ReplyNone)) (dictTryExpand cr ty a d n)"
| "dict_do ty (cr, CallShrink n) d = map_option (\<lambda>(d, _). (d, ReplyNone)) (dictShrink cr ty d n)"
| "dict_do ty (cr, CallRehash n) d = map_option (\<lambda>(d, _). (d, ReplyNone)) (dictRehash cr ty d n)"
| "dict_do ty (cr, CallRehashMicroseconds t) d =
     map_option (\<lambda>(d, _). (d, ReplyNone)) (dictRehashMicroseconds cr ty t d)"
| "dict_do ty (cr, CallEmpty) d = Some (fst (dictEmpty d), ReplyNone)"

fun map_call :: "('k, 'v) dictType \<Rightarrow> dictResizeEnable \<times> ('k, 'v) dict_call \<Rightarrow> ('k \<Rightarrow> 'v option option) \<Rightarrow>
    ('k \<Rightarrow> 'v option option) \<times> ('k, 'v) dict_reply" where
  "map_call ty (cr, CallAdd k v) m = (if m k = None then m(k \<mapsto> new_val ty v) else m, ReplyBool (m k = None))"
| "map_call ty (cr, CallReplace k v) m = (m(k \<mapsto> Some v), ReplyBool (m k = None))"
| "map_call ty (cr, CallAddOrFind k) m =
     (let m' = (if m k = None then m(k \<mapsto> new_val ty (uninit ty)) else m)
      in (m', ReplyEntry (map_option (Pair k) (m' k))))"
| "map_call ty (cr, CallFind k) m = (m, ReplyEntry (map_option (Pair k) (m k)))"
| "map_call ty (cr, CallDelete k) m = (m(k := None), ReplyEntry (map_option (Pair k) (m k)))"
| "map_call ty (cr, CallTwoPhaseUnlink k) m = (m(k := None), ReplyBool (m k \<noteq> None))"
| "map_call ty (cr, CallEmpty) m = (Map.empty, ReplyNone)"
| "map_call ty (cr, _) m = (m, ReplyNone)"

fun call_allowed :: "('k, 'v) dictType \<Rightarrow> dictResizeEnable \<times> ('k, 'v) dict_call \<Rightarrow> bool" where
  "call_allowed ty (cr, CallReplace k v) = (\<not> no_value ty)"
| "call_allowed ty (cr, _) = True"

text \<open>The state between calls: the invariant, and nothing is paused.\<close>

definition dict_ready :: "('k, 'v) dictType \<Rightarrow> ('k, 'v) dict \<Rightarrow> bool" where
  "dict_ready ty d \<longleftrightarrow> dict_inv ty d \<and> pauserehash d = 0 \<and> pauseAutoResize d = 0"

lemma ready_good: "dict_ready ty d \<Longrightarrow> good ty d d' \<Longrightarrow> dict_ready ty d'"
  by (simp add: dict_ready_def good_def)

lemma ready_same:
  "dict_ready ty d \<Longrightarrow> same_dict ty d d' \<Longrightarrow> dict_ready ty d' \<and> dict_map d' = dict_map d"
  using ready_good good_same dict_map_cong by (metis dict_ready_def)

lemma readyD: "dict_ready ty d \<Longrightarrow> dict_inv ty d" "dict_ready ty d \<Longrightarrow> pauseAutoResize d \<le> 0"
  "dict_ready ty d \<Longrightarrow> pauserehash d < 2 ^ 32"
  by (simp_all add: dict_ready_def)

lemma dictCreate_ready: "dict_ready ty dictCreate" "dict_map dictCreate = Map.empty"
  by (simp_all add: dict_ready_def dictCreate_def dictInit_def dict_inv_def dict_keys_def dictBuckets_def dict_map_def)

lemma dictAddOrFind_ok:
  assumes "dict_inv ty d" "pauseAutoResize d \<le> 0"
  shows "\<exists>d' l e. dictAddOrFind cr ty d k = Some (d', l) \<and> entry_at d' l = Some e \<and> good ty d d' \<and>
    dict_map d' = (if dict_map d k = None then (dict_map d)(k \<mapsto> new_val ty (uninit ty)) else dict_map d) \<and>
    Some (ent e) = map_option (Pair k) (dict_map d' k)"
proof -
  obtain d1 l e where a: "dictAddRaw cr ty d k = Some (d1, if dict_map d k = None then Inr l else Inl l)" "good ty d d1"
    "entry_at d1 l = Some e" "dictGetKey e = k"
    "dict_map d1 = (if dict_map d k = None then (dict_map d)(k \<mapsto> new_val ty (uninit ty)) else dict_map d)"
    using dictAddRaw_ok [OF assms, of cr k] by (elim exE conjE)
  have "Some (ent e) = map_option (Pair k) (dict_map d1 k)"
    using entry_at_map [OF _ a(3), of ty] a(2,4) by (simp add: good_def ent_def)
  moreover have "dictAddOrFind cr ty d k = Some (d1, l)" using a(1) by (simp add: dictAddOrFind_def)
  ultimately show ?thesis using a(2,3,5) by blast
qed

lemma dictRehashMicroseconds_ok:
  "dict_inv ty d \<Longrightarrow> \<exists>d' n. dictRehashMicroseconds cr ty t d = Some (d', n) \<and> same_dict ty d d'"
  using rehash_while_ok [of ty d 100 cr t 0] same_dict_refl by (auto simp: dictRehashMicroseconds_def)

lemma dict_do_ok:
  assumes r: "dict_ready ty d" and ok: "call_allowed ty (cr, c)"
  shows "\<exists>d'. dict_do ty (cr, c) d = Some (d', snd (map_call ty (cr, c) (dict_map d))) \<and> dict_ready ty d' \<and>
    dict_map d' = fst (map_call ty (cr, c) (dict_map d))"
proof (cases c)
  case (CallAdd k v)
  then show ?thesis using dictAdd_ok [OF readyD(1,2) [OF r], of cr k v] ready_good [OF r] by auto
next
  case (CallReplace k v)
  then show ?thesis using dictReplace_ok [OF readyD(1,2) [OF r], of cr k v] ready_good [OF r] ok by auto
next
  case (CallAddOrFind k)
  obtain d' l e where "dictAddOrFind cr ty d k = Some (d', l)" "entry_at d' l = Some e" "good ty d d'"
    "dict_map d' = (if dict_map d k = None then (dict_map d)(k \<mapsto> new_val ty (uninit ty)) else dict_map d)"
    "Some (ent e) = map_option (Pair k) (dict_map d' k)"
    using dictAddOrFind_ok [OF readyD(1,2) [OF r], of cr k] by (elim exE conjE)
  then show ?thesis using CallAddOrFind ready_good [OF r] by (simp add: Let_def)
next
  case (CallFind k)
  then show ?thesis using dictFind_ok [OF readyD(1) [OF r], of cr k] ready_same [OF r] by auto
next
  case (CallDelete k)
  then show ?thesis using dictGenericDelete_ok [OF readyD(1) [OF r], of cr k] ready_good [OF r] by auto
next
  case (CallTwoPhaseUnlink k)
  then show ?thesis using dictTwoPhaseUnlink_ok [OF readyD(1,3) [OF r], of cr k] ready_good [OF r] by auto
next
  case (CallExpand n)
  then show ?thesis using dictExpand_ok [OF readyD(1) [OF r], of cr None n] ready_same [OF r] by (auto simp: dictExpand_def)
next
  case (CallTryExpand a n)
  then show ?thesis using dictExpand_ok [OF readyD(1) [OF r], of cr "Some a" n] ready_same [OF r]
    by (auto simp: dictTryExpand_def)
next
  case (CallShrink n)
  then show ?thesis using dictShrink_ok [OF readyD(1) [OF r], of cr n] ready_same [OF r] by auto
next
  case (CallRehash n)
  then show ?thesis using dictRehash_fst_ok [OF readyD(1) [OF r], of cr n] ready_same [OF r] by auto
next
  case (CallRehashMicroseconds t)
  then show ?thesis using dictRehashMicroseconds_ok [OF readyD(1) [OF r], of cr t] ready_same [OF r] by auto
next
  case CallEmpty
  then show ?thesis using dictEmpty_ok [OF readyD(1) [OF r]] by (simp add: dict_ready_def)
qed

interpretation dict_machine: op_machine "\<lambda>_. dict_ready ty" dict_map "dict_do ty" "map_call ty" "call_allowed ty" "\<lambda>_. True" for ty
proof unfold_locales
  fix d op
  assume "dict_ready ty d" "call_allowed ty op"
  then show "\<exists>d'. dict_do ty op d = Some (d', snd (map_call ty op (dict_map d))) \<and> dict_ready ty d' \<and>
      dict_map d' = fst (map_call ty op (dict_map d))"
    using dict_do_ok by (cases op) blast
qed

text \<open>
  The exception is a dict that has never held a key while its automatic resizing is paused:
  \<^verbatim>\<open>dictFindLinkForInsert\<close> reads the table, which is NULL.
\<close>

lemma dictAdd_paused_empty: "dictAdd cr ty (dictCreate\<lparr>pauseAutoResize := 1\<rparr>) k v = None"
  by (simp add: dictAdd_def dictAddRaw_def dictFindLinkForInsert_def dictCreate_def dictInit_def find_tables_def
    dictRehashStepIfNeeded_def dictIsRehashing_def dictExpandIfNeeded0_def find_in_table_def bucket_at_def ht_at_def Let_def)

section \<open>Properties\<close>

text \<open>
  C27: From an empty dict, every sequence of additions, replacements, lookups, deletions, two-phase
  unlinks, resizes, rehashing steps and clearings runs without a failing assertion or an access outside
  a table, and answers every call as a finite map does, for every hash function, every resize callback
  and every setting of \<^verbatim>\<open>dict_can_resize\<close> during the calls. Only \<^verbatim>\<open>dictReplace\<close> needs a dict with values.
\<close>

theorem dict_run_correct:
  assumes "\<forall>op \<in> set ops. call_allowed ty op"
  shows "\<exists>d. run_ops (dict_do ty) ops dictCreate = Some (d, snd (run_spec (map_call ty) ops Map.empty)) \<and>
    dict_map d = fst (run_spec (map_call ty) ops Map.empty)"
  using dict_machine.run_refines [OF dictCreate_ready(1) assms] by (auto simp: dictCreate_ready(2))

definition dict_sample_type :: "(nat, nat) dictType" where
  "dict_sample_type = \<lparr>hashFunction = of_nat, resizeAllowed = None, no_value = False, force_full_rehash = False, uninit = 0\<rparr>"

theorem dict_run_correct_witness:
  "\<exists>d. run_ops (dict_do dict_sample_type)
      [(DICT_RESIZE_ENABLE, CallAdd 1 10), (DICT_RESIZE_FORBID, CallReplace 1 11), (DICT_RESIZE_AVOID, CallAdd 5 20),
       (DICT_RESIZE_ENABLE, CallDelete 5), (DICT_RESIZE_ENABLE, CallFind 1)] dictCreate =
      Some (d, [ReplyBool True, ReplyBool False, ReplyBool True, ReplyEntry (Some (5, Some 20)), ReplyEntry (Some (1, Some 11))]) \<and>
    dict_map d = [1 \<mapsto> Some 11]"
  using dict_run_correct [of "[(DICT_RESIZE_ENABLE, CallAdd 1 10), (DICT_RESIZE_FORBID, CallReplace 1 11),
      (DICT_RESIZE_AVOID, CallAdd 5 20), (DICT_RESIZE_ENABLE, CallDelete 5), (DICT_RESIZE_ENABLE, CallFind 1)]" dict_sample_type]
  by (simp add: dict_sample_type_def new_val_def fun_upd_twist)

lemma dictSize_card:
  assumes "dict_inv ty d"
  shows "dictSize d = card (dom (dict_map d))"
proof -
  have "dom (dict_map d) = set (dict_keys d)" by (auto simp: dom_def dict_map_keys)
  moreover have "distinct (dict_keys d)" using assms by (simp add: dict_inv_def)
  moreover have "length (dict_keys d) = dictSize d"
    using assms by (simp add: dict_inv_def dict_keys_def dictSize_def ht_ok_def)
  ultimately show ?thesis by (metis distinct_card)
qed

text \<open>
  C28: The invariant of the hash table holds after every sequence of calls: each entry is in the bucket of
  its hash, the keys of the two tables are distinct, the buckets below \<^verbatim>\<open>rehashidx\<close> are empty, a key
  without an entry is the last of its chain. So the size is the number of keys, and the sum of the
  \<^verbatim>\<open>bucketChanged\<close> callbacks is the number of buckets.
\<close>

theorem dict_invariant:
  assumes "\<forall>op \<in> set ops. call_allowed ty op"
  shows "\<exists>d outs. run_ops (dict_do ty) ops dictCreate = Some (d, outs) \<and> dict_inv ty d \<and>
    dictSize d = card (dom (dict_map d)) \<and> bucket_count (callbacks d) = int (dictBuckets d)"
proof -
  obtain d outs where d: "run_ops (dict_do ty) ops dictCreate = Some (d, outs)" "dict_inv ty d"
    using dict_machine.run_refines [OF dictCreate_ready(1) assms] readyD(1) by blast
  then have "bucket_count (callbacks d) = int (dictBuckets d)" by (simp add: dict_inv_def)
  then show ?thesis using d dictSize_card [OF d(2)] by blast
qed

theorem dict_invariant_witness:
  "\<exists>d outs. run_ops (dict_do dict_sample_type) [(DICT_RESIZE_ENABLE, CallAdd 3 1), (DICT_RESIZE_ENABLE, CallExpand 100)] dictCreate =
      Some (d, outs) \<and> dict_inv dict_sample_type d \<and>
    dictSize d = card (dom (dict_map d)) \<and> bucket_count (callbacks d) = int (dictBuckets d)"
  by (rule dict_invariant) simp

text \<open>
  C29: A rehash that is in progress completes: with resizing enabled, repeating \<^verbatim>\<open>dictRehash\<close> with a
  positive number of steps ends, after which the dict is not rehashing and holds the same contents.
\<close>

theorem rehash_completes:
  assumes "dict_inv ty d" "dictIsRehashing d" "0 < n"
  shows "\<exists>d' k. rehash_while DICT_RESIZE_ENABLE ty n (\<lambda>_. False) 0 d = Some (d', k) \<and> \<not> dictIsRehashing d' \<and>
    dict_inv ty d' \<and> dict_map d' = dict_map d"
proof -
  have "\<not> rehash_refused DICT_RESIZE_ENABLE d" using assms(2) by (simp add: rehash_refused_def)
  then show ?thesis
    using rehash_while_ok [OF assms(1,3), of DICT_RESIZE_ENABLE "\<lambda>_. False" 0] dict_map_cong [OF assms(1)]
    by (auto simp: dictIsRehashing_def same_dict_def)
qed

definition dict_sample :: "(nat, nat) dict" where
  "dict_sample = \<lparr>ht0 = \<lparr>ht_table = [[EntryVal 7 1]], ht_used = 1, ht_size_exp = 0\<rparr>,
     ht1 = \<lparr>ht_table = [[], []], ht_used = 0, ht_size_exp = 1\<rparr>, rehashidx = 0, pauserehash = 0, pauseAutoResize = 0,
     callbacks = [RehashingStarted 1, BucketChanged 3]\<rparr>"

lemma dict_sample_inv: "dict_inv dict_sample_type dict_sample"
  by (auto simp: dict_inv_def ht_ok_def dict_sample_def dict_sample_type_def dict_keys_def chain_ok_def entry_ok_def
    dictBuckets_def dict_idx_mod less_Suc_eq numeral_2_eq_2)

theorem rehash_completes_witness:
  "\<exists>d' k. rehash_while DICT_RESIZE_ENABLE dict_sample_type 1 (\<lambda>_. False) 0 dict_sample = Some (d', k) \<and>
    \<not> dictIsRehashing d' \<and> dict_inv dict_sample_type d' \<and> dict_map d' = dict_map dict_sample"
  by (rule rehash_completes [OF dict_sample_inv]) (simp_all add: dictIsRehashing_def dict_sample_def)

text \<open>
  C30: \<^verbatim>\<open>dictTwoPhaseUnlinkFind\<close> followed by \<^verbatim>\<open>dictTwoPhaseUnlinkFree\<close> deletes the key as \<^verbatim>\<open>dictDelete\<close> does
  and leaves the counter of paused rehashing at its value; in between the contents are unchanged.
\<close>

theorem two_phase_unlink_correct:
  assumes "dict_inv ty d" "pauserehash d < 2 ^ 32"
  shows "\<exists>d1 l d2 d3. dictTwoPhaseUnlinkFind cr ty d k = Some (d1, l) \<and> dict_map d1 = dict_map d \<and>
    dictTwoPhaseUnlinkFree cr ty d1 l = Some d2 \<and> pauserehash d2 = pauserehash d \<and>
    dictDelete cr ty d k = Some (d3, l \<noteq> None) \<and> dict_map d2 = dict_map d3 \<and> dict_map d3 = (dict_map d)(k := None)"
proof -
  obtain d1 l d2 where t: "dictTwoPhaseUnlinkFind cr ty d k = Some (d1, l)" "dictTwoPhaseUnlinkFree cr ty d1 l = Some d2"
    "l = None \<longleftrightarrow> dict_map d k = None" "dict_map d1 = dict_map d" "good ty d d2" "dict_map d2 = (dict_map d)(k := None)"
    "prefix (callbacks d) (callbacks d1)" "prefix (callbacks d1) (callbacks d2)"
    using dictTwoPhaseUnlink_ok [OF assms, of cr k] by (elim exE conjE)
  obtain d3 he where "dictGenericDelete cr ty d k = Some (d3, he)"
    "map_option ent he = map_option (Pair k) (dict_map d k)" "dict_map d3 = (dict_map d)(k := None)"
    using dictGenericDelete_ok [OF assms(1), of cr k] by (elim exE conjE)
  then have "dictDelete cr ty d k = Some (d3, dict_map d k \<noteq> None)" "dict_map d3 = (dict_map d)(k := None)"
    by (cases he; cases "dict_map d k"; simp add: dictDelete_def)+
  then show ?thesis using t by (auto simp: good_def)
qed

theorem two_phase_unlink_correct_witness:
  "\<exists>d1 l d2 d3. dictTwoPhaseUnlinkFind DICT_RESIZE_ENABLE dict_sample_type dict_sample 7 = Some (d1, l) \<and>
    dict_map d1 = dict_map dict_sample \<and>
    dictTwoPhaseUnlinkFree DICT_RESIZE_ENABLE dict_sample_type d1 l = Some d2 \<and> pauserehash d2 = pauserehash dict_sample \<and>
    dictDelete DICT_RESIZE_ENABLE dict_sample_type dict_sample 7 = Some (d3, l \<noteq> None) \<and> dict_map d2 = dict_map d3 \<and>
    dict_map d3 = (dict_map dict_sample)(7 := None)"
  by (rule two_phase_unlink_correct [OF dict_sample_inv]) (simp add: dict_sample_def)

text \<open>
  C31: \<^verbatim>\<open>dictEmpty\<close> and \<^verbatim>\<open>dictRelease\<close> free every entry exactly once, although the walk over the buckets ends
  when the count reaches zero; the emptied dict is well-formed and empty, and a released dict has
  returned all its buckets to \<^verbatim>\<open>bucketChanged\<close>.
\<close>

theorem dict_clear_frees_all:
  assumes "dict_inv ty d"
  shows "mset (map ent (snd (dictEmpty d))) = ents d \<and> mset (map ent (snd (dictRelease d))) = ents d \<and>
    dict_inv ty (fst (dictEmpty d)) \<and> dict_map (fst (dictEmpty d)) = Map.empty \<and>
    bucket_count (fst (dictRelease d)) = 0"
  using dictEmpty_ok [OF assms] dictRelease_ok [OF assms] by blast

theorem dict_clear_frees_all_witness:
  "mset (map ent (snd (dictEmpty dict_sample))) = ents dict_sample \<and> bucket_count (fst (dictRelease dict_sample)) = 0"
  using dict_clear_frees_all [OF dict_sample_inv] by blast

end
