(* ===== verification/Dict_Scan.thy ===== *)
theory Dict_Scan
  imports Dict_Run
begin

text \<open>
  \<^verbatim>\<open>dictScan\<close> of \<^verbatim>\<open>dict.c\<close>: the stateless iteration with a cursor whose bits are incremented in reverse
  order. The order of the buckets under the reversed cursor is the order of the hash values read from
  the other end, for tables of all sizes, so a key that stays in the dict is visited whatever the table
  does in between.
\<close>

section \<open>Definitions\<close>

function rev_loop :: "nat \<Rightarrow> u64 \<Rightarrow> u64 \<Rightarrow> u64" where
  "rev_loop s msk v =
     (let s = s div 2
      in if s > 0 then
           let msk = msk XOR push_bit s msk;
               v = (drop_bit s v AND msk) OR (push_bit s v AND NOT msk)
           in rev_loop s msk v
         else v)"
  by pat_completeness auto
termination by (relation "measure (\<lambda>(s, msk, v). s)") auto

declare rev_loop.simps [simp del]

definition rev_bits :: "u64 \<Rightarrow> u64" where
  "rev_bits v = rev_loop 64 (-1) v"

text \<open>\<^verbatim>\<open>dictScanDefragBucket\<close> without defragmentation, for a callback that does not change the dict.\<close>

fun emit_chain :: "('k, 'v) dictEntry list \<Rightarrow> ('k, 'v) dictEntry list" where
  "emit_chain [] = []"
| "emit_chain (de # c) = de # (if entryIsKey de then [] else emit_chain c)"

definition scan_bucket :: "('k, 'v) dictht \<Rightarrow> nat \<Rightarrow> ('k, 'v) dictEntry list option" where
  "scan_bucket h i = map_option emit_chain (bucket_at h i)"

text \<open>The increment of the reversed cursor.\<close>

definition next_cursor :: "u64 \<Rightarrow> u64 \<Rightarrow> u64" where
  "next_cursor m v = rev_bits (rev_bits (v OR NOT m) + 1)"

partial_function (option) scan_loop ::
    "('k, 'v) dictht \<Rightarrow> u64 \<Rightarrow> u64 \<Rightarrow> u64 \<Rightarrow> (('k, 'v) dictEntry list \<times> u64) option" where
  "scan_loop h1 m0 m1 v =
     do {
       out \<leftarrow> scan_bucket h1 (unat (v AND m1));
       let v = next_cursor m1 v;
       if v AND (m0 XOR m1) \<noteq> 0 then do {
         (out', v) \<leftarrow> scan_loop h1 m0 m1 v;
         Some (out @ out', v)
       }
       else Some (out, v)
     }"

text \<open>
  The results are the entries passed to the callback and the new cursor. The pause and the resumption of
  rehashing around the calls of the callback cancel out.
\<close>

definition dictScan :: "('k, 'v) dict \<Rightarrow> u64 \<Rightarrow> (('k, 'v) dictEntry list \<times> u64) option" where
  "dictScan d v =
     (if dictSize d = 0 then Some ([], 0)
      else if \<not> dictIsRehashing d then do {
        let m0 = DICTHT_SIZE_MASK (ht_size_exp (ht0 d));
        out \<leftarrow> scan_bucket (ht0 d) (unat (v AND m0));
        Some (out, next_cursor m0 v)
      }
      else do {
        let (h0, h1) = (if DICTHT_SIZE (ht_size_exp (ht0 d)) > DICTHT_SIZE (ht_size_exp (ht1 d))
                        then (ht1 d, ht0 d) else (ht0 d, ht1 d));
        let m0 = DICTHT_SIZE_MASK (ht_size_exp h0);
        let m1 = DICTHT_SIZE_MASK (ht_size_exp h1);
        out \<leftarrow> scan_bucket h0 (unat (v AND m0));
        (out', v) \<leftarrow> scan_loop h1 m0 m1 v;
        Some (out @ out', v)
      })"

section \<open>Reversing the bits\<close>

lemma block_div: "s < h \<Longrightarrow> (a * h + s) div h = (a :: nat)"
  by simp

lemma rev_mask_step:
  fixes m :: u64
  assumes h: "0 < h" and m: "\<And>n. n < 64 \<Longrightarrow> bit m n \<longleftrightarrow> even (n div (2 * h))" and n: "n < 64"
  shows "bit (m XOR push_bit h m) n \<longleftrightarrow> even (n div h)"
proof -
  define q r where "q = n div (2 * h)" and "r = n mod (2 * h)"
  have nq: "n = q * (2 * h) + r" and r: "r < 2 * h" using h by (simp_all only: q_def r_def div_mult_mod_eq) simp
  have b: "bit (m XOR push_bit h m) n \<longleftrightarrow> even q \<noteq> (h \<le> n \<and> even ((n - h) div (2 * h)))"
    using m [OF n] m [of "n - h"] n by (auto simp: bit_xor_iff bit_push_bit_iff q_def)
  show ?thesis
  proof (cases "r < h")
    case True
    have nh: "n div h = 2 * q" using True h by (simp add: nq algebra_simps)
    show ?thesis
    proof (cases q)
      case 0
      then show ?thesis using b nh True nq by simp
    next
      case (Suc p)
      have "n - h = p * (2 * h) + (r + h)" using nq Suc by simp
      then have "(n - h) div (2 * h) = p" using True by simp
      moreover have "h \<le> n" using nq Suc by simp
      ultimately show ?thesis using b nh Suc by simp
    qed
  next
    case False
    have "n div h = 2 * q + (r div h)" using h by (simp add: nq algebra_simps)
    moreover have "r div h = 1" using False r by (intro div_nat_eqI) simp_all
    moreover have "n - h = q * (2 * h) + (r - h)" using nq False by simp
    then have "(n - h) div (2 * h) = q" using block_div [of "r - h" "2 * h" q] r by simp
    moreover have "h \<le> n" using nq False by simp
    ultimately show ?thesis using b by simp
  qed
qed

text \<open>The position a bit comes from when blocks of \<open>2 ^ k\<close> bits are reversed.\<close>

definition flip :: "nat \<Rightarrow> nat \<Rightarrow> nat" where
  "flip k n = n div 2 ^ k * 2 ^ k + (2 ^ k - 1 - n mod 2 ^ k)"

lemma flip_Suc:
  "flip (Suc k) n = (let j = flip k n in if even (j div 2 ^ k) then j + 2 ^ k else j - 2 ^ k)"
proof -
  let ?h = "2 ^ k :: nat"
  define a r where "a = n div ?h" and "r = n mod ?h"
  have n: "n = a * ?h + r" and r: "r < ?h" by (simp_all only: a_def r_def div_mult_mod_eq) simp
  have j: "flip k n = a * ?h + (?h - 1 - r)" by (simp add: flip_def a_def r_def)
  have jd: "flip k n div ?h = a" unfolding j by (rule block_div) (use r in simp)
  show ?thesis
  proof (cases "even a")
    case True
    then obtain q where q: "a = 2 * q" by blast
    have "n = q * (2 * ?h) + r" using n q by simp
    then have "n div (2 * ?h) = q" "n mod (2 * ?h) = r" using r by simp_all
    then show ?thesis using r True j jd q by (simp add: flip_def [of "Suc k"] Let_def)
  next
    case False
    then obtain q where q: "a = 2 * q + 1" by (metis oddE)
    have "n = q * (2 * ?h) + (?h + r)" using n q by (simp add: algebra_simps)
    then have "n div (2 * ?h) = q" "n mod (2 * ?h) = ?h + r" using r by simp_all
    then show ?thesis using r False j jd q by (simp add: flip_def [of "Suc k"] Let_def)
  qed
qed

lemma flip_less: "k \<le> 6 \<Longrightarrow> n < 64 \<Longrightarrow> flip k n < 64"
proof -
  assume k: "k \<le> 6" and n: "n < 64"
  have "(2 :: nat) ^ k dvd 2 ^ 6" using k by (rule le_imp_power_dvd)
  then obtain c where c: "(64 :: nat) = c * 2 ^ k" by (auto simp: dvd_def mult.commute)
  then have "n div 2 ^ k < c" using n by (simp add: less_mult_imp_div_less)
  then have "(n div 2 ^ k + 1) * 2 ^ k \<le> c * 2 ^ k" by (intro mult_le_mono1) simp
  moreover have "flip k n < n div 2 ^ k * 2 ^ k + 2 ^ k"
    unfolding flip_def by (intro add_strict_left_mono) (simp add: less_imp_diff_less)
  ultimately show "flip k n < 64" using c by (simp add: add_mult_distrib)
qed


lemma rev_loop_bit:
  assumes "k \<le> 6" "\<And>n. n < 64 \<Longrightarrow> bit m n \<longleftrightarrow> even (n div 2 ^ k)" "n < 64"
  shows "bit (rev_loop (2 ^ k) m v) n \<longleftrightarrow> bit v (flip k n)"
  using assms
proof (induction k arbitrary: m v n)
  case 0
  then show ?case by (simp add: rev_loop.simps [of "Suc 0"] flip_def)
next
  case (Suc k)
  let ?h = "2 ^ k :: nat"
  let ?m = "m XOR push_bit ?h m"
  let ?v = "(drop_bit ?h v AND ?m) OR (push_bit ?h v AND NOT ?m)"
  have m: "bit ?m j \<longleftrightarrow> even (j div ?h)" if "j < 64" for j
    using Suc.prems(2) that by (intro rev_mask_step) simp_all
  have loop: "rev_loop (2 ^ Suc k) m v = rev_loop ?h ?m ?v"
    by (subst rev_loop.simps) (simp add: Let_def)
  let ?j = "flip k n"
  have j: "?j < 64" using flip_less Suc.prems by simp
  have le: "?h \<le> ?j" if "\<not> even (?j div ?h)" using that by (metis div_less even_zero not_le)
  have "bit (rev_loop (2 ^ Suc k) m v) n \<longleftrightarrow> bit ?v ?j"
    unfolding loop using Suc.IH [of ?m n ?v] m Suc.prems(1,3) by simp
  also have "\<dots> \<longleftrightarrow> (if even (?j div ?h) then bit v (?j + ?h) else bit v (?j - ?h))"
    using m [OF j] j le by (auto simp: bit_or_iff bit_and_iff bit_not_iff bit_drop_bit_eq bit_push_bit_iff add.commute)
  also have "\<dots> \<longleftrightarrow> bit v (flip (Suc k) n)" by (simp add: flip_Suc Let_def)
  finally show ?case .
qed

lemma bit_rev_bits:
  assumes "n < 64"
  shows "bit (rev_bits v) n \<longleftrightarrow> bit v (63 - n)"
proof -
  have "bit (rev_loop (2 ^ 6) (-1) v) n \<longleftrightarrow> bit v (flip 6 n)"
    by (rule rev_loop_bit) (use assms in simp_all)
  then show ?thesis using assms by (simp add: rev_bits_def flip_def)
qed

lemma rev_rev_bits [simp]: "rev_bits (rev_bits v) = v"
proof (rule bit_word_eqI)
  fix n assume "n < LENGTH(64)"
  then show "bit (rev_bits (rev_bits v)) n = bit v n" using bit_rev_bits [of n] bit_rev_bits [of "63 - n"] by simp
qed

section \<open>The order of the cursor\<close>

text \<open>The place of a hash value, or of a cursor, in the order of the scan.\<close>

definition rpos :: "u64 \<Rightarrow> nat" where
  "rpos v = unat (rev_bits v)"

lemma rpos_bit: "bit (rpos v) n \<longleftrightarrow> n < 64 \<and> bit v (63 - n)"
proof (cases "n < 64")
  case True
  then show ?thesis using bit_rev_bits [of n v] by (simp add: rpos_def bit_unsigned_iff)
next
  case False
  then have "\<not> bit (rev_bits v) n" using bit_imp_le_length [of "rev_bits v" n] by auto
  then show ?thesis using False by (simp add: rpos_def bit_unsigned_iff)
qed

lemma rpos_less: "rpos v < 2 ^ 64"
  using unsigned_less [of "rev_bits v"] by (simp add: rpos_def)

lemma rpos_rev: "rpos (rev_bits w) = unat w"
  by (simp add: rpos_def)

lemma rpos_zero: "rpos v = 0 \<longleftrightarrow> v = 0"
proof
  assume "rpos v = 0"
  then have "\<not> bit v n" if "n < 64" for n using rpos_bit [of v "63 - n"] that by simp
  then show "v = 0" by (intro bit_word_eqI) simp
next
  assume "v = 0"
  then show "rpos v = 0" by (intro bit_eqI) (simp add: rpos_bit)
qed

text \<open>Two values share the bucket of a table iff they lie in the same block of the order.\<close>

lemma rpos_block:
  assumes "e \<le> 64"
  shows "rpos x div 2 ^ (64 - e) = rpos y div 2 ^ (64 - e) \<longleftrightarrow> x AND mask e = y AND mask e"
proof -
  have "drop_bit (64 - e) (rpos x) = drop_bit (64 - e) (rpos y) \<longleftrightarrow> (\<forall>i < e. bit x i = bit y i)"
  proof
    assume eq: "drop_bit (64 - e) (rpos x) = drop_bit (64 - e) (rpos y)"
    have "bit (drop_bit (64 - e) (rpos z)) (e - 1 - i) = bit z i" if "i < e" for z i
      using that assms by (auto simp: bit_drop_bit_eq rpos_bit)
    then show "\<forall>i < e. bit x i = bit y i" using eq by metis
  next
    assume "\<forall>i < e. bit x i = bit y i"
    then show "drop_bit (64 - e) (rpos x) = drop_bit (64 - e) (rpos y)"
      using assms by (intro bit_eqI) (auto simp: bit_drop_bit_eq rpos_bit)
  qed
  also have "\<dots> \<longleftrightarrow> x AND mask e = y AND mask e"
    using assms by (simp add: bit_eq_iff [of "x AND mask e"] bit_and_iff bit_mask_iff) (meson less_le_trans)
  finally show ?thesis by (simp add: drop_bit_eq_div)
qed

lemma rpos_next:
  assumes "e \<le> 64"
  shows "rpos (next_cursor (mask e) v) = (rpos v div 2 ^ (64 - e) + 1) * 2 ^ (64 - e) mod 2 ^ 64"
proof -
  let ?k = "64 - e" and ?w = "v OR NOT (mask e) :: u64"
  have d: "drop_bit ?k (rpos ?w) = drop_bit ?k (rpos v)"
    using assms by (intro bit_eqI) (auto simp: bit_drop_bit_eq rpos_bit bit_or_iff bit_not_iff bit_mask_iff)
  have t: "take_bit ?k (rpos ?w) = mask ?k"
    using assms by (intro bit_eqI) (auto simp: bit_take_bit_iff rpos_bit bit_or_iff bit_not_iff bit_mask_iff)
  have "rpos ?w = rpos v div 2 ^ ?k * 2 ^ ?k + (2 ^ ?k - 1)"
    using d t div_mult_mod_eq [of "rpos ?w" "2 ^ ?k"] by (simp add: drop_bit_eq_div take_bit_eq_mod mask_eq_exp_minus_1)
  then have w: "rpos ?w + 1 = (rpos v div 2 ^ ?k + 1) * 2 ^ ?k" by simp
  have "rpos (next_cursor (mask e) v) = unat (rev_bits ?w + 1)" by (simp add: next_cursor_def rpos_rev)
  also have "\<dots> = (rpos ?w + 1) mod 2 ^ 64" by (simp add: rpos_def unat_word_ariths)
  finally show ?thesis unfolding w .
qed

lemma cursor_test:
  assumes "e0 \<le> e1" "e1 \<le> 64"
  shows "w AND (mask e0 XOR mask e1) = 0 \<longleftrightarrow> rpos w mod 2 ^ (64 - e0) div 2 ^ (64 - e1) = 0"
proof -
  have "drop_bit (64 - e1) (take_bit (64 - e0) (rpos w)) = 0 \<longleftrightarrow> (\<forall>i. e0 \<le> i \<and> i < e1 \<longrightarrow> \<not> bit w i)"
  proof (intro iffI allI impI)
    fix i assume z: "drop_bit (64 - e1) (take_bit (64 - e0) (rpos w)) = 0" and i: "e0 \<le> i \<and> i < e1"
    have "bit (drop_bit (64 - e1) (take_bit (64 - e0) (rpos w))) (e1 - 1 - i) = bit w i"
      using i assms by (auto simp: bit_drop_bit_eq bit_take_bit_iff rpos_bit)
    then show "\<not> bit w i" using z by simp
  next
    assume "\<forall>i. e0 \<le> i \<and> i < e1 \<longrightarrow> \<not> bit w i"
    then show "drop_bit (64 - e1) (take_bit (64 - e0) (rpos w)) = 0"
      using assms by (intro bit_eqI) (auto simp: bit_drop_bit_eq bit_take_bit_iff rpos_bit)
  qed
  moreover have "w AND (mask e0 XOR mask e1) = 0 \<longleftrightarrow> (\<forall>i. e0 \<le> i \<and> i < e1 \<longrightarrow> \<not> bit w i)"
    using assms bit_imp_le_length [of w]
    by (auto simp: bit_eq_iff [of "w AND (mask e0 XOR mask e1)"] bit_and_iff bit_xor_iff bit_mask_iff not_less) (metis not_le)
  ultimately show ?thesis by (simp add: drop_bit_eq_div take_bit_eq_mod)
qed

section \<open>One call\<close>

lemma emit_chain_all: "chain_ok nv c \<Longrightarrow> emit_chain c = c"
proof (induction c)
  case (Cons e c)
  then have "chain_ok nv c" by (cases c) (auto simp: chain_ok_def)
  then show ?case using Cons by (cases c) (auto simp: chain_ok_def)
qed simp

definition kpos :: "('k, 'v) dictType \<Rightarrow> 'k \<Rightarrow> nat" where
  "kpos ty k = rpos (hashFunction ty k)"

lemma mask_eq: "0 \<le> e \<Longrightarrow> e < 64 \<Longrightarrow> DICTHT_SIZE_MASK e = mask (nat e)"
  by (simp add: DICTHT_SIZE_MASK_def DICTHT_SIZE_def mask_eq_exp_minus_1)

text \<open>The bucket of a cursor holds exactly the entries of its block.\<close>

lemma scan_bucket_ok:
  assumes ok: "ht_ok ty h" and e: "ht_size_exp h = int e"
  shows "\<exists>out. scan_bucket h (unat (v AND mask e)) = Some out \<and> set out \<subseteq> set (concat (ht_table h)) \<and>
    (\<forall>de \<in> set (concat (ht_table h)).
       kpos ty (dictGetKey de) div 2 ^ (64 - e) = rpos v div 2 ^ (64 - e) \<longrightarrow> de \<in> set out)"
proof -
  have e61: "e < 61" using ok e by (auto simp: ht_ok_def)
  have idx: "dict_idx x (int e) = unat (x AND mask e)" for x
    using e61 by (simp add: dict_idx_def mask_eq)
  let ?i = "unat (v AND mask e)"
  have i: "?i < length (ht_table h)" using ht_ok_index [OF ok, of v] e idx by simp
  have c: "chain_ok (no_value ty) (ht_table h ! ?i)" using ok i by (simp add: ht_ok_def)
  have out: "scan_bucket h ?i = Some (ht_table h ! ?i)"
    using i emit_chain_all [OF c] by (simp add: scan_bucket_def bucket_at_def)
  have "de \<in> set (ht_table h ! ?i)"
    if de: "de \<in> set (concat (ht_table h))" and b: "kpos ty (dictGetKey de) div 2 ^ (64 - e) = rpos v div 2 ^ (64 - e)" for de
  proof -
    obtain j where j: "j < length (ht_table h)" "de \<in> set (ht_table h ! j)" using de by (auto simp: in_set_conv_nth [of _ "ht_table h"])
    then have "dict_idx (hashFunction ty (dictGetKey de)) (int e) = j" using ok e by (auto simp: ht_ok_def)
    moreover have "hashFunction ty (dictGetKey de) AND mask e = v AND mask e"
      using b rpos_block [of e "hashFunction ty (dictGetKey de)" v] e61 by (simp add: kpos_def)
    ultimately have "j = ?i" using idx by simp
    then show ?thesis using j(2) by simp
  qed
  moreover have "set (ht_table h ! ?i) \<subseteq> set (concat (ht_table h))" using nth_mem [OF i] by auto
  ultimately show ?thesis using out by blast
qed

text \<open>The end of the block of size \<open>2 ^ k\<close> that a place lies in.\<close>

definition bend :: "nat \<Rightarrow> nat \<Rightarrow> nat" where
  "bend k r = (r div 2 ^ k + 1) * 2 ^ k"

lemma bend_gt: "r < bend k r"
  using dividend_less_times_div [of "2 ^ k" r] by (simp add: bend_def algebra_simps)

lemma bend_le:
  assumes "k \<le> n" "r < 2 ^ n"
  shows "bend k r \<le> 2 ^ n"
proof -
  have n: "(2 :: nat) ^ n = 2 ^ (n - k) * 2 ^ k" using assms(1) by (simp add: power_add [symmetric])
  then have "r div 2 ^ k < 2 ^ (n - k)" using assms(2) by (simp add: less_mult_imp_div_less)
  then show ?thesis unfolding bend_def n by (intro mult_le_mono1) simp
qed

lemma bend_same_block: "(b :: nat) * 2 ^ k \<le> r \<Longrightarrow> r < (b + 1) * 2 ^ k \<Longrightarrow> r div 2 ^ k = b"
  by (intro div_nat_eqI) (simp_all add: mult.commute)

lemma in_block: "r \<le> x \<Longrightarrow> x < bend k r \<Longrightarrow> x div 2 ^ k = r div 2 ^ k"
proof (rule bend_same_block)
  assume "r \<le> x"
  then show "r div 2 ^ k * 2 ^ k \<le> x" using div_times_less_eq_dividend [of r "2 ^ k"] by linarith
qed (simp add: bend_def)

lemma bend_dvd: "2 ^ k dvd bend k r"
  by (simp add: bend_def)

lemma bend_bend_le: "k1 \<le> k0 \<Longrightarrow> bend k1 r \<le> bend k0 r"
proof -
  assume k: "k1 \<le> k0"
  have p: "(2 :: nat) ^ k0 = 2 ^ (k0 - k1) * 2 ^ k1" using k by (simp add: power_add [symmetric])
  have "r < bend k0 r" by (rule bend_gt)
  then have "r < ((r div 2 ^ k0 + 1) * 2 ^ (k0 - k1)) * 2 ^ k1" unfolding bend_def p mult.assoc .
  then have "r div 2 ^ k1 < (r div 2 ^ k0 + 1) * 2 ^ (k0 - k1)" by (rule less_mult_imp_div_less)
  then have "(r div 2 ^ k1 + 1) * 2 ^ k1 \<le> ((r div 2 ^ k0 + 1) * 2 ^ (k0 - k1)) * 2 ^ k1" by (intro mult_le_mono1) simp
  then show ?thesis unfolding bend_def p mult.assoc .
qed

lemma rpos_next_bend: "e \<le> 64 \<Longrightarrow> rpos (next_cursor (mask e) v) = bend (64 - e) (rpos v) mod 2 ^ 64"
  by (simp add: rpos_next bend_def)

text \<open>The test at the end of the loop over the larger table: the end of the block of the smaller one.\<close>

lemma next_test:
  fixes v :: u64
  assumes "e0 \<le> e1" "e1 \<le> 64"
  defines "n \<equiv> next_cursor (mask e1) v"
  shows "n AND (mask e0 XOR mask e1) = 0 \<longleftrightarrow> rpos n mod 2 ^ (64 - e0) = 0"
proof -
  have "2 ^ (64 - e1) dvd rpos n"
    unfolding n_def rpos_next_bend [OF assms(2)] by (intro dvd_mod bend_dvd le_imp_power_dvd) simp
  then have "2 ^ (64 - e1) dvd rpos n mod 2 ^ (64 - e0)" using assms(1) by (intro dvd_mod le_imp_power_dvd diff_le_mono2)
  then have "rpos n mod 2 ^ (64 - e0) div 2 ^ (64 - e1) = 0 \<longleftrightarrow> rpos n mod 2 ^ (64 - e0) = 0" by (metis dvd_div_eq_0_iff)
  then show ?thesis using cursor_test [OF assms(1,2), of n] by simp
qed

text \<open>The loop covers the rest of the block of the smaller table.\<close>

lemma scan_loop_ok:
  assumes ok: "ht_ok ty h" and e: "ht_size_exp h = int e1" and le: "e0 \<le> e1"
  shows "\<exists>out v'. scan_loop h (mask e0) (mask e1) v = Some (out, v') \<and> set out \<subseteq> set (concat (ht_table h)) \<and>
    rpos v' = bend (64 - e0) (rpos v) mod 2 ^ 64 \<and>
    (\<forall>de \<in> set (concat (ht_table h)). rpos v \<le> kpos ty (dictGetKey de) \<and>
       kpos ty (dictGetKey de) < bend (64 - e0) (rpos v) \<longrightarrow> de \<in> set out)"
proof (induction "bend (64 - e0) (rpos v) - rpos v" arbitrary: v rule: less_induct)
  case less
  have e61: "e1 < 61" using ok e by (auto simp: ht_ok_def)
  let ?k0 = "64 - e0" and ?k1 = "64 - e1" and ?n = "next_cursor (mask e1) v"
  let ?r = "rpos v" and ?m = "(mask e0 :: u64) XOR mask e1"
  have k: "?k1 \<le> ?k0" using le by simp
  obtain out where out: "scan_bucket h (unat (v AND mask e1)) = Some out" "set out \<subseteq> set (concat (ht_table h))"
    "\<forall>de \<in> set (concat (ht_table h)). kpos ty (dictGetKey de) div 2 ^ ?k1 = ?r div 2 ^ ?k1 \<longrightarrow> de \<in> set out"
    using scan_bucket_ok [OF ok e, of v] by blast
  have next_r: "rpos ?n = bend ?k1 ?r mod 2 ^ 64" using e61 by (intro rpos_next_bend) simp
  have b10: "bend ?k1 ?r \<le> bend ?k0 ?r" using k by (rule bend_bend_le)
  have b64: "bend ?k0 ?r \<le> 2 ^ 64" using rpos_less by (intro bend_le) simp_all
  have test: "?n AND ?m = 0 \<longleftrightarrow> rpos ?n mod 2 ^ ?k0 = 0" using le e61 by (intro next_test) simp_all
  have here: "de \<in> set out" if "de \<in> set (concat (ht_table h))" "?r \<le> kpos ty (dictGetKey de)"
    "kpos ty (dictGetKey de) < bend ?k1 ?r" for de
    using out(3) that in_block by blast
  show ?case
  proof (cases "bend ?k1 ?r = bend ?k0 ?r")
    case True
    have "rpos ?n mod 2 ^ ?k0 = 0"
      unfolding next_r True by (metis bend_dvd dvd_imp_mod_0 dvd_mod diff_le_self le_imp_power_dvd)
    then have "scan_loop h (mask e0) (mask e1) v = Some (out, ?n)"
      using out(1) test by (subst scan_loop.simps) simp
    then show ?thesis using out(2) next_r True here by auto
  next
    case False
    then have lt: "bend ?k1 ?r < bend ?k0 ?r" using b10 by simp
    then have n: "rpos ?n = bend ?k1 ?r" using next_r b64 by simp
    have blk: "rpos ?n div 2 ^ ?k0 = ?r div 2 ^ ?k0"
      using lt bend_gt [of ?r ?k1] unfolding n by (intro in_block) simp_all
    then have same: "bend ?k0 (rpos ?n) = bend ?k0 ?r" by (simp add: bend_def)
    have "rpos ?n mod 2 ^ ?k0 \<noteq> 0"
    proof
      assume z: "rpos ?n mod 2 ^ ?k0 = 0"
      have "rpos ?n = ?r div 2 ^ ?k0 * 2 ^ ?k0" using z blk div_mult_mod_eq [of "rpos ?n" "2 ^ ?k0"] by simp
      also have "\<dots> \<le> ?r" by (rule div_times_less_eq_dividend)
      finally show False using bend_gt [of ?r ?k1] n by simp
    qed
    moreover have "bend ?k0 (rpos ?n) - rpos ?n < bend ?k0 ?r - ?r"
      using bend_gt [of ?r ?k1] lt same n by (simp add: diff_less_mono2)
    then obtain out' v' where IH: "scan_loop h (mask e0) (mask e1) ?n = Some (out', v')"
      "set out' \<subseteq> set (concat (ht_table h))" "rpos v' = bend ?k0 (rpos ?n) mod 2 ^ 64"
      "\<forall>de \<in> set (concat (ht_table h)). rpos ?n \<le> kpos ty (dictGetKey de) \<and>
         kpos ty (dictGetKey de) < bend ?k0 (rpos ?n) \<longrightarrow> de \<in> set out'"
      using less.hyps [of ?n] by blast
    ultimately have "scan_loop h (mask e0) (mask e1) v = Some (out @ out', v')"
      using out(1) test by (subst scan_loop.simps) simp
    moreover have "de \<in> set (out @ out')" if "de \<in> set (concat (ht_table h))"
      "?r \<le> kpos ty (dictGetKey de)" "kpos ty (dictGetKey de) < bend ?k0 ?r" for de
      using here [OF that(1,2)] IH(4) that n same by (cases "kpos ty (dictGetKey de) < bend ?k1 ?r") auto
    ultimately show ?thesis using out(2) IH(2,3) same by auto
  qed
qed

definition cursor_end :: "u64 \<Rightarrow> nat" where
  "cursor_end v = (if v = 0 then 2 ^ 64 else rpos v)"

lemma cursor_end_bend:
  assumes "rpos v' = bend k (rpos v) mod 2 ^ 64" "k \<le> 64"
  shows "cursor_end v' = bend k (rpos v)"
proof (cases "bend k (rpos v) = 2 ^ 64")
  case True
  then have "v' = 0" using assms(1) rpos_zero by simp
  then show ?thesis using True by (simp add: cursor_end_def)
next
  case False
  then have "bend k (rpos v) < 2 ^ 64" using bend_le [OF assms(2) rpos_less] by (simp add: le_neq_implies_less)
  then have "rpos v' = bend k (rpos v)" using assms(1) by simp
  moreover have "0 < bend k (rpos v)" by (simp add: bend_def)
  ultimately show ?thesis using rpos_zero [of v'] by (auto simp: cursor_end_def)
qed

text \<open>The least exponent of the tables in use, which decides how far one call gets.\<close>

definition scan_exp :: "('k, 'v) dict \<Rightarrow> nat" where
  "scan_exp d = (if dictIsRehashing d then nat (min (ht_size_exp (ht0 d)) (ht_size_exp (ht1 d))) else nat (ht_size_exp (ht0 d)))"

definition all_entries :: "('k, 'v) dict \<Rightarrow> ('k, 'v) dictEntry list" where
  "all_entries d = concat (ht_table (ht0 d)) @ concat (ht_table (ht1 d))"

lemma ht_expD:
  assumes "ht_ok ty h" "ht_size_exp h \<noteq> -1"
  obtains e where "ht_size_exp h = int e" "e < 61" "DICTHT_SIZE_MASK (ht_size_exp h) = mask e"
proof -
  have e: "0 \<le> ht_size_exp h" "ht_size_exp h < 61" using assms by (auto simp: ht_ok_def)
  then show thesis using that [of "nat (ht_size_exp h)"] mask_eq by simp
qed

text \<open>The two tables of a rehash, the smaller one first.\<close>

lemma scan_two_tables:
  assumes "ht_ok ty h0" "ht_ok ty h1" "ht_size_exp h0 = int e0" "ht_size_exp h1 = int e1" "e0 \<le> e1"
  shows "\<exists>out out' v'. scan_bucket h0 (unat (v AND mask e0)) = Some out \<and> scan_loop h1 (mask e0) (mask e1) v = Some (out', v') \<and>
    set (out @ out') \<subseteq> set (concat (ht_table h0)) \<union> set (concat (ht_table h1)) \<and>
    cursor_end v' = bend (64 - e0) (rpos v) \<and>
    (\<forall>de \<in> set (concat (ht_table h0)) \<union> set (concat (ht_table h1)). rpos v \<le> kpos ty (dictGetKey de) \<and>
       kpos ty (dictGetKey de) < bend (64 - e0) (rpos v) \<longrightarrow> de \<in> set (out @ out'))"
proof -
  obtain out where out: "scan_bucket h0 (unat (v AND mask e0)) = Some out" "set out \<subseteq> set (concat (ht_table h0))"
    "\<forall>de \<in> set (concat (ht_table h0)). kpos ty (dictGetKey de) div 2 ^ (64 - e0) = rpos v div 2 ^ (64 - e0) \<longrightarrow> de \<in> set out"
    using scan_bucket_ok [OF assms(1,3), of v] by blast
  obtain out' v' where l: "scan_loop h1 (mask e0) (mask e1) v = Some (out', v')" "set out' \<subseteq> set (concat (ht_table h1))"
    "rpos v' = bend (64 - e0) (rpos v) mod 2 ^ 64"
    "\<forall>de \<in> set (concat (ht_table h1)). rpos v \<le> kpos ty (dictGetKey de) \<and>
       kpos ty (dictGetKey de) < bend (64 - e0) (rpos v) \<longrightarrow> de \<in> set out'"
    using scan_loop_ok [OF assms(2,4,5), of v] by blast
  have "cursor_end v' = bend (64 - e0) (rpos v)" using l(3) by (intro cursor_end_bend) simp_all
  moreover have "\<forall>de \<in> set (concat (ht_table h0)) \<union> set (concat (ht_table h1)). rpos v \<le> kpos ty (dictGetKey de) \<and>
       kpos ty (dictGetKey de) < bend (64 - e0) (rpos v) \<longrightarrow> de \<in> set (out @ out')"
    using out(3) l(4) in_block by (metis Un_iff set_append)
  moreover have "set (out @ out') \<subseteq> set (concat (ht_table h0)) \<union> set (concat (ht_table h1))"
    using out(2) l(2) unfolding set_append by blast
  ultimately show ?thesis using out(1) l(1) by blast
qed

text \<open>What one call promises.\<close>

definition scan_promise :: "('k, 'v) dictType \<Rightarrow> ('k, 'v) dict \<Rightarrow> u64 \<Rightarrow> ('k, 'v) dictEntry list \<Rightarrow> u64 \<Rightarrow> bool" where
  "scan_promise ty d v out v' \<longleftrightarrow> set out \<subseteq> set (all_entries d) \<and>
     cursor_end v' = (if dictSize d = 0 then 2 ^ 64 else bend (64 - scan_exp d) (rpos v)) \<and>
     (\<forall>de \<in> set (all_entries d). rpos v \<le> kpos ty (dictGetKey de) \<and> kpos ty (dictGetKey de) < cursor_end v' \<longrightarrow> de \<in> set out)"

lemma dictScan_single:
  assumes inv: "dict_inv ty d" and ne: "dictSize d \<noteq> 0" and nr: "\<not> dictIsRehashing d"
    and e0: "ht_size_exp (ht0 d) = int e0" "e0 < 61" "DICTHT_SIZE_MASK (ht_size_exp (ht0 d)) = mask e0"
  shows "\<exists>out v'. dictScan d v = Some (out, v') \<and> scan_promise ty d v out v'"
proof -
  have ok: "ht_ok ty (ht0 d)" using inv by (simp add: dict_inv_def)
  have e: "all_entries d = concat (ht_table (ht0 d))" "scan_exp d = e0"
    using inv e0(1) nr by (auto simp: all_entries_def dict_inv_def dictIsRehashing_def scan_exp_def)
  obtain out where out: "scan_bucket (ht0 d) (unat (v AND mask e0)) = Some out" "set out \<subseteq> set (concat (ht_table (ht0 d)))"
    "\<forall>de \<in> set (concat (ht_table (ht0 d))).
       kpos ty (dictGetKey de) div 2 ^ (64 - e0) = rpos v div 2 ^ (64 - e0) \<longrightarrow> de \<in> set out"
    using scan_bucket_ok [OF ok e0(1), of v] by blast
  let ?n = "next_cursor (mask e0) v"
  have n: "cursor_end ?n = bend (64 - e0) (rpos v)" using rpos_next_bend [of e0 v] e0(2) by (intro cursor_end_bend) simp_all
  have "dictScan d v = Some (out, ?n)" using ne nr out(1) e0(3) by (simp add: dictScan_def)
  moreover have "scan_promise ty d v out ?n" unfolding scan_promise_def using ne n e out(2,3) in_block by auto
  ultimately show ?thesis by blast
qed

lemma dictScan_double:
  assumes "dictSize d \<noteq> 0" "dictIsRehashing d"
    and pair: "(if DICTHT_SIZE (ht_size_exp (ht0 d)) > DICTHT_SIZE (ht_size_exp (ht1 d)) then (ht1 d, ht0 d) else (ht0 d, ht1 d)) = (h0, h1)"
    and ok: "ht_ok ty h0" "ht_ok ty h1"
    and e0: "ht_size_exp h0 = int e0" "DICTHT_SIZE_MASK (ht_size_exp h0) = mask e0"
    and e1: "ht_size_exp h1 = int e1" "DICTHT_SIZE_MASK (ht_size_exp h1) = mask e1"
    and le: "e0 \<le> e1" "scan_exp d = e0"
  shows "\<exists>out v'. dictScan d v = Some (out, v') \<and> scan_promise ty d v out v'"
proof -
  obtain out out' v' where o: "scan_bucket h0 (unat (v AND mask e0)) = Some out"
    "scan_loop h1 (mask e0) (mask e1) v = Some (out', v')"
    "set (out @ out') \<subseteq> set (concat (ht_table h0)) \<union> set (concat (ht_table h1))"
    "cursor_end v' = bend (64 - e0) (rpos v)"
    "\<forall>de \<in> set (concat (ht_table h0)) \<union> set (concat (ht_table h1)). rpos v \<le> kpos ty (dictGetKey de) \<and>
       kpos ty (dictGetKey de) < bend (64 - e0) (rpos v) \<longrightarrow> de \<in> set (out @ out')"
    using scan_two_tables [OF ok e0(1) e1(1) le(1), of v] by (elim exE conjE)
  have all: "set (all_entries d) = set (concat (ht_table h0)) \<union> set (concat (ht_table h1))"
    using pair by (auto simp: all_entries_def split: if_splits)
  have "dictScan d v = Some (out @ out', v')"
    unfolding dictScan_def pair if_not_P [OF assms(1)] using assms(2) o(1,2) e0(2) e1(2) by simp
  moreover have "scan_promise ty d v (out @ out') v'"
    using o(3-5) assms(1) le(2) unfolding scan_promise_def all by simp
  ultimately show ?thesis by blast
qed

lemma dictScan_ok:
  assumes inv: "dict_inv ty d"
  shows "\<exists>out v'. dictScan d v = Some (out, v') \<and> scan_promise ty d v out v'"
proof (cases "dictSize d = 0")
  case True
  then have "all_entries d = []" using inv by (simp add: dict_inv_def dictSize_def ht_ok_def all_entries_def)
  then show ?thesis using True by (simp add: dictScan_def cursor_end_def scan_promise_def)
next
  case ne: False
  have ok: "ht_ok ty (ht0 d)" "ht_ok ty (ht1 d)" using inv by (simp_all add: dict_inv_def)
  have "ht_size_exp (ht0 d) \<noteq> -1" using dictSize_table [OF inv ne] ok(1) ht_exp_table by blast
  then obtain e0 where e0: "ht_size_exp (ht0 d) = int e0" "e0 < 61" "DICTHT_SIZE_MASK (ht_size_exp (ht0 d)) = mask e0"
    using ht_expD [OF ok(1)] by blast
  show ?thesis
  proof (cases "dictIsRehashing d")
    case True
    then have "ht_size_exp (ht1 d) \<noteq> -1" using inv by (auto simp: dict_inv_def dictIsRehashing_def)
    then obtain e1 where e1: "ht_size_exp (ht1 d) = int e1" "DICTHT_SIZE_MASK (ht_size_exp (ht1 d)) = mask e1"
      using ht_expD [OF ok(2)] by blast
    show ?thesis
    proof (cases "e0 \<le> e1")
      case le: True
      then show ?thesis using e0(1) e1(1)
        by (intro dictScan_double [OF ne True _ ok e0(1,3) e1]) (simp_all add: scan_exp_def True power_increasing not_less)
    next
      case False
      then show ?thesis using e0(1) e1(1)
        by (intro dictScan_double [OF ne True _ ok(2,1) e1 e0(1,3)]) (simp_all add: scan_exp_def True power_strict_increasing)
    qed
  qed (rule dictScan_single [OF inv ne _ e0])
qed

section \<open>A whole scan\<close>

text \<open>
  The scan of a dict that changes between the calls: the states that the calls find, until the cursor is
  back at zero or the states end.
\<close>

fun scan_run :: "('k, 'v) dict list \<Rightarrow> u64 \<Rightarrow> (('k, 'v) dictEntry list \<times> u64) option" where
  "scan_run [] v = Some ([], v)"
| "scan_run (d # ds) v = do {
     (out, v) \<leftarrow> dictScan d v;
     if v = 0 then Some (out, 0)
     else do {
       (out', v) \<leftarrow> scan_run ds v;
       Some (out @ out', v)
     }
   }"

lemma scan_run_total: "\<forall>d \<in> set ds. dict_inv ty d \<Longrightarrow> \<exists>out v'. scan_run ds v = Some (out, v')"
proof (induction ds arbitrary: v)
  case (Cons d ds)
  then obtain out v1 where "dictScan d v = Some (out, v1)" using dictScan_ok [of ty d v] by auto
  moreover obtain out' v' where "scan_run ds v1 = Some (out', v')" using Cons by fastforce
  ultimately show ?case by simp
qed simp

lemma scan_run_covers:
  assumes "\<forall>d \<in> set ds. dict_inv ty d" "\<forall>d \<in> set ds. dict_map d k \<noteq> None"
    and "rpos v \<le> kpos ty k" "ds \<noteq> [] \<or> v \<noteq> 0"
  shows "\<exists>out v'. scan_run ds v = Some (out, v') \<and> (v' = 0 \<longrightarrow> k \<in> dictGetKey ` set out)"
  using assms
proof (induction ds arbitrary: v)
  case (Cons d ds)
  obtain out v1 where o: "dictScan d v = Some (out, v1)" "scan_promise ty d v out v1"
    using dictScan_ok [of ty d v] Cons.prems(1) by auto
  have "k \<in> set (dict_keys d)" using Cons.prems(2) dict_map_keys [of d k] by auto
  then obtain de where de: "de \<in> set (all_entries d)" "dictGetKey de = k" by (auto simp: dict_keys_def all_entries_def)
  show ?case
  proof (cases "kpos ty k < cursor_end v1")
    case True
    then have "k \<in> dictGetKey ` set out" using o(2) de Cons.prems(3) unfolding scan_promise_def by blast
    moreover obtain out' v' where "scan_run ds v1 = Some (out', v')"
      using scan_run_total [of ds ty v1] Cons.prems(1) by auto
    ultimately show ?thesis using o(1) by auto
  next
    case False
    have "kpos ty k < 2 ^ 64" using rpos_less by (simp add: kpos_def)
    then have v1: "v1 \<noteq> 0" "rpos v1 \<le> kpos ty k" using False by (auto simp: cursor_end_def split: if_splits)
    then obtain out' v' where "scan_run ds v1 = Some (out', v')" "v' = 0 \<longrightarrow> k \<in> dictGetKey ` set out'"
      using Cons.IH [of v1] Cons.prems by auto
    then show ?thesis using o(1) v1(1) by auto
  qed
qed simp

lemma scan_step_grid:
  assumes "scan_promise ty d v out v'" "v' \<noteq> 0" "scan_exp d \<le> E" "E \<le> 64"
    and "rpos v = j * 2 ^ (64 - E)"
  obtains j' where "rpos v' = j' * 2 ^ (64 - E)" "j < j'"
proof -
  have "dictSize d \<noteq> 0" using assms(1,2) rpos_less [of v'] by (auto simp: scan_promise_def cursor_end_def split: if_splits)
  then have r: "rpos v' = bend (64 - scan_exp d) (rpos v)" using assms(1,2) by (simp add: scan_promise_def cursor_end_def)
  have "2 ^ (64 - E) dvd (2 :: nat) ^ (64 - scan_exp d)" using assms(3) by (intro le_imp_power_dvd) simp
  then have "2 ^ (64 - E) dvd rpos v'" unfolding r using bend_dvd dvd_trans by blast
  then obtain j' where j': "rpos v' = j' * 2 ^ (64 - E)" by (metis dvd_div_mult_self)
  moreover have "rpos v < rpos v'" unfolding r by (rule bend_gt)
  then have "j < j'" unfolding assms(5) j' by simp
  ultimately show thesis using that by blast
qed

lemma scan_run_ends:
  assumes "\<forall>d \<in> set ds. dict_inv ty d" "\<forall>d \<in> set ds. scan_exp d \<le> E" "E \<le> 64"
    and "rpos v = j * 2 ^ (64 - E)" "2 ^ E \<le> length ds + j"
  shows "\<exists>out. scan_run ds v = Some (out, 0)"
  using assms
proof (induction ds arbitrary: v j)
  case Nil
  have "(2 :: nat) ^ 64 = 2 ^ E * 2 ^ (64 - E)" using Nil.prems(3) by (simp add: power_add [symmetric])
  also have "\<dots> \<le> rpos v" using Nil.prems(4,5) by simp
  finally show ?case using rpos_less [of v] by simp
next
  case (Cons d ds)
  obtain out v1 where o: "dictScan d v = Some (out, v1)" "scan_promise ty d v out v1"
    using dictScan_ok [of ty d v] Cons.prems(1) by auto
  show ?case
  proof (cases "v1 = 0")
    case False
    obtain j' where j': "rpos v1 = j' * 2 ^ (64 - E)" "j < j'"
      using scan_step_grid [OF o(2) False _ Cons.prems(3,4)] Cons.prems(2) by auto
    have "2 ^ E \<le> length ds + j'" using Cons.prems(5) j'(2) by simp
    then show ?thesis using Cons.IH [OF _ _ Cons.prems(3) j'(1)] Cons.prems(1,2) o(1) False by auto
  qed (use o(1) in simp)
qed

section \<open>Properties\<close>

text \<open>
  C32: A scan from cursor 0 back to cursor 0 visits every key that is in the dict at all of its calls, for
  arbitrary changes between the calls: the tables may grow, shrink and be in the middle of a rehash, as
  long as each state is well-formed.
\<close>

theorem dictScan_visits_all:
  assumes "\<forall>d \<in> set ds. dict_inv ty d \<and> dict_map d k \<noteq> None" "ds \<noteq> []"
  shows "\<exists>out v. scan_run ds 0 = Some (out, v) \<and> (v = 0 \<longrightarrow> k \<in> dictGetKey ` set out)"
  using scan_run_covers [of ds ty k 0] assms rpos_zero [of 0] by simp

theorem dictScan_visits_all_witness:
  "\<exists>out v. scan_run [dict_sample, dict_sample] 0 = Some (out, v) \<and> (v = 0 \<longrightarrow> 7 \<in> dictGetKey ` set out)"
proof (rule dictScan_visits_all)
  have "dict_map dict_sample 7 \<noteq> None" by (simp add: dict_map_keys dict_keys_def dict_sample_def)
  then show "\<forall>d \<in> set [dict_sample, dict_sample]. dict_inv dict_sample_type d \<and> dict_map d 7 \<noteq> None"
    using dict_sample_inv by simp
qed simp

text \<open>
  C33: A scan ends: when no table ever has more than \<open>2 ^ E\<close> buckets, the cursor is back at 0 after at most
  \<open>2 ^ E\<close> calls, whatever happens to the dict between them.
\<close>

theorem dictScan_terminates:
  assumes "\<forall>d \<in> set ds. dict_inv ty d \<and> ht_size_exp (ht0 d) \<le> int E \<and> ht_size_exp (ht1 d) \<le> int E"
    and "E \<le> 64" "length ds = 2 ^ E"
  shows "\<exists>out. scan_run ds 0 = Some (out, 0)"
proof (rule scan_run_ends [where j = 0])
  show "\<forall>d \<in> set ds. scan_exp d \<le> E" using assms(1) by (auto simp: scan_exp_def)
qed (use assms rpos_zero [of 0] in auto)

theorem dictScan_terminates_witness:
  "\<exists>out. scan_run [dict_sample, dict_sample] 0 = Some (out, 0)"
proof (rule dictScan_terminates)
  show "\<forall>d \<in> set [dict_sample, dict_sample]. dict_inv dict_sample_type d \<and>
      ht_size_exp (ht0 d) \<le> int 1 \<and> ht_size_exp (ht1 d) \<le> int 1"
    using dict_sample_inv by (simp add: dict_sample_def)
qed simp_all

end
