(* ===== verification/Dict_Iter.thy ===== *)
theory Dict_Iter
  imports Dict_Scan
begin

text \<open>
  Iterators of \<^verbatim>\<open>dict.c\<close>. The pointers \<^verbatim>\<open>entry\<close> and \<^verbatim>\<open>nextEntry\<close> of an iterator are the keys of the entries
  they point to; following one that is not in the bucket any more is a failure. The fingerprint of an
  unsafe iterator is left out, it only detects misuse.
\<close>

section \<open>Definitions\<close>

record 'k dictIterator =
  it_index :: int
  it_table :: nat
  it_safe :: bool
  it_entry :: "'k option"
  it_nextEntry :: "'k option"

definition dictInitIterator :: "'k dictIterator" where
  "dictInitIterator = \<lparr>it_index = -1, it_table = 0, it_safe = False, it_entry = None, it_nextEntry = None\<rparr>"

definition dictInitSafeIterator :: "'k dictIterator" where
  "dictInitSafeIterator = dictInitIterator\<lparr>it_safe := True\<rparr>"

definition dictResetIterator :: "('k, 'v) dict \<Rightarrow> 'k dictIterator \<Rightarrow> ('k, 'v) dict" where
  "dictResetIterator d it =
     (if \<not> (it_index it = -1 \<and> it_table it = 0) \<and> it_safe it then dictResumeRehashing d else d)"

text \<open>The first call pauses rehashing for a safe iterator and skips the buckets that are rehashed.\<close>

definition iter_start :: "('k, 'v) dict \<Rightarrow> 'k dictIterator \<Rightarrow> ('k, 'v) dict \<times> 'k dictIterator" where
  "iter_start d it =
     (if it_index it = -1 \<and> it_table it = 0 then
        (if it_safe it then dictPauseRehashing d else d,
         if dictIsRehashing d then it\<lparr>it_index := rehashidx d - 1\<rparr> else it)
      else (d, it))"

text \<open>The step to the next bucket; the flag says that there is none.\<close>

definition iter_advance :: "('k, 'v) dict \<Rightarrow> 'k dictIterator \<Rightarrow> 'k dictIterator \<times> bool" where
  "iter_advance d it =
     (let it = it\<lparr>it_index := it_index it + 1\<rparr>
      in if it_index it \<ge> int (DICTHT_SIZE (ht_size_exp (ht_at d (it_table it)))) then
           (if dictIsRehashing d \<and> it_table it = 0 then (it\<lparr>it_table := 1, it_index := 0\<rparr>, False) else (it, True))
         else (it, False))"

definition iter_bucket :: "('k, 'v) dict \<Rightarrow> 'k dictIterator \<Rightarrow> ('k, 'v) dictEntry list option" where
  "iter_bucket d it = bucket_at (ht_at d (it_table it)) (nat (it_index it))"

text \<open>The entry a pointer leads to, and \<^verbatim>\<open>dictGetNext\<close> of it.\<close>

definition first_key :: "('k, 'v) dictEntry list \<Rightarrow> 'k option" where
  "first_key c = (case c of [] \<Rightarrow> None | de # _ \<Rightarrow> Some (dictGetKey de))"

definition iter_deref :: "('k, 'v) dict \<Rightarrow> 'k dictIterator \<Rightarrow> 'k \<Rightarrow> (('k, 'v) dictEntry \<times> 'k option) option" where
  "iter_deref d it k = do {
     c \<leftarrow> iter_bucket d it;
     (case dropWhile (\<lambda>de. dictGetKey de \<noteq> k) c of
        [] \<Rightarrow> None
      | de # rest \<Rightarrow> Some (de, if entryIsKey de then None else first_key rest))
   }"

partial_function (option) dictNext ::
    "('k, 'v) dict \<Rightarrow> 'k dictIterator \<Rightarrow> (('k, 'v) dict \<times> 'k dictIterator \<times> ('k, 'v) dictEntry option) option" where
  "dictNext d it =
     (if it_entry it = None then
        let (d, it) = iter_start d it; (it, stop) = iter_advance d it
        in if stop then Some (d, it, None)
           else do {
             c \<leftarrow> iter_bucket d it;
             (case first_key c of
                None \<Rightarrow> dictNext d it
              | Some k \<Rightarrow> do {
                  (de, nx) \<leftarrow> iter_deref d it k;
                  Some (d, it\<lparr>it_entry := Some k, it_nextEntry := nx\<rparr>, Some de)
                })
           }
      else
        (case it_nextEntry it of
           None \<Rightarrow> dictNext d (it\<lparr>it_entry := None\<rparr>)
         | Some k \<Rightarrow> do {
             (de, nx) \<leftarrow> iter_deref d it k;
             Some (d, it\<lparr>it_entry := Some k, it_nextEntry := nx\<rparr>, Some de)
           }))"

text \<open>A loop \<^verbatim>\<open>while ((de = dictNext(iter)) != NULL)\<close> whose body leaves the dict alone.\<close>

partial_function (option) iter_all ::
    "('k, 'v) dict \<Rightarrow> 'k dictIterator \<Rightarrow> (('k, 'v) dict \<times> 'k dictIterator \<times> ('k, 'v) dictEntry list) option" where
  "iter_all d it = do {
     (d, it, r) \<leftarrow> dictNext d it;
     (case r of
        None \<Rightarrow> Some (d, it, [])
      | Some de \<Rightarrow> do {
          (d, it, des) \<leftarrow> iter_all d it;
          Some (d, it, de # des)
        })
   }"

section \<open>The order of an iteration\<close>

text \<open>What is left from bucket \<open>i\<close> of table \<open>t\<close> on.\<close>

definition rest_buckets :: "('k, 'v) dict \<Rightarrow> nat \<Rightarrow> nat \<Rightarrow> ('k, 'v) dictEntry list" where
  "rest_buckets d t i = concat (drop i (ht_table (ht_at d t))) @
     (if t = 0 \<and> dictIsRehashing d then concat (ht_table (ht1 d)) else [])"

definition iter_rem :: "('k, 'v) dict \<Rightarrow> 'k dictIterator \<Rightarrow> ('k, 'v) dictEntry list \<Rightarrow> bool" where
  "iter_rem d it es \<longleftrightarrow> it_entry it \<noteq> None \<and> 0 \<le> it_index it \<and> it_table it \<le> 1 \<and>
     (\<exists>pre tail. iter_bucket d it = Some (pre @ tail) \<and> it_nextEntry it = first_key tail \<and>
        es = tail @ rest_buckets d (it_table it) (nat (it_index it) + 1))"

text \<open>What a call of \<^verbatim>\<open>dictNext\<close> returns when \<open>es\<close> is left.\<close>

definition iter_result :: "('k, 'v) dict \<Rightarrow> bool \<Rightarrow> ('k, 'v) dictEntry list \<Rightarrow>
    (('k, 'v) dict \<times> 'k dictIterator \<times> ('k, 'v) dictEntry option) option \<Rightarrow> bool" where
  "iter_result d safe es res \<longleftrightarrow> (\<exists>it' r. res = Some (d, it', r) \<and> it_safe it' = safe \<and> 0 \<le> it_index it' \<and>
     (case es of [] \<Rightarrow> r = None | de # es' \<Rightarrow> r = Some de \<and> iter_rem d it' es'))"

lemma bucket_distinct:
  assumes "dict_inv ty d" "iter_bucket d it = Some c"
  shows "distinct (map dictGetKey c)" "chain_ok (no_value ty) c"
proof -
  let ?h = "ht_at d (it_table it)"
  have i: "nat (it_index it) < length (ht_table ?h)" "c = ht_table ?h ! nat (it_index it)"
    using assms(2) by (auto simp: iter_bucket_def bucket_at_def split: if_splits)
  have "distinct (map dictGetKey (concat (ht_table ?h)))" using assms(1) by (auto simp: dict_inv_def dict_keys_def ht_at_def)
  moreover have "map dictGetKey (concat (ht_table ?h)) = concat (map (map dictGetKey) (ht_table ?h))" by (simp add: map_concat)
  ultimately show "distinct (map dictGetKey c)" using i by (auto simp: distinct_concat_iff dest: nth_mem)
  show "chain_ok (no_value ty) c" using assms(1) i by (auto simp: dict_inv_def ht_ok_def ht_at_def)
qed

lemma iter_deref_ok:
  assumes "dict_inv ty d" "iter_bucket d it = Some (pre @ de # rest)"
  shows "iter_deref d it (dictGetKey de) = Some (de, first_key rest)"
proof -
  note b = bucket_distinct [OF assms]
  have "dropWhile (\<lambda>x. dictGetKey x \<noteq> dictGetKey de) (pre @ de # rest) = de # rest"
    using b(1) by (subst dropWhile_append2) (auto intro: rev_image_eqI)
  moreover have "rest = []" if "entryIsKey de" using b(2) that by (cases rest) (auto simp: chain_ok_def butlast_append)
  ultimately show ?thesis using assms(2) by (auto simp: iter_deref_def first_key_def)
qed

definition iter_body :: "('k, 'v) dict \<Rightarrow> 'k dictIterator \<Rightarrow>
    (('k, 'v) dict \<times> 'k dictIterator \<times> ('k, 'v) dictEntry option) option" where
  "iter_body d it =
     (let (it, stop) = iter_advance d it
      in if stop then Some (d, it, None)
         else do {
           c \<leftarrow> iter_bucket d it;
           (case first_key c of
              None \<Rightarrow> dictNext d it
            | Some k \<Rightarrow> do {
                (de, nx) \<leftarrow> iter_deref d it k;
                Some (d, it\<lparr>it_entry := Some k, it_nextEntry := nx\<rparr>, Some de)
              })
         })"

lemma dictNext_body: "it_entry it = None \<Longrightarrow> dictNext d it = (let (d, it) = iter_start d it in iter_body d it)"
  by (subst dictNext.simps) (simp add: iter_body_def case_prod_beta Let_def)

lemma iter_start_started: "0 \<le> it_index it \<Longrightarrow> iter_start d it = (d, it)"
  by (auto simp: iter_start_def)

text \<open>One visit of a bucket, given what the later ones do.\<close>

lemma iter_visit:
  assumes inv: "dict_inv ty d" and adv: "iter_advance d it = (it1, False)"
    and it1: "it_entry it1 = None" "0 \<le> it_index it1" "it_safe it1 = s" "it_table it1 \<le> 1"
    and b: "iter_bucket d it1 = Some c"
    and later: "iter_result d s (rest_buckets d (it_table it1) (nat (it_index it1) + 1)) (iter_body d it1)"
  shows "iter_result d s (c @ rest_buckets d (it_table it1) (nat (it_index it1) + 1)) (iter_body d it)"
proof (cases c)
  case Nil
  have "iter_body d it = dictNext d it1" unfolding iter_body_def using adv b Nil by (simp add: first_key_def)
  also have "\<dots> = iter_body d it1" unfolding dictNext_body [OF it1(1)] iter_start_started [OF it1(2)] by simp
  finally show ?thesis using later Nil by simp
next
  case (Cons de rest)
  have "iter_deref d it1 (dictGetKey de) = Some (de, first_key rest)"
    using iter_deref_ok [OF inv, of it1 "[]" de rest] b Cons by simp
  then have "iter_body d it = Some (d, it1\<lparr>it_entry := Some (dictGetKey de), it_nextEntry := first_key rest\<rparr>, Some de)"
    unfolding iter_body_def using adv b Cons by (simp add: first_key_def)
  moreover have "iter_rem d (it1\<lparr>it_entry := Some (dictGetKey de), it_nextEntry := first_key rest\<rparr>)
      (rest @ rest_buckets d (it_table it1) (nat (it_index it1) + 1))"
    using b Cons it1(2,4) by (auto simp: iter_rem_def iter_bucket_def intro!: exI [of _ "[de]"])
  ultimately show ?thesis using Cons it1(2,3) by (simp add: iter_result_def)
qed

text \<open>The buckets of one table, from the state before bucket \<open>i\<close>; \<open>after\<close> is what happens at its end.\<close>

lemma iter_table:
  assumes inv: "dict_inv ty d" and it: "it_entry it = None" "it_index it = int i - 1" "it_safe it = s" "it_table it = t"
    and t: "t \<le> 1" and i: "i \<le> length (ht_table (ht_at d t))"
    and after: "\<And>it. it_entry it = None \<Longrightarrow> it_index it = int (length (ht_table (ht_at d t))) - 1 \<Longrightarrow>
      it_safe it = s \<Longrightarrow> it_table it = t \<Longrightarrow>
      iter_result d s (if t = 0 \<and> dictIsRehashing d then concat (ht_table (ht1 d)) else []) (iter_body d it)"
  shows "iter_result d s (rest_buckets d t i) (iter_body d it)"
  using i it
proof (induction i arbitrary: it rule: inc_induct)
  case base
  then show ?case using after [of it] by (simp add: rest_buckets_def)
next
  case (step i)
  let ?h = "ht_at d t"
  have sz: "DICTHT_SIZE (ht_size_exp ?h) = length (ht_table ?h)"
    using inv ht_ok_size by (auto simp: dict_inv_def ht_at_def)
  let ?it = "it\<lparr>it_index := int i\<rparr>"
  have adv: "iter_advance d it = (?it, False)" using step.hyps(2) step.prems sz by (simp add: iter_advance_def Let_def)
  have b: "iter_bucket d ?it = Some (ht_table ?h ! i)" using step.hyps(2) step.prems(4) by (simp add: iter_bucket_def bucket_at_def)
  have "iter_result d s (rest_buckets d t (Suc i)) (iter_body d ?it)" using step.prems by (intro step.IH) simp_all
  then have "iter_result d s (ht_table ?h ! i @ rest_buckets d t (i + 1)) (iter_body d it)"
    using iter_visit [OF inv adv _ _ _ _ b, of s] step.prems t by simp
  moreover have "ht_table ?h ! i @ rest_buckets d t (i + 1) = rest_buckets d t i"
    using step.hyps(2) by (simp add: rest_buckets_def Cons_nth_drop_Suc [symmetric])
  ultimately show ?case by simp
qed


lemma iter_table1:
  assumes inv: "dict_inv ty d" and it: "it_entry it = None" "it_index it = int i - 1" "it_safe it = s" "it_table it = 1"
    and i: "i \<le> length (ht_table (ht1 d))"
  shows "iter_result d s (rest_buckets d 1 i) (iter_body d it)"
proof (rule iter_table [OF inv it order_refl])
  fix it :: "'a dictIterator"
  assume it: "it_index it = int (length (ht_table (ht_at d 1))) - 1" "it_safe it = s" "it_table it = 1"
  have "DICTHT_SIZE (ht_size_exp (ht1 d)) = length (ht_table (ht1 d))" using inv ht_ok_size by (auto simp: dict_inv_def)
  then have "iter_body d it = Some (d, it\<lparr>it_index := it_index it + 1\<rparr>, None)"
    using it by (simp add: iter_body_def iter_advance_def Let_def ht_at_def)
  then show "iter_result d s (if (1 :: nat) = 0 \<and> dictIsRehashing d then concat (ht_table (ht1 d)) else []) (iter_body d it)"
    using it by (simp add: iter_result_def)
qed (use i in \<open>simp add: ht_at_def\<close>)

text \<open>At the end of table 0 the iterator goes on with the first bucket of table 1 during a rehash.\<close>

lemma iter_table0_end:
  assumes inv: "dict_inv ty d" and it: "it_entry it = None" "it_index it = int (length (ht_table (ht0 d))) - 1"
    "it_safe it = s" "it_table it = 0"
  shows "iter_result d s (if dictIsRehashing d then concat (ht_table (ht1 d)) else []) (iter_body d it)"
proof -
  have sz: "DICTHT_SIZE (ht_size_exp (ht0 d)) = length (ht_table (ht0 d))" using inv ht_ok_size by (auto simp: dict_inv_def)
  show ?thesis
  proof (cases "dictIsRehashing d")
    case False
    then have "iter_body d it = Some (d, it\<lparr>it_index := it_index it + 1\<rparr>, None)"
      using it sz by (simp add: iter_body_def iter_advance_def Let_def ht_at_def)
    then show ?thesis using False it by (simp add: iter_result_def)
  next
    case True
    let ?it = "it\<lparr>it_table := 1, it_index := 0\<rparr>"
    have t1: "ht_table (ht1 d) \<noteq> []" using True inv by (auto simp: dict_inv_def dictIsRehashing_def ht_ok_def)
    have adv: "iter_advance d it = (?it, False)" using it sz True by (simp add: iter_advance_def Let_def ht_at_def)
    have b: "iter_bucket d ?it = Some (ht_table (ht1 d) ! 0)" using t1 by (simp add: iter_bucket_def bucket_at_def ht_at_def)
    have "iter_result d s (rest_buckets d 1 1) (iter_body d ?it)"
      using it t1 by (intro iter_table1 [OF inv]) (simp_all add: Suc_le_eq)
    then have "iter_result d s (ht_table (ht1 d) ! 0 @ rest_buckets d 1 1) (iter_body d it)"
      using iter_visit [OF inv adv _ _ _ _ b, of s] it by simp
    moreover have "ht_table (ht1 d) ! 0 @ rest_buckets d 1 1 = concat (ht_table (ht1 d))"
      using t1 by (cases "ht_table (ht1 d)") (simp_all add: rest_buckets_def ht_at_def)
    ultimately show ?thesis using True by simp
  qed
qed

lemma iter_from:
  assumes inv: "dict_inv ty d" and it: "it_entry it = None" "it_index it = int i - 1" "it_safe it = s" "it_table it = t"
    and t: "t \<le> 1" and i: "i \<le> length (ht_table (ht_at d t))"
  shows "iter_result d s (rest_buckets d t i) (iter_body d it)"
proof (cases "t = 0")
  case True
  show ?thesis using iter_table0_end [OF inv] True
    by (intro iter_table [OF inv it t i]) (simp add: ht_at_def)
next
  case False
  then have "t = 1" using t by simp
  then show ?thesis using iter_table1 [OF inv it(1-3)] it(4) i by (simp add: ht_at_def)
qed

lemma dictNext_rem:
  assumes inv: "dict_inv ty d" and rem: "iter_rem d it es"
  shows "iter_result d (it_safe it) es (dictNext d it)"
proof -
  obtain pre tail where b: "iter_bucket d it = Some (pre @ tail)" "it_nextEntry it = first_key tail"
    "es = tail @ rest_buckets d (it_table it) (nat (it_index it) + 1)" and e: "it_entry it \<noteq> None" "0 \<le> it_index it" and t: "it_table it \<le> 1"
    using rem by (auto simp: iter_rem_def)
  show ?thesis
  proof (cases tail)
    case Nil
    let ?it = "it\<lparr>it_entry := None\<rparr>"
    have "dictNext d it = dictNext d ?it" using e(1) b(2) Nil by (subst dictNext.simps) (auto simp: first_key_def)
    also have "\<dots> = iter_body d ?it" using e(2) by (simp add: dictNext_body iter_start_started)
    finally have n: "dictNext d it = iter_body d ?it" .
    have "nat (it_index it) + 1 \<le> length (ht_table (ht_at d (it_table it)))"
      using b(1) by (auto simp: iter_bucket_def bucket_at_def split: if_splits)
    then show ?thesis unfolding n b(3) using Nil e(2) t iter_from [OF inv, of ?it "nat (it_index it) + 1"] by simp
  next
    case (Cons de rest)
    have "iter_deref d it (dictGetKey de) = Some (de, first_key rest)"
      using iter_deref_ok [OF inv, of it pre de rest] b(1) Cons by simp
    then have "dictNext d it = Some (d, it\<lparr>it_entry := Some (dictGetKey de), it_nextEntry := first_key rest\<rparr>, Some de)"
      using e(1) b(2) Cons by (subst dictNext.simps) (auto simp: first_key_def)
    moreover have "iter_rem d (it\<lparr>it_entry := Some (dictGetKey de), it_nextEntry := first_key rest\<rparr>)
        (rest @ rest_buckets d (it_table it) (nat (it_index it) + 1))"
      using b(1) Cons e(2) t by (auto simp: iter_rem_def iter_bucket_def intro!: exI [of _ "pre @ [de]"])
    ultimately show ?thesis using Cons e(2) b(3) by (simp add: iter_result_def)
  qed
qed

lemma iter_all_result:
  assumes inv: "dict_inv ty d" and res: "iter_result d s es (dictNext d0 it)"
  shows "\<exists>it'. iter_all d0 it = Some (d, it', es) \<and> it_safe it' = s \<and> 0 \<le> it_index it'"
  using res
proof (induction es arbitrary: d0 it)
  case Nil
  then show ?case by (subst iter_all.simps) (auto simp: iter_result_def)
next
  case (Cons de es)
  then obtain it1 where it1: "dictNext d0 it = Some (d, it1, Some de)" "it_safe it1 = s" "iter_rem d it1 es"
    by (auto simp: iter_result_def)
  have "iter_result d s es (dictNext d it1)" using dictNext_rem [OF inv it1(3)] it1(2) by simp
  then obtain it' where "iter_all d it1 = Some (d, it', es)" "it_safe it' = s" "0 \<le> it_index it'"
    using Cons.IH by blast
  then show ?case using it1(1) by (subst iter_all.simps) simp
qed

definition iter_state :: "bool \<Rightarrow> ('k, 'v) dict \<Rightarrow> ('k, 'v) dict" where
  "iter_state safe d = (if safe then dictPauseRehashing d else d)"

lemma iter_state_simps [simp]:
  "ht0 (iter_state s d) = ht0 d" "ht1 (iter_state s d) = ht1 d" "dict_inv ty (iter_state s d) = dict_inv ty d"
  "dictIsRehashing (iter_state s d) = dictIsRehashing d" "rehashidx (iter_state s d) = rehashidx d"
  by (simp_all add: iter_state_def) (simp_all add: dictPauseRehashing_def dictIsRehashing_def)

lemma rehashed_buckets_empty:
  assumes "dict_inv ty d"
  shows "concat (drop (if dictIsRehashing d then nat (rehashidx d) else 0) (ht_table (ht0 d))) = concat (ht_table (ht0 d))"
proof (cases "dictIsRehashing d")
  case True
  let ?n = "nat (rehashidx d)"
  have "\<forall>i < ?n. ht_table (ht0 d) ! i = []" "?n \<le> length (ht_table (ht0 d))"
    using assms True by (auto simp: dict_inv_def dictIsRehashing_def)
  then have "concat (take ?n (ht_table (ht0 d))) = []" by (auto simp: in_set_conv_nth)
  moreover have "concat (ht_table (ht0 d)) = concat (take ?n (ht_table (ht0 d))) @ concat (drop ?n (ht_table (ht0 d)))"
    by (metis append_take_drop_id concat_append)
  ultimately show ?thesis using True by simp
qed simp

lemma iter_first:
  assumes inv: "dict_inv ty d" and it: "it = dictInitIterator\<lparr>it_safe := s\<rparr>"
  shows "iter_result (iter_state s d) s (all_entries d) (dictNext d it)"
proof -
  let ?d = "iter_state s d" and ?i = "if dictIsRehashing d then nat (rehashidx d) else 0"
  let ?it = "it\<lparr>it_index := int ?i - 1\<rparr>"
  have start: "iter_start d it = (?d, ?it)"
    using inv it by (auto simp: iter_start_def iter_state_def dictInitIterator_def dict_inv_def dictIsRehashing_def)
  have "?i \<le> length (ht_table (ht_at ?d 0))" using inv by (auto simp: ht_at_def dict_inv_def dictIsRehashing_def)
  then have "iter_result ?d s (rest_buckets ?d 0 ?i) (iter_body ?d ?it)"
    using inv it by (intro iter_from) (simp_all add: dictInitIterator_def)
  moreover have "rest_buckets ?d 0 ?i = all_entries d"
    using rehashed_buckets_empty [OF inv] inv
    by (auto simp: rest_buckets_def ht_at_def all_entries_def dict_inv_def dictIsRehashing_def)
  moreover have "dictNext d it = iter_body ?d ?it"
    using it dictNext_body [of it d] start by (simp add: dictInitIterator_def)
  ultimately show ?thesis by simp
qed

section \<open>Properties\<close>

text \<open>
  C34: A loop over a dict with an iterator ends and returns every entry exactly once, in the order of the
  tables and also during a rehash, where the rehashed buckets are skipped. A safe iterator pauses
  rehashing, and \<^verbatim>\<open>dictResetIterator\<close> gives the dict back as it was.
\<close>

theorem dict_iterator_correct:
  assumes "dict_inv ty d" "pauserehash d < 2 ^ 32"
  shows "\<exists>d' it. iter_all d (dictInitIterator\<lparr>it_safe := safe\<rparr>) = Some (d', it, all_entries d) \<and>
    distinct (map dictGetKey (all_entries d)) \<and> (safe \<longrightarrow> pauserehash d' = (pauserehash d + 1) mod 2 ^ 32) \<and>
    dictResetIterator d' it = d"
proof -
  have "dict_inv ty (iter_state safe d)" using assms(1) by simp
  then obtain it' where it': "iter_all d (dictInitIterator\<lparr>it_safe := safe\<rparr>) = Some (iter_state safe d, it', all_entries d)"
    "it_safe it' = safe" "0 \<le> it_index it'"
    using iter_all_result [OF _ iter_first [OF assms(1) refl]] by blast
  have "dictResetIterator (iter_state safe d) it' = d"
    using it'(2,3) pause_resume [OF assms(2) refl]
    by (auto simp: dictResetIterator_def iter_state_def dictPauseRehashing_def dictResumeRehashing_def)
  moreover have "distinct (map dictGetKey (all_entries d))" using assms(1) by (simp add: dict_inv_def dict_keys_def all_entries_def)
  ultimately show ?thesis using it'(1) by (auto simp: iter_state_def dictPauseRehashing_def)
qed

theorem dict_iterator_correct_witness:
  "\<exists>d' it. iter_all dict_sample (dictInitIterator\<lparr>it_safe := True\<rparr>) = Some (d', it, [EntryVal 7 1]) \<and>
    pauserehash d' = 1 \<and> dictResetIterator d' it = dict_sample"
  using dict_iterator_correct [OF dict_sample_inv, of True] by (simp add: dict_sample_def all_entries_def)

end
