(* ===== verification/Fwtree.thy ===== *)
theory Fwtree
  imports Redis_Base
begin

text \<open>
  The Fenwick tree of \<^verbatim>\<open>src/redis-stable/src/fwtree.c\<close>: a binary indexed tree of
  64-bit counters, 1-based inside and 0-based at its interface. \<open>int\<close> stands for the C
  \<^verbatim>\<open>int\<close> and \<^verbatim>\<open>long long\<close> values, and a signed overflow is \<^term>\<open>None\<close>: a tree has at most \<open>2 ^ 30\<close> elements
  (\<^verbatim>\<open>1 << sizeBits\<close>), and one of exactly \<open>2 ^ 30\<close> can be created and queried but not updated, since the
  step past its last element is \<open>2 ^ 31\<close>. \<^typ>\<open>u64\<close> stands for \<^verbatim>\<open>unsigned long long\<close>. The pointer argument is an option, \<^term>\<open>None\<close> being \<^verbatim>\<open>NULL\<close>.
\<close>

record fenwickTree =
  tree :: "u64 list"
  size_bits :: nat
  size :: int
  total :: u64

definition c_int :: "int \<Rightarrow> int option" where
  "c_int x = (if - (2 ^ 31) \<le> x \<and> x < 2 ^ 31 then Some x else None)"

definition fwTreeCreate :: "nat \<Rightarrow> fenwickTree option" where
  "fwTreeCreate sizeBits =
     do {
       sz \<leftarrow> c_int (2 ^ sizeBits);
       Some \<lparr>tree = replicate (nat sz + 1) 0, size_bits = sizeBits, size = sz, total = 0\<rparr>
     }"

text \<open>\<^verbatim>\<open>while (idx > 0) { sum += tree[idx]; idx -= (idx & -idx); }\<close>\<close>

function fw_prefix_loop :: "u64 list \<Rightarrow> int \<Rightarrow> u64 \<Rightarrow> u64 option" where
  "fw_prefix_loop tr idx s =
     (if idx > 0 then
        (if nat idx < length tr then fw_prefix_loop tr (idx - (idx AND - idx)) (s + tr ! nat idx)
         else None)
      else Some s)"
  by pat_completeness auto
termination
  by (relation "measure (\<lambda>(tr, idx, s). nat idx)")
    (auto simp: and_neg_lbit lbit_bounds)

declare fw_prefix_loop.simps [simp del]

definition fwTreePrefixSum :: "fenwickTree option \<Rightarrow> int \<Rightarrow> u64 option" where
  "fwTreePrefixSum ft idx =
     (case ft of
        None \<Rightarrow> Some 0
      | Some t \<Rightarrow>
          (if idx < 0 then Some 0
           else let idx = (if idx \<ge> size t then size t - 1 else idx)
                in fw_prefix_loop (tree t) (idx + 1) 0))"

text \<open>
  \<^verbatim>\<open>while (idx <= ft->size)\<close>. The loop starts at 1 or above and only grows; an index below 1
  does not occur and is an abort here, as are the overflows of \<^verbatim>\<open>-delta\<close> and of \<^verbatim>\<open>idx += (idx & -idx)\<close>.
\<close>

function fw_update_loop :: "u64 list \<Rightarrow> int \<Rightarrow> int \<Rightarrow> int \<Rightarrow> u64 list option" where
  "fw_update_loop tr sz idx delta =
     (if idx \<le> sz then
        (if idx < 1 \<or> nat idx \<ge> length tr then None
         else if delta < 0 \<and> (delta = - (2 ^ 63) \<or> uint (tr ! nat idx) < - delta) then None
         else if idx + (idx AND - idx) \<ge> 2 ^ 31 then None
         else fw_update_loop (tr[nat idx := tr ! nat idx + word_of_int delta]) sz
                (idx + (idx AND - idx)) delta)
      else Some tr)"
  by pat_completeness auto
termination
  by (relation "measure (\<lambda>(tr, sz, idx, delta). nat (sz + 1 - idx))")
    (auto simp: and_neg_lbit lbit_bounds)

declare fw_update_loop.simps [simp del]

definition fwTreeUpdate :: "fenwickTree option \<Rightarrow> int \<Rightarrow> int \<Rightarrow> fenwickTree option option" where
  "fwTreeUpdate ft idx delta =
     (case ft of
        None \<Rightarrow> Some None
      | Some t \<Rightarrow>
          (if idx < 0 \<or> idx \<ge> size t then Some (Some t)
           else do {
             tr \<leftarrow> fw_update_loop (tree t) (size t) (idx + 1) delta;
             Some (Some (t\<lparr>tree := tr, total := total t + word_of_int delta\<rparr>))
           }))"

text \<open>\<^verbatim>\<open>for (int i = bit_mask; i != 0; i >>= 1)\<close> of \<^verbatim>\<open>fwTreeFindIndex\<close>\<close>

fun fw_find_loop :: "u64 list \<Rightarrow> nat \<Rightarrow> nat \<Rightarrow> u64 \<Rightarrow> nat option" where
  "fw_find_loop tr i result target =
     (if i = 0 then Some result
      else let current = result + i
           in if current \<ge> length tr then None
              else if target > tr ! current
                   then fw_find_loop tr (i div 2) current (target - tr ! current)
                   else fw_find_loop tr (i div 2) result target)"

declare fw_find_loop.simps [simp del]

definition fwTreeFindIndex :: "fenwickTree \<Rightarrow> u64 \<Rightarrow> nat option" where
  "fwTreeFindIndex ft target =
     (if target \<le> 0 then Some 0 else fw_find_loop (tree ft) (2 ^ size_bits ft) 0 target)"

definition fwTreeFindFirstNonEmpty :: "fenwickTree \<Rightarrow> nat option" where
  "fwTreeFindFirstNonEmpty ft = fwTreeFindIndex ft 1"

definition fwTreeFindNextNonEmpty :: "fenwickTree option \<Rightarrow> int \<Rightarrow> int option" where
  "fwTreeFindNextNonEmpty ft idx =
     (case ft of
        None \<Rightarrow> Some (-1)
      | Some t \<Rightarrow>
          (if idx < 0 \<or> idx \<ge> size t then Some (-1)
           else do {
             s \<leftarrow> fwTreePrefixSum ft idx;
             let next_sum = s + 1;
             (if next_sum \<le> total t then map_option int (fwTreeFindIndex t next_sum)
              else Some (-1))
           }))"

definition fwTreeClear :: "fenwickTree \<Rightarrow> fenwickTree" where
  "fwTreeClear ft = ft\<lparr>tree := replicate (nat (size ft) + 1) 0, total := 0\<rparr>"

subsection \<open>The counters a tree stands for\<close>

text \<open>
  Node \<open>k\<close> holds the sum of the \<open>lbit k\<close> counters that end at position \<open>k\<close>. The relation
  \<open>fw_inv ft vals\<close> ties a tree to the counters \<open>vals\<close> it stands for; the total fits 64 bits.
\<close>

definition psum :: "nat list \<Rightarrow> nat \<Rightarrow> nat" where
  "psum vals k = sum_list (take k vals)"

definition fw_node :: "nat list \<Rightarrow> nat \<Rightarrow> nat" where
  "fw_node vals k = psum vals k - psum vals (k - lbit k)"

definition fw_inv :: "fenwickTree \<Rightarrow> nat list \<Rightarrow> bool" where
  "fw_inv ft vals \<longleftrightarrow>
     size ft = 2 ^ size_bits ft \<and> length (tree ft) = 2 ^ size_bits ft + 1 \<and>
     length vals = 2 ^ size_bits ft \<and> sum_list vals < 2 ^ 64 \<and>
     total ft = of_nat (sum_list vals) \<and>
     (\<forall>k. 1 \<le> k \<and> k \<le> 2 ^ size_bits ft \<longrightarrow> tree ft ! k = of_nat (fw_node vals k))"

lemma psum_0 [simp]: "psum vals 0 = 0"
  by (simp add: psum_def)

lemma psum_all: "length vals \<le> k \<Longrightarrow> psum vals k = sum_list vals"
  by (simp add: psum_def)

lemma psum_Suc: "k < length vals \<Longrightarrow> psum vals (Suc k) = psum vals k + vals ! k"
  by (simp add: psum_def take_Suc_conv_app_nth)

lemma psum_mono: "j \<le> k \<Longrightarrow> psum vals j \<le> psum vals k"
  by (metis psum_def le_add_diff_inverse take_add sum_list_append le_add1)

lemma psum_le: "psum vals k \<le> sum_list vals"
  using psum_mono [of k "max k (length vals)" vals] by (simp add: psum_all)

lemma psum_node: "0 < k \<Longrightarrow> psum vals k = psum vals (k - lbit k) + fw_node vals k"
  by (simp add: fw_node_def psum_mono)

lemma psum_update:
  "i < length vals \<Longrightarrow>
   int (psum (vals[i := v]) k) = int (psum vals k) + (if i < k then int v - int (vals ! i) else 0)"
proof (induction k)
  case 0
  show ?case by simp
next
  case (Suc k)
  show ?case
  proof (cases "k < length vals")
    case True
    with Suc show ?thesis by (auto simp: psum_Suc nth_list_update less_Suc_eq)
  next
    case False
    then have "psum (vals[i := v]) (Suc k) = psum (vals[i := v]) k"
      and "psum vals (Suc k) = psum vals k"
      by (simp_all add: psum_all)
    with Suc False show ?thesis by auto
  qed
qed

subsection \<open>Prefix sums\<close>

lemma fw_prefix_loop_sum:
  assumes "length tr = n + 1" and "\<And>k. 1 \<le> k \<Longrightarrow> k \<le> n \<Longrightarrow> tr ! k = of_nat (fw_node vals k)"
  shows "k \<le> n \<Longrightarrow> fw_prefix_loop tr (int k) s = Some (s + of_nat (psum vals k))"
proof (induction k arbitrary: s rule: less_induct)
  case (less k)
  show ?case
  proof (cases "k = 0")
    case True
    then show ?thesis by (simp add: fw_prefix_loop.simps)
  next
    case False
    then have k: "0 < k" by simp
    have step: "int k - (int k AND - int k) = int (k - lbit k)"
      using lbit_bounds [OF k] by (simp add: and_neg_lbit)
    have "fw_prefix_loop tr (int k) s = fw_prefix_loop tr (int (k - lbit k)) (s + tr ! k)"
      using k less.prems assms(1) by (subst fw_prefix_loop.simps) (simp add: step)
    also have "\<dots> = Some (s + tr ! k + of_nat (psum vals (k - lbit k)))"
      using less.IH [of "k - lbit k"] lbit_bounds [OF k] less.prems k by simp
    finally show ?thesis using less.prems k
      by (simp add: assms(2) psum_node [OF k])
  qed
qed

lemma fwTreePrefixSum_psum:
  assumes "fw_inv ft vals" and "0 \<le> idx"
  shows "fwTreePrefixSum (Some ft) idx = Some (of_nat (psum vals (nat idx + 1)))"
proof (cases "idx \<ge> size ft")
  case True
  have "int (2 ^ size_bits ft) \<le> idx" using True assms(1) by (simp add: fw_inv_def)
  then have "2 ^ size_bits ft \<le> nat idx + 1" by linarith
  have "fw_prefix_loop (tree ft) (int (2 ^ size_bits ft)) 0
      = Some (0 + of_nat (psum vals (2 ^ size_bits ft)))"
    using assms(1) by (intro fw_prefix_loop_sum) (auto simp: fw_inv_def)
  moreover have "psum vals (nat idx + 1) = sum_list vals" and "psum vals (2 ^ size_bits ft) = sum_list vals"
    using \<open>2 ^ size_bits ft \<le> nat idx + 1\<close> assms(1) by (auto simp: fw_inv_def psum_all)
  ultimately show ?thesis using assms True by (simp add: fwTreePrefixSum_def fw_inv_def)
next
  case False
  then have "idx < int (2 ^ size_bits ft)" using assms(1) by (simp add: fw_inv_def)
  then have "nat idx + 1 \<le> 2 ^ size_bits ft" using assms(2) by linarith
  then have "fw_prefix_loop (tree ft) (int (nat idx + 1)) 0 = Some (0 + of_nat (psum vals (nat idx + 1)))"
    using assms(1) by (intro fw_prefix_loop_sum) (auto simp: fw_inv_def)
  then show ?thesis using assms(2) False by (simp add: fwTreePrefixSum_def add.commute)
qed

subsection \<open>Updates\<close>

definition covers :: "nat \<Rightarrow> nat \<Rightarrow> bool" where
  "covers k i \<longleftrightarrow> k - lbit k \<le> i \<and> i < k"

lemma covers_Suc: "covers (Suc i) i"
  using lbit_bounds [of "Suc i"] by (simp add: covers_def)

lemma covers_next: "covers k i \<Longrightarrow> covers (k + lbit k) i"
  using lbit_parent [of k] lbit_bounds [of k] by (simp add: covers_def)

lemma covers_gap: "covers k i \<Longrightarrow> k < m \<Longrightarrow> m < k + lbit k \<Longrightarrow> \<not> covers m i"
  using lbit_between [of k m] by (simp add: covers_def)

lemma fw_node_update:
  assumes "i < length vals" and "0 < k"
  shows "int (fw_node (vals[i := v]) k)
       = int (fw_node vals k) + (if covers k i then int v - int (vals ! i) else 0)"
proof -
  have eq: "int (fw_node vs k) = int (psum vs k) - int (psum vs (k - lbit k))" for vs
    by (simp add: fw_node_def psum_mono of_nat_diff)
  have "k - lbit k < k" using lbit_bounds [OF assms(2)] by simp
  then show ?thesis unfolding eq psum_update [OF assms(1)] by (auto simp: covers_def)
qed

lemma fw_update_loop_covers:
  assumes "length tr = Suc n" and "covers k i" and "n \<le> 2 ^ 29" and "- (2 ^ 63) < delta"
    and "delta < 0 \<longrightarrow> (\<forall>m. k \<le> m \<and> m \<le> n \<and> covers m i \<longrightarrow> - delta \<le> uint (tr ! m))"
  shows "\<exists>tr'. fw_update_loop tr (int n) (int k) delta = Some tr' \<and> length tr' = Suc n \<and>
      (\<forall>m. tr' ! m = tr ! m + (if k \<le> m \<and> m \<le> n \<and> covers m i then word_of_int delta else 0))"
  using assms
proof (induction "Suc n - k" arbitrary: tr k rule: less_induct)
  case less
  have k: "0 < k" using less.prems(2) by (simp add: covers_def)
  note lb = lbit_bounds [OF k]
  show ?case
  proof (cases "k \<le> n")
    case False
    then have "fw_update_loop tr (int n) (int k) delta = Some tr"
      by (subst fw_update_loop.simps) simp
    with less.prems(1) False show ?thesis by auto
  next
    case True
    let ?tr = "tr[k := tr ! k + word_of_int delta]"
    have guard: "\<not> (delta < 0 \<and> (delta = - (2 ^ 63) \<or> uint (tr ! k) < - delta))"
      using less.prems(2,4,5) True by force
    have "k + lbit k \<le> 2 ^ 30" using lb True less.prems(3) by simp
    then have room: "\<not> int (k + lbit k) \<ge> 2 ^ 31" by simp
    have eq: "fw_update_loop tr (int n) (int k) delta
        = fw_update_loop ?tr (int n) (int (k + lbit k)) delta"
      using True k guard room less.prems(1) by (subst fw_update_loop.simps) (auto simp: and_neg_lbit)
    have "\<exists>tr'. fw_update_loop ?tr (int n) (int (k + lbit k)) delta = Some tr' \<and>
        length tr' = Suc n \<and>
        (\<forall>m. tr' ! m = ?tr ! m
           + (if k + lbit k \<le> m \<and> m \<le> n \<and> covers m i then word_of_int delta else 0))"
    proof (rule less.hyps)
      show "Suc n - (k + lbit k) < Suc n - k" using True lb by simp
      show "length ?tr = Suc n" using less.prems(1) by simp
      show "covers (k + lbit k) i" using less.prems(2) by (rule covers_next)
      show "delta < 0 \<longrightarrow>
          (\<forall>m. k + lbit k \<le> m \<and> m \<le> n \<and> covers m i \<longrightarrow> - delta \<le> uint (?tr ! m))"
        using less.prems(5) lb by auto
    qed (use less.prems(3,4) in simp_all)
    then obtain tr' where tr': "fw_update_loop ?tr (int n) (int (k + lbit k)) delta = Some tr'"
      "length tr' = Suc n"
      "\<And>m. tr' ! m = ?tr ! m
           + (if k + lbit k \<le> m \<and> m \<le> n \<and> covers m i then word_of_int delta else 0)"
      by blast
    have "tr' ! m = tr ! m + (if k \<le> m \<and> m \<le> n \<and> covers m i then word_of_int delta else 0)" for m
    proof (cases "m = k")
      case True
      with \<open>k \<le> n\<close> tr'(3) [of m] less.prems(1,2) lb show ?thesis by simp
    next
      case False
      then show ?thesis using tr'(3) [of m] covers_gap [OF less.prems(2), of m] lb by force
    qed
    with eq tr'(1,2) show ?thesis by auto
  qed
qed

lemma fwTreeUpdate_inv:
  assumes inv: "fw_inv ft vals" and i: "i < length vals"
    and nonneg: "0 \<le> int (vals ! i) + delta"
    and fits: "int (sum_list vals) + delta < 2 ^ 64"
    and bits: "size_bits ft < 30" and delta: "- (2 ^ 63) < delta"
  shows "\<exists>ft'. fwTreeUpdate (Some ft) (int i) delta = Some (Some ft') \<and>
      size_bits ft' = size_bits ft \<and> fw_inv ft' (vals[i := nat (int (vals ! i) + delta)])"
proof -
  let ?n = "2 ^ size_bits ft" and ?vals = "vals[i := nat (int (vals ! i) + delta)]"
  have n: "length vals = ?n" "size ft = int ?n" "length (tree ft) = Suc ?n"
    "\<And>k. 1 \<le> k \<Longrightarrow> k \<le> ?n \<Longrightarrow> tree ft ! k = of_nat (fw_node vals k)"
    "sum_list vals < 2 ^ 64" "total ft = of_nat (sum_list vals)"
    using inv by (auto simp: fw_inv_def)
  have small_tree: "?n \<le> (2 :: nat) ^ 29" using bits by (intro power_increasing) simp_all
  have small: "fw_node vals k < 2 ^ 64" for k
    using psum_le [of vals k] n(5) by (simp add: fw_node_def)
  have node: "int (fw_node ?vals k) = int (fw_node vals k) + (if covers k i then delta else 0)"
    if "0 < k" for k
    using fw_node_update [OF i that] nonneg by simp
  have guard: "- delta \<le> uint (tree ft ! m)" if "m \<le> ?n" "covers m i" for m
  proof -
    have m: "0 < m" using that(2) by (simp add: covers_def)
    then have "uint (tree ft ! m) = int (fw_node vals m)"
      using n(4) [of m] that(1) small [of m] by (simp add: uint_nat unat_of_nat)
    then show ?thesis using node [OF m] that(2) by simp
  qed
  obtain tr' where tr': "fw_update_loop (tree ft) (int ?n) (int (Suc i)) delta = Some tr'"
    "length tr' = Suc ?n"
    "\<And>m. tr' ! m = tree ft ! m
       + (if Suc i \<le> m \<and> m \<le> ?n \<and> covers m i then word_of_int delta else 0)"
    using fw_update_loop_covers [OF n(3) covers_Suc [of i] small_tree delta] guard by blast
  let ?ft = "ft\<lparr>tree := tr', total := total ft + word_of_int delta\<rparr>"
  have sum: "int (sum_list ?vals) = int (sum_list vals) + delta"
    using psum_update [OF i, of "nat (int (vals ! i) + delta)" "length vals"] i nonneg
    by (simp add: psum_all)
  have word: "of_nat a + word_of_int delta = (of_nat b :: u64)"
    if "int b = int a + delta" for a b
    by (metis that of_int_add of_int_of_nat_eq)
  have "tr' ! k = of_nat (fw_node ?vals k)" if "1 \<le> k" "k \<le> ?n" for k
    using that tr'(3) [of k] n(4) [OF that] node [of k] word [of "fw_node ?vals k" "fw_node vals k"]
    by (auto simp: covers_def)
  moreover have "sum_list ?vals < 2 ^ 64" using sum fits by (simp flip: of_nat_less_iff [where 'a=int])
  ultimately have "fw_inv ?ft ?vals"
    using n tr'(2) word [OF sum] by (auto simp: fw_inv_def)
  moreover have "fwTreeUpdate (Some ft) (int i) delta = Some (Some ?ft)"
    using tr'(1) i n(1,2) by (simp add: fwTreeUpdate_def add.commute)
  ultimately show ?thesis by (intro exI [of _ ?ft]) simp
qed

text \<open>With \<open>2 ^ 30\<close> elements the loop always arrives at the last node, whose successor overflows.\<close>

lemma fw_update_loop_overflow:
  assumes "0 < k" "k \<le> 2 ^ 30"
  shows "fw_update_loop tr (2 ^ 30) (int k) delta = None"
  using assms
proof (induction "2 ^ 30 - k" arbitrary: tr k rule: less_induct)
  case less
  note lb = lbit_bounds [OF less.prems(1)]
  show ?case
  proof (cases "k = 2 ^ 30")
    case True
    then have "lbit k = 2 ^ 30" by (simp only: lbit_two_pow)
    with True show ?thesis by (subst fw_update_loop.simps) (simp add: and_neg_lbit)
  next
    case False
    then have k: "k < 2 ^ 30" using less.prems(2) by simp
    have "k + lbit k \<le> 2 ^ 30"
      using lbit_between [OF less.prems(1) k] less.prems(1) by (metis diff_self_eq_0 lbit_two_pow leI not_less_eq_eq not_gr_zero le_zero_eq)
    then have "fw_update_loop tr' (2 ^ 30) (int (k + lbit k)) delta = None" for tr'
      using k lb less.prems(1) by (intro less.hyps) simp_all
    then show ?thesis using less.prems(1) k by (subst fw_update_loop.simps) (simp add: and_neg_lbit)
  qed
qed

subsection \<open>Searching by rank\<close>

lemma fw_find_step:
  assumes len: "length tr = 2 ^ B + 1" and sum: "sum_list vals < 2 ^ 64"
    and node: "\<And>k. 1 \<le> k \<Longrightarrow> k \<le> 2 ^ B \<Longrightarrow> tr ! k = of_nat (fw_node vals k)"
    and res: "result = 2 ^ Suc b * a" and cur: "result + 2 ^ b \<le> 2 ^ B"
  shows "\<exists>nd. psum vals (result + 2 ^ b) = psum vals result + nd \<and>
      fw_find_loop tr (2 ^ b) result target =
        (if nd < unat target
         then fw_find_loop tr (2 ^ b div 2) (result + 2 ^ b) (target - of_nat nd)
         else fw_find_loop tr (2 ^ b div 2) result target) \<and>
      (nd < unat target \<longrightarrow> unat (target - of_nat nd :: u64) = unat target - nd)"
proof -
  let ?c = "result + 2 ^ b"
  have c: "?c = 2 ^ b * (2 * a + 1)" by (simp add: res algebra_simps)
  have lb: "lbit ?c = 2 ^ b" unfolding c by (rule lbit_pow)
  have pos: "1 \<le> ?c" by (simp add: Suc_le_eq)
  have nd: "psum vals ?c = psum vals result + fw_node vals ?c"
    using psum_node [of ?c vals] lb by simp
  have "fw_node vals ?c < 2 ^ 64" using psum_le [of vals ?c] sum nd by simp
  then have u: "unat (of_nat (fw_node vals ?c) :: u64) = fw_node vals ?c"
    by (simp add: unat_of_nat)
  have less: "of_nat (fw_node vals ?c) < target \<longleftrightarrow> fw_node vals ?c < unat target"
    using u by (simp add: word_less_nat_alt)
  have sub: "unat (target - of_nat (fw_node vals ?c)) = unat target - fw_node vals ?c"
    if "fw_node vals ?c < unat target"
    using that u less by (subst unat_sub) (simp_all add: order.strict_implies_order)
  have "fw_find_loop tr (2 ^ b) result target =
        (if fw_node vals ?c < unat target
         then fw_find_loop tr (2 ^ b div 2) ?c (target - of_nat (fw_node vals ?c))
         else fw_find_loop tr (2 ^ b div 2) result target)"
    using len cur node [OF pos cur] less by (subst fw_find_loop.simps) (simp add: Let_def)
  with nd sub show ?thesis by blast
qed

lemma pow2_gap:
  assumes "2 ^ Suc (Suc b) * a + 2 ^ Suc b < (2::nat) ^ B"
  shows "2 ^ Suc (Suc b) * a + 2 ^ Suc b + 2 ^ b \<le> (2::nat) ^ B"
proof -
  have "(2::nat) ^ Suc b \<le> 2 ^ B" using assms by linarith
  then have "Suc b \<le> B" by (rule power_le_imp_le_exp [rotated]) simp
  then obtain c where c: "(2::nat) ^ B = 2 ^ Suc b * c" by (metis le_imp_power_dvd dvdE)
  have "2 ^ Suc (Suc b) * a + 2 ^ Suc b = 2 ^ Suc b * (2 * a + 1)" by (simp add: algebra_simps)
  then have "2 * a + 1 < c" using assms unfolding c by (metis mult_less_cancel1)
  then have "2 ^ Suc b * (2 * a + 2) \<le> 2 ^ Suc b * c" by (intro mult_le_mono2) simp
  then show ?thesis unfolding c by (simp add: algebra_simps)
qed

lemma fw_find_loop_least:
  assumes len: "length tr = 2 ^ B + 1" and vals: "length vals = 2 ^ B" "sum_list vals < 2 ^ 64"
    and node: "\<And>k. 1 \<le> k \<Longrightarrow> k \<le> 2 ^ B \<Longrightarrow> tr ! k = of_nat (fw_node vals k)"
  shows "\<lbrakk>0 < unat target; result = 2 ^ Suc b * a; T = psum vals result + unat target;
      T \<le> psum vals (result + 2 ^ Suc b); result + 2 ^ b \<le> 2 ^ B; T \<le> sum_list vals\<rbrakk>
    \<Longrightarrow> \<exists>r. fw_find_loop tr (2 ^ b) result target = Some r \<and>
          psum vals r < T \<and> T \<le> psum vals (Suc r)"
proof (induction b arbitrary: result target a)
  case (0 result target a)
  obtain nd where nd: "psum vals (result + 1) = psum vals result + nd"
    "fw_find_loop tr 1 result target =
       (if nd < unat target then fw_find_loop tr 0 (result + 1) (target - of_nat nd)
        else fw_find_loop tr 0 result target)"
    using fw_find_step [OF len vals(2) node 0(2), of target] 0(5) by auto
  show ?case using 0 nd by (auto simp: fw_find_loop.simps [of _ 0])
next
  case (Suc b result target a)
  obtain nd where nd: "psum vals (result + 2 ^ Suc b) = psum vals result + nd"
    "fw_find_loop tr (2 ^ Suc b) result target =
       (if nd < unat target then fw_find_loop tr (2 ^ b) (result + 2 ^ Suc b) (target - of_nat nd)
        else fw_find_loop tr (2 ^ b) result target)"
    "nd < unat target \<Longrightarrow> unat (target - of_nat nd) = unat target - nd"
    using fw_find_step [OF len vals(2) node Suc.prems(2), of target] Suc.prems(5) by auto
  show ?case
  proof (cases "nd < unat target")
    case True
    have "\<not> 2 ^ B \<le> result + 2 ^ Suc b"
    proof
      assume "2 ^ B \<le> result + 2 ^ Suc b"
      then have "psum vals (result + 2 ^ Suc b) = sum_list vals" using vals(1) by (simp add: psum_all)
      with nd(1) True Suc.prems(3,6) show False by simp
    qed
    then have room: "result + 2 ^ Suc b + 2 ^ b \<le> 2 ^ B"
      unfolding Suc.prems(2) using pow2_gap [of b a B] Suc.prems(2,5) by simp
    have "\<exists>r. fw_find_loop tr (2 ^ b) (result + 2 ^ Suc b) (target - of_nat nd) = Some r \<and>
        psum vals r < T \<and> T \<le> psum vals (Suc r)"
    proof (rule Suc.IH)
      show "result + 2 ^ Suc b = 2 ^ Suc b * (2 * a + 1)" by (simp add: Suc.prems(2) algebra_simps)
      show "T \<le> psum vals (result + 2 ^ Suc b + 2 ^ Suc b)"
        using Suc.prems(4) by (simp add: add.assoc)
    qed (use True nd room Suc.prems in simp_all)
    then show ?thesis using True by (simp add: nd(2) del: power_Suc)
  next
    case False
    have "\<exists>r. fw_find_loop tr (2 ^ b) result target = Some r \<and>
        psum vals r < T \<and> T \<le> psum vals (Suc r)"
    proof (rule Suc.IH)
      show "result = 2 ^ Suc b * (2 * a)" by (simp add: Suc.prems(2))
    qed (use False nd Suc.prems in simp_all)
    then show ?thesis using False by (simp add: nd(2) del: power_Suc)
  qed
qed


lemma fwTreeFindIndex_least:
  assumes inv: "fw_inv ft vals" and t: "0 < t" "t \<le> sum_list vals"
  shows "\<exists>r. fwTreeFindIndex ft (of_nat t) = Some r \<and> r < length vals \<and>
      psum vals r < t \<and> t \<le> psum vals (Suc r)"
proof -
  let ?B = "size_bits ft"
  have n: "length vals = 2 ^ ?B" "length (tree ft) = 2 ^ ?B + 1" "sum_list vals < 2 ^ 64"
    "\<And>k. 1 \<le> k \<Longrightarrow> k \<le> 2 ^ ?B \<Longrightarrow> tree ft ! k = of_nat (fw_node vals k)"
    using inv by (auto simp: fw_inv_def)
  have u: "unat (of_nat t :: u64) = t" using t n(3) by (simp add: unat_of_nat)
  have all: "psum vals (2 ^ Suc ?B) = sum_list vals" using n(1) by (intro psum_all) simp
  obtain r where r: "fw_find_loop (tree ft) (2 ^ ?B) 0 (of_nat t) = Some r"
      "psum vals r < t" "t \<le> psum vals (Suc r)"
    using fw_find_loop_least [OF n(2,1,3,4), of "of_nat t" 0 ?B 0 t] t u all by auto
  have "r < length vals"
  proof (rule ccontr)
    assume "\<not> r < length vals"
    then have "psum vals r = sum_list vals" by (simp add: psum_all)
    with r(2) t(2) show False by simp
  qed
  moreover have "\<not> (of_nat t :: u64) \<le> 0" using u t(1) by (auto simp: word_le_nat_alt)
  ultimately show ?thesis using r by (auto simp: fwTreeFindIndex_def)
qed

lemma psum_next_least:
  assumes r: "r < length vals" "psum vals r \<le> psum vals (Suc i)" "psum vals (Suc i) < psum vals (Suc r)"
  shows "(LEAST j. i < j \<and> j < length vals \<and> 0 < vals ! j) = r \<and> i < r \<and> 0 < vals ! r"
proof -
  have i: "i < r" using r(3) psum_mono [of "Suc r" "Suc i" vals] by (meson Suc_le_mono leD leI)
  have pos: "0 < vals ! r" using r psum_Suc [of r vals] by simp
  have "r \<le> j" if j: "i < j" "j < length vals" "0 < vals ! j" for j
  proof (rule ccontr)
    assume "\<not> r \<le> j"
    then have "psum vals (Suc j) \<le> psum vals r" by (intro psum_mono) simp
    moreover have "psum vals (Suc i) \<le> psum vals j" using j(1) by (intro psum_mono) simp
    ultimately show False using psum_Suc [OF j(2)] j(3) r(2) by simp
  qed
  then have "(LEAST j. i < j \<and> j < length vals \<and> 0 < vals ! j) = r"
    using i pos r(1) by (intro Least_equality) auto
  with i pos show ?thesis by simp
qed

lemma fwTreeFindNextNonEmpty_next:
  assumes inv: "fw_inv ft vals" and i: "i < length vals" and room: "sum_list vals + 1 < 2 ^ 64"
  shows "fwTreeFindNextNonEmpty (Some ft) (int i) =
      Some (if \<exists>j. i < j \<and> j < length vals \<and> 0 < vals ! j
            then int (LEAST j. i < j \<and> j < length vals \<and> 0 < vals ! j) else -1)"
proof -
  have bounds: "psum vals (Suc i) \<le> sum_list vals" "sum_list vals < 2 ^ 64"
    using psum_le inv by (auto simp: fw_inv_def)
  have n: "int i < size ft" "total ft = of_nat (sum_list vals)"
    using inv i by (auto simp: fw_inv_def)
  have "fwTreePrefixSum (Some ft) (int i) = Some (of_nat (psum vals (Suc i)))"
    using fwTreePrefixSum_psum [OF inv, of "int i"] by simp
  then have eq: "fwTreeFindNextNonEmpty (Some ft) (int i) =
      (if of_nat (Suc (psum vals (Suc i))) \<le> total ft
       then map_option int (fwTreeFindIndex ft (of_nat (Suc (psum vals (Suc i))))) else Some (-1))"
    using n(1) by (simp add: fwTreeFindNextNonEmpty_def add.commute)
  have le: "of_nat (Suc (psum vals (Suc i))) \<le> total ft \<longleftrightarrow> psum vals (Suc i) < sum_list vals"
  proof -
    have "Suc (psum vals (Suc i)) < 2 ^ 64" using bounds(1) room by simp
    then have "unat (of_nat (Suc (psum vals (Suc i))) :: u64) = Suc (psum vals (Suc i))"
      by (simp add: unat_of_nat del: of_nat_Suc)
    then show ?thesis using bounds n(2) by (simp add: word_le_nat_alt unat_of_nat Suc_le_eq del: of_nat_Suc)
  qed
  show ?thesis
  proof (cases "psum vals (Suc i) < sum_list vals")
    case True
    then obtain r where r: "fwTreeFindIndex ft (of_nat (Suc (psum vals (Suc i)))) = Some r"
      "r < length vals" "psum vals r \<le> psum vals (Suc i)" "psum vals (Suc i) < psum vals (Suc r)"
      using fwTreeFindIndex_least [OF inv, of "Suc (psum vals (Suc i))"] by auto
    have "(LEAST j. i < j \<and> j < length vals \<and> 0 < vals ! j) = r \<and> i < r \<and> 0 < vals ! r"
      using psum_next_least [OF r(2-4)] .
    with r True eq le show ?thesis by auto
  next
    case False
    have "\<not> (i < j \<and> j < length vals \<and> 0 < vals ! j)" for j
      using False psum_mono [of "Suc i" j vals] psum_Suc [of j vals] psum_le [of vals "Suc j"] by force
    with False eq le show ?thesis by auto
  qed
qed

lemma fwTreeCreate_inv:
  assumes "b \<le> 30"
  shows "\<exists>ft. fwTreeCreate b = Some ft \<and> size_bits ft = b \<and> fw_inv ft (replicate (2 ^ b) 0)"
proof -
  have "(2 :: int) ^ b \<le> 2 ^ 30" using assms by (intro power_increasing) simp_all
  then have "(2 :: int) ^ b < 2147483648" by simp
  moreover have "(- 2147483648 :: int) \<le> 2 ^ b" by (rule order_trans [of _ 0]) simp_all
  ultimately have "c_int (2 ^ b) = Some (2 ^ b)" by (simp add: c_int_def)
  then show ?thesis
    by (simp add: fw_inv_def fwTreeCreate_def fw_node_def psum_def sum_list_replicate nth_append nat_power_eq
        del: replicate_Suc)
qed

lemma fwTreeClear_inv: "fw_inv ft vals \<Longrightarrow> fw_inv (fwTreeClear ft) (replicate (length vals) 0)"
  by (auto simp: fw_inv_def fwTreeClear_def fw_node_def psum_def sum_list_replicate nat_power_eq
      nth_replicate simp del: replicate_Suc)

definition fw_example :: fenwickTree where
  "fw_example = \<lparr>tree = [0, 5, 5, 3, 8], size_bits = 2, size = 4, total = 8\<rparr>"

lemma fw_example_inv: "fw_inv fw_example [5, 0, 3, 0]"
proof -
  have "tree fw_example ! k = of_nat (fw_node [5, 0, 3, 0] k)" if "1 \<le> k" "k \<le> 4" for k
  proof -
    from that consider "k = 1" | "k = 2" | "k = 3" | "k = 4" by linarith
    then show ?thesis by cases (simp_all add: fw_example_def fw_node_def psum_def lbit_def)
  qed
  then show ?thesis by (simp add: fw_inv_def fw_example_def)
qed

subsection \<open>Properties\<close>

text \<open>
  C6: \<^verbatim>\<open>fwTreePrefixSum\<close> returns the sum of the counters from 0 to the index (the last one when
  the index is past the end), and reads only inside the tree.
\<close>

theorem fwTreePrefixSum_correct:
  assumes "fw_inv ft vals" and "0 \<le> idx"
  shows "fwTreePrefixSum (Some ft) idx = Some (of_nat (sum_list (take (nat idx + 1) vals)))"
  using fwTreePrefixSum_psum [OF assms] by (simp add: psum_def)

theorem fwTreePrefixSum_correct_witness:
  "fwTreePrefixSum (Some fw_example) 2 = Some 8"
  using fwTreePrefixSum_correct [OF fw_example_inv, of 2] by (simp add: numeral_eq_Suc)

text \<open>
  C5: on a tree of fewer than \<open>2 ^ 30\<close> counters, \<^verbatim>\<open>fwTreeUpdate\<close> with a delta other than \<^verbatim>\<open>LLONG_MIN\<close> that
  keeps the counter non-negative and the total below \<open>2 ^ 64\<close> passes its assertions, overflows no index and
  changes exactly that counter.
\<close>

theorem fwTreeUpdate_correct:
  assumes "fw_inv ft vals" and "i < length vals" and "0 \<le> int (vals ! i) + delta"
    and "int (sum_list vals) + delta < 2 ^ 64" and "size_bits ft < 30" and "- (2 ^ 63) < delta"
  shows "\<exists>ft'. fwTreeUpdate (Some ft) (int i) delta = Some (Some ft') \<and>
    size_bits ft' = size_bits ft \<and> fw_inv ft' (vals[i := nat (int (vals ! i) + delta)])"
  using assms by (rule fwTreeUpdate_inv)

theorem fwTreeUpdate_correct_witness:
  "\<exists>ft'. fwTreeUpdate (Some fw_example) 2 (-1) = Some (Some ft') \<and> fw_inv ft' [5, 0, 2, 0]"
  using fwTreeUpdate_correct [OF fw_example_inv, of 2 "-1"] by (auto simp: fw_example_def)

text \<open>
  C7: For a target between 1 and the total, \<^verbatim>\<open>fwTreeFindIndex\<close> returns the index whose counter
  holds the target-th unit: the sum before it is below the target, the sum through it is not.
\<close>

theorem fwTreeFindIndex_correct:
  assumes "fw_inv ft vals" and "0 < t" and "t \<le> sum_list vals"
  shows "\<exists>r. fwTreeFindIndex ft (of_nat t) = Some r \<and> r < length vals \<and>
    sum_list (take r vals) < t \<and> t \<le> sum_list (take (Suc r) vals)"
  using fwTreeFindIndex_least [OF assms] by (simp add: psum_def)

theorem fwTreeFindIndex_correct_witness:
  "\<exists>r. fwTreeFindIndex fw_example 6 = Some r \<and> sum_list (take r [5, 0, 3, 0]) < (6::nat) \<and>
    (6::nat) \<le> sum_list (take (Suc r) [5, 0, 3, 0])"
  using fwTreeFindIndex_correct [OF fw_example_inv, of 6] by auto

text \<open>
  C8: \<^verbatim>\<open>fwTreeFindNextNonEmpty\<close> returns the least index after the given one whose counter is
  not zero, and \<^verbatim>\<open>-1\<close> when there is none.
\<close>

theorem fwTreeFindNextNonEmpty_correct:
  assumes "fw_inv ft vals" and "i < length vals" and "sum_list vals + 1 < 2 ^ 64"
  shows "fwTreeFindNextNonEmpty (Some ft) (int i) =
    Some (if \<exists>j. i < j \<and> j < length vals \<and> 0 < vals ! j
          then int (LEAST j. i < j \<and> j < length vals \<and> 0 < vals ! j) else -1)"
  using assms by (rule fwTreeFindNextNonEmpty_next)

theorem fwTreeFindNextNonEmpty_correct_witness:
  "fwTreeFindNextNonEmpty (Some fw_example) 2 =
    Some (if \<exists>j. 2 < j \<and> j < length [5, 0, 3, 0 :: nat] \<and> 0 < [5, 0, 3, 0 :: nat] ! j
          then int (LEAST j. 2 < j \<and> j < length [5, 0, 3, 0 :: nat] \<and> 0 < [5, 0, 3, 0 :: nat] ! j) else -1)"
  using fwTreeFindNextNonEmpty_correct [OF fw_example_inv, of 2] by simp

end
