(* ===== verification/Kvstore.thy ===== *)
theory Kvstore
  imports Dict_Iter Fwtree
begin

text \<open>
  \<^verbatim>\<open>src/redis-stable/src/kvstore.c\<close>: an array of dicts with the number of keys per dict in a Fenwick tree,
  a list of the dicts that are rehashing, and counters.

  A dict of the array is \<^term>\<open>None\<close> where the pointer is NULL. The callbacks of a dict reach the store as the
  events that a dict operation adds to its log. The list of the rehashing dicts (\<^verbatim>\<open>adlist.c\<close>) holds
  their indices. The outer \<^term>\<open>None\<close> is a failing assertion or an access outside an array. The metadata of
  the store and of its dicts, with the callbacks \<^verbatim>\<open>onDictEmpty\<close> and \<^verbatim>\<open>onKvstoreEmpty\<close>, belong to the users
  of the store and are left out; \<open>cf\<close> is \<^verbatim>\<open>canFreeDict\<close>.
\<close>

record ('k, 'v) kvstore =
  on_demand :: bool
  free_empty :: bool
  dicts :: "('k, 'v) dict option list"
  num_dicts_bits :: nat
  rehashing :: "nat list"
  resize_cursor :: nat
  allocated_dicts :: int
  non_empty_dicts :: int
  key_count :: u64
  bucket_total :: u64
  dict_sizes :: "fenwickTree option"
  overhead_rehashing :: u64

definition num_dicts :: "('k, 'v) kvstore \<Rightarrow> nat" where
  "num_dicts kvs = 2 ^ num_dicts_bits kvs"

section \<open>Helpers\<close>

definition kvstoreGetDict :: "('k, 'v) kvstore \<Rightarrow> nat \<Rightarrow> ('k, 'v) dict option option" where
  "kvstoreGetDict kvs didx = (if didx < length (dicts kvs) then Some (dicts kvs ! didx) else None)"

definition dict_size :: "('k, 'v) dict option \<Rightarrow> nat" where
  "dict_size d = (case d of None \<Rightarrow> 0 | Some d \<Rightarrow> dictSize d)"

definition kvstoreDictSize :: "('k, 'v) kvstore \<Rightarrow> nat \<Rightarrow> nat option" where
  "kvstoreDictSize kvs didx = map_option dict_size (kvstoreGetDict kvs didx)"

definition addDictIndexToCursor :: "('k, 'v) kvstore \<Rightarrow> int \<Rightarrow> u64 \<Rightarrow> u64" where
  "addDictIndexToCursor kvs didx cursor =
     (if num_dicts kvs = 1 \<or> didx < 0 then cursor
      else push_bit (num_dicts_bits kvs) cursor OR word_of_int didx)"

definition getAndClearDictIndexFromCursor :: "('k, 'v) kvstore \<Rightarrow> u64 \<Rightarrow> nat \<times> u64" where
  "getAndClearDictIndexFromCursor kvs cursor =
     (if num_dicts kvs = 1 then (0, cursor)
      else (unat (cursor AND (of_nat (num_dicts kvs) - 1)), drop_bit (num_dicts_bits kvs) cursor))"

definition cumulativeKeyCountAdd :: "('k, 'v) kvstore \<Rightarrow> nat \<Rightarrow> int \<Rightarrow> ('k, 'v) kvstore option" where
  "cumulativeKeyCountAdd kvs didx delta = do {
     let kvs = kvs\<lparr>key_count := key_count kvs + word_of_int delta\<rparr>;
     d \<leftarrow> kvstoreGetDict kvs didx;
     d \<leftarrow> d;
     let dsize = dictSize d;
     let ne_delta = (if dsize = 1 \<and> delta > 0 then 1 else if dsize = 0 then -1 else 0);
     let kvs = kvs\<lparr>non_empty_dicts := non_empty_dicts kvs + ne_delta\<rparr>;
     if num_dicts kvs = 1 then Some kvs
     else do {
       ft \<leftarrow> fwTreeUpdate (dict_sizes kvs) (int didx) delta;
       Some (kvs\<lparr>dict_sizes := ft\<rparr>)
     }
   }"

definition createDictIfNeeded :: "('k, 'v) kvstore \<Rightarrow> nat \<Rightarrow> (('k, 'v) kvstore \<times> ('k, 'v) dict) option" where
  "createDictIfNeeded kvs didx = do {
     d \<leftarrow> kvstoreGetDict kvs didx;
     (case d of
        Some d \<Rightarrow> Some (kvs, d)
      | None \<Rightarrow> Some (kvs\<lparr>dicts := (dicts kvs)[didx := Some dictCreate], allocated_dicts := allocated_dicts kvs + 1\<rparr>, dictCreate))
   }"

section \<open>Callbacks of the dicts\<close>

text \<open>\<^verbatim>\<open>kvstoreDictRehashingStarted\<close>, \<^verbatim>\<open>kvstoreDictRehashingCompleted\<close> and \<^verbatim>\<open>kvstoreDictBucketChanged\<close>.\<close>

fun kvstore_callback :: "nat \<Rightarrow> dict_event \<Rightarrow> ('k, 'v) kvstore \<Rightarrow> ('k, 'v) kvstore" where
  "kvstore_callback didx (RehashingStarted from_size) kvs =
     kvs\<lparr>rehashing := rehashing kvs @ [didx], overhead_rehashing := overhead_rehashing kvs + of_nat from_size\<rparr>"
| "kvstore_callback didx (RehashingCompleted from_size) kvs =
     kvs\<lparr>rehashing := remove1 didx (rehashing kvs), overhead_rehashing := overhead_rehashing kvs - of_nat from_size\<rparr>"
| "kvstore_callback didx (BucketChanged delta) kvs = kvs\<lparr>bucket_total := bucket_total kvs + word_of_int delta\<rparr>"

definition run_callbacks :: "nat \<Rightarrow> dict_event list \<Rightarrow> ('k, 'v) kvstore \<Rightarrow> ('k, 'v) kvstore" where
  "run_callbacks didx evs kvs = fold (kvstore_callback didx) evs kvs"

text \<open>The store after an operation that took the dict \<open>d\<close> at \<open>didx\<close> to \<open>d'\<close>.\<close>

definition put_dict :: "('k, 'v) kvstore \<Rightarrow> nat \<Rightarrow> ('k, 'v) dict \<Rightarrow> ('k, 'v) dict \<Rightarrow> ('k, 'v) kvstore" where
  "put_dict kvs didx d d' =
     run_callbacks didx (drop (length (callbacks d)) (callbacks d')) (kvs\<lparr>dicts := (dicts kvs)[didx := Some d']\<rparr>)"

definition freeDictIfNeeded :: "(nat \<Rightarrow> bool) \<Rightarrow> ('k, 'v) kvstore \<Rightarrow> nat \<Rightarrow> ('k, 'v) kvstore option" where
  "freeDictIfNeeded cf kvs didx = do {
     d \<leftarrow> kvstoreGetDict kvs didx;
     (case d of
        None \<Rightarrow> Some kvs
      | Some d \<Rightarrow>
          if \<not> free_empty kvs \<or> dictSize d \<noteq> 0 \<or> pauserehash d > 0 \<or> \<not> cf didx then Some kvs
          else
            let evs = drop (length (callbacks d)) (fst (dictRelease d));
                kvs = run_callbacks didx evs kvs
            in Some (kvs\<lparr>dicts := (dicts kvs)[didx := None], allocated_dicts := allocated_dicts kvs - 1\<rparr>))
   }"

section \<open>The store\<close>

fun create_dicts :: "nat \<Rightarrow> ('k, 'v) kvstore \<Rightarrow> nat \<Rightarrow> ('k, 'v) kvstore option" where
  "create_dicts i kvs 0 = Some kvs"
| "create_dicts i kvs (Suc n) = do {
     (kvs, _) \<leftarrow> createDictIfNeeded kvs i;
     create_dicts (i + 1) kvs n
   }"

definition kvstoreCreate :: "nat \<Rightarrow> bool \<Rightarrow> bool \<Rightarrow> ('k, 'v) kvstore option" where
  "kvstoreCreate bits od fe =
     (if bits > 16 then None
      else do {
        let kvs = \<lparr>on_demand = od, free_empty = fe, dicts = replicate (2 ^ bits) None, num_dicts_bits = bits,
          rehashing = [], resize_cursor = 0, allocated_dicts = 0, non_empty_dicts = 0, key_count = 0, bucket_total = 0,
          dict_sizes = None, overhead_rehashing = 0\<rparr>;
        kvs \<leftarrow> (if \<not> od then create_dicts 0 kvs (num_dicts kvs) else Some kvs);
        ft \<leftarrow> (if num_dicts kvs > 1 then map_option Some (fwTreeCreate bits) else Some None);
        Some (kvs\<lparr>dict_sizes := ft\<rparr>)
      })"

text \<open>\<^verbatim>\<open>kvstoreEmpty\<close>: the rehashing nodes are cleared first, so a completed rehash leaves the list alone.\<close>

fun empty_dicts :: "(nat \<Rightarrow> bool) \<Rightarrow> nat \<Rightarrow> ('k, 'v) kvstore \<Rightarrow> nat \<Rightarrow> ('k, 'v) kvstore option" where
  "empty_dicts cf i kvs 0 = Some kvs"
| "empty_dicts cf i kvs (Suc n) = do {
     d \<leftarrow> kvstoreGetDict kvs i;
     kvs \<leftarrow> (case d of
        None \<Rightarrow> Some kvs
      | Some d \<Rightarrow>
          let nodes = rehashing kvs; kvs = put_dict kvs i d (fst (dictEmpty d))
          in freeDictIfNeeded cf (kvs\<lparr>rehashing := nodes\<rparr>) i);
     empty_dicts cf (i + 1) kvs n
   }"

definition kvstoreEmpty :: "(nat \<Rightarrow> bool) \<Rightarrow> ('k, 'v) kvstore \<Rightarrow> ('k, 'v) kvstore option" where
  "kvstoreEmpty cf kvs = do {
     kvs \<leftarrow> empty_dicts cf 0 kvs (num_dicts kvs);
     Some (kvs\<lparr>rehashing := [], key_count := 0, non_empty_dicts := 0, resize_cursor := 0, bucket_total := 0,
       dict_sizes := map_option fwTreeClear (dict_sizes kvs), overhead_rehashing := 0\<rparr>)
   }"

definition kvstoreSize :: "('k, 'v) kvstore \<Rightarrow> u64" where
  "kvstoreSize kvs = key_count kvs"

definition kvstoreBuckets :: "('k, 'v) kvstore \<Rightarrow> u64 option" where
  "kvstoreBuckets kvs =
     (if num_dicts kvs \<noteq> 1 then Some (bucket_total kvs)
      else map_option (\<lambda>d. case d of None \<Rightarrow> 0 | Some d \<Rightarrow> of_nat (dictBuckets d)) (kvstoreGetDict kvs 0))"

definition kvstoreFindDictIndexByKeyIndex :: "('k, 'v) kvstore \<Rightarrow> u64 \<Rightarrow> nat option" where
  "kvstoreFindDictIndexByKeyIndex kvs target =
     (if num_dicts kvs = 1 \<or> kvstoreSize kvs = 0 then Some 0
      else if \<not> target \<le> kvstoreSize kvs then None
      else do {
        ft \<leftarrow> dict_sizes kvs;
        fwTreeFindIndex ft target
      })"

definition kvstoreGetFirstNonEmptyDictIndex :: "('k, 'v) kvstore \<Rightarrow> int option" where
  "kvstoreGetFirstNonEmptyDictIndex kvs =
     (if kvstoreSize kvs = 0 then Some (-1)
      else if num_dicts kvs = 1 then Some 0
      else do {
        ft \<leftarrow> dict_sizes kvs;
        map_option int (fwTreeFindFirstNonEmpty ft)
      })"

definition kvstoreGetNextNonEmptyDictIndex :: "('k, 'v) kvstore \<Rightarrow> int \<Rightarrow> int option" where
  "kvstoreGetNextNonEmptyDictIndex kvs didx =
     (if num_dicts kvs = 1 then (if didx = 0 then Some (-1) else None)
      else fwTreeFindNextNonEmpty (dict_sizes kvs) didx)"

section \<open>Operations on one dict\<close>

definition kvstoreDictFind ::
    "dictResizeEnable \<Rightarrow> ('k, 'v) dictType \<Rightarrow> ('k, 'v) kvstore \<Rightarrow> nat \<Rightarrow> 'k \<Rightarrow>
     (('k, 'v) kvstore \<times> ('k, 'v) dictEntry option) option" where
  "kvstoreDictFind cr ty kvs didx key = do {
     d \<leftarrow> kvstoreGetDict kvs didx;
     (case d of
        None \<Rightarrow> Some (kvs, None)
      | Some d \<Rightarrow> do {
          (d', he) \<leftarrow> dictFind cr ty d key;
          Some (put_dict kvs didx d d', he)
        })
   }"

definition kvstoreDictFetchValue ::
    "dictResizeEnable \<Rightarrow> ('k, 'v) dictType \<Rightarrow> ('k, 'v) kvstore \<Rightarrow> nat \<Rightarrow> 'k \<Rightarrow>
     (('k, 'v) kvstore \<times> 'v option) option" where
  "kvstoreDictFetchValue cr ty kvs didx key = do {
     d \<leftarrow> kvstoreGetDict kvs didx;
     (case d of
        None \<Rightarrow> Some (kvs, None)
      | Some d \<Rightarrow>
          if no_value ty then None
          else do {
            (d', v) \<leftarrow> dictFetchValue cr ty d key;
            Some (put_dict kvs didx d d', v)
          })
   }"

definition kvstoreDictAddRaw ::
    "dictResizeEnable \<Rightarrow> ('k, 'v) dictType \<Rightarrow> ('k, 'v) kvstore \<Rightarrow> nat \<Rightarrow> 'k \<Rightarrow>
     (('k, 'v) kvstore \<times> (link + link)) option" where
  "kvstoreDictAddRaw cr ty kvs didx key = do {
     (kvs, d) \<leftarrow> createDictIfNeeded kvs didx;
     (d', ret) \<leftarrow> dictAddRaw cr ty d key;
     let kvs = put_dict kvs didx d d';
     (case ret of
        Inl existing \<Rightarrow> Some (kvs, Inl existing)
      | Inr l \<Rightarrow> do {
          kvs \<leftarrow> cumulativeKeyCountAdd kvs didx 1;
          Some (kvs, Inr l)
        })
   }"

definition kvstoreDictSetVal ::
    "('k, 'v) dictType \<Rightarrow> ('k, 'v) kvstore \<Rightarrow> nat \<Rightarrow> link \<Rightarrow> 'v \<Rightarrow> ('k, 'v) kvstore option" where
  "kvstoreDictSetVal ty kvs didx de v = do {
     d \<leftarrow> kvstoreGetDict kvs didx;
     d \<leftarrow> d;
     if no_value ty then None
     else do {
       d' \<leftarrow> dictSetVal d de v;
       Some (put_dict kvs didx d d')
     }
   }"

definition kvstoreDictTwoPhaseUnlinkFind ::
    "dictResizeEnable \<Rightarrow> ('k, 'v) dictType \<Rightarrow> ('k, 'v) kvstore \<Rightarrow> nat \<Rightarrow> 'k \<Rightarrow>
     (('k, 'v) kvstore \<times> link option) option" where
  "kvstoreDictTwoPhaseUnlinkFind cr ty kvs didx key = do {
     d \<leftarrow> kvstoreGetDict kvs didx;
     (case d of
        None \<Rightarrow> Some (kvs, None)
      | Some d \<Rightarrow> do {
          (d', l) \<leftarrow> dictTwoPhaseUnlinkFind cr ty d key;
          Some (put_dict kvs didx d d', l)
        })
   }"

definition kvstoreDictTwoPhaseUnlinkFree ::
    "dictResizeEnable \<Rightarrow> (nat \<Rightarrow> bool) \<Rightarrow> ('k, 'v) dictType \<Rightarrow> ('k, 'v) kvstore \<Rightarrow> nat \<Rightarrow> link option \<Rightarrow>
     ('k, 'v) kvstore option" where
  "kvstoreDictTwoPhaseUnlinkFree cr cf ty kvs didx l = do {
     d \<leftarrow> kvstoreGetDict kvs didx;
     d \<leftarrow> d;
     d' \<leftarrow> dictTwoPhaseUnlinkFree cr ty d l;
     kvs \<leftarrow> cumulativeKeyCountAdd (put_dict kvs didx d d') didx (-1);
     freeDictIfNeeded cf kvs didx
   }"

definition kvstoreDictDelete ::
    "dictResizeEnable \<Rightarrow> (nat \<Rightarrow> bool) \<Rightarrow> ('k, 'v) dictType \<Rightarrow> ('k, 'v) kvstore \<Rightarrow> nat \<Rightarrow> 'k \<Rightarrow>
     (('k, 'v) kvstore \<times> bool) option" where
  "kvstoreDictDelete cr cf ty kvs didx key = do {
     d \<leftarrow> kvstoreGetDict kvs didx;
     (case d of
        None \<Rightarrow> Some (kvs, False)
      | Some d \<Rightarrow> do {
          (d', ok) \<leftarrow> dictDelete cr ty d key;
          let kvs = put_dict kvs didx d d';
          if ok then do {
            kvs \<leftarrow> cumulativeKeyCountAdd kvs didx (-1);
            kvs \<leftarrow> freeDictIfNeeded cf kvs didx;
            Some (kvs, True)
          }
          else Some (kvs, False)
        })
   }"

definition kvstoreDictExpand ::
    "dictResizeEnable \<Rightarrow> ('k, 'v) dictType \<Rightarrow> ('k, 'v) kvstore \<Rightarrow> nat \<Rightarrow> nat \<Rightarrow> (('k, 'v) kvstore \<times> bool) option" where
  "kvstoreDictExpand cr ty kvs didx sz = do {
     (kvs, d) \<leftarrow> createDictIfNeeded kvs didx;
     (d', ok) \<leftarrow> dictExpand cr ty d sz;
     Some (put_dict kvs didx d d', ok)
   }"

section \<open>Operations on all dicts\<close>

text \<open>
  \<^verbatim>\<open>kvstoreExpand\<close>: \<open>skip\<close> is \<^verbatim>\<open>skip_cb\<close>; with \<^verbatim>\<open>try_expand\<close> set, \<open>alloc\<close> says which allocations succeed.
\<close>

fun expand_dicts ::
    "dictResizeEnable \<Rightarrow> ('k, 'v) dictType \<Rightarrow> nat \<Rightarrow> (nat \<Rightarrow> bool) option \<Rightarrow> (nat \<Rightarrow> bool) \<Rightarrow> nat \<Rightarrow> ('k, 'v) kvstore \<Rightarrow> nat \<Rightarrow>
     (('k, 'v) kvstore \<times> bool) option" where
  "expand_dicts cr ty newsize try_alloc skip i kvs 0 = Some (kvs, True)"
| "expand_dicts cr ty newsize try_alloc skip i kvs (Suc n) =
     (if skip i then expand_dicts cr ty newsize try_alloc skip (i + 1) kvs n
      else do {
        (kvs, d) \<leftarrow> createDictIfNeeded kvs i;
        (d', result) \<leftarrow> (case try_alloc of
            Some alloc \<Rightarrow> dictTryExpand cr ty (alloc i) d newsize
          | None \<Rightarrow> dictExpand cr ty d newsize);
        let kvs = put_dict kvs i d d';
        if try_alloc \<noteq> None \<and> \<not> result then Some (kvs, False)
        else expand_dicts cr ty newsize try_alloc skip (i + 1) kvs n
      })"

definition kvstoreExpand ::
    "dictResizeEnable \<Rightarrow> ('k, 'v) dictType \<Rightarrow> ('k, 'v) kvstore \<Rightarrow> nat \<Rightarrow> (nat \<Rightarrow> bool) option \<Rightarrow> (nat \<Rightarrow> bool) \<Rightarrow>
     (('k, 'v) kvstore \<times> bool) option" where
  "kvstoreExpand cr ty kvs newsize try_alloc skip = expand_dicts cr ty newsize try_alloc skip 0 kvs (num_dicts kvs)"

fun resize_dicts :: "dictResizeEnable \<Rightarrow> ('k, 'v) dictType \<Rightarrow> ('k, 'v) kvstore \<Rightarrow> nat \<Rightarrow> ('k, 'v) kvstore option" where
  "resize_dicts cr ty kvs 0 = Some kvs"
| "resize_dicts cr ty kvs (Suc n) = do {
     let didx = resize_cursor kvs;
     d \<leftarrow> kvstoreGetDict kvs didx;
     kvs \<leftarrow> (case d of
        None \<Rightarrow> Some kvs
      | Some d \<Rightarrow> do {
          (d1, ok) \<leftarrow> dictShrinkIfNeeded cr ty d;
          d2 \<leftarrow> (if \<not> ok then map_option fst (dictExpandIfNeeded cr ty d1) else Some d1);
          Some (put_dict kvs didx d d2)
        });
     resize_dicts cr ty (kvs\<lparr>resize_cursor := (didx + 1) mod num_dicts kvs\<rparr>) n
   }"

definition kvstoreTryResizeDicts ::
    "dictResizeEnable \<Rightarrow> ('k, 'v) dictType \<Rightarrow> ('k, 'v) kvstore \<Rightarrow> nat \<Rightarrow> ('k, 'v) kvstore option" where
  "kvstoreTryResizeDicts cr ty kvs limit = resize_dicts cr ty kvs (min limit (num_dicts kvs))"

text \<open>
  The loop of \<^verbatim>\<open>kvstoreIncrementallyRehash\<close>: \<open>timers\<close> has, for every turn, the clock of that turn's
  \<^verbatim>\<open>dictRehashMicroseconds\<close>; the time limit is reached when the list is used up. There is at least one turn.
\<close>

fun incr_rehash_loop ::
    "dictResizeEnable \<Rightarrow> ('k, 'v) dictType \<Rightarrow> ('k, 'v) kvstore \<Rightarrow> (nat \<Rightarrow> bool) list \<Rightarrow> ('k, 'v) kvstore option" where
  "incr_rehash_loop cr ty kvs [] = Some kvs"
| "incr_rehash_loop cr ty kvs (timer # timers) =
     (case rehashing kvs of
        [] \<Rightarrow> Some kvs
      | didx # _ \<Rightarrow> do {
          d \<leftarrow> kvstoreGetDict kvs didx;
          d \<leftarrow> d;
          (d', _) \<leftarrow> dictRehashMicroseconds cr ty timer d;
          incr_rehash_loop cr ty (put_dict kvs didx d d') timers
        })"

definition kvstoreIncrementallyRehash ::
    "dictResizeEnable \<Rightarrow> ('k, 'v) dictType \<Rightarrow> ('k, 'v) kvstore \<Rightarrow> (nat \<Rightarrow> bool) \<Rightarrow> (nat \<Rightarrow> bool) list \<Rightarrow>
     ('k, 'v) kvstore option" where
  "kvstoreIncrementallyRehash cr ty kvs timer timers =
     (if rehashing kvs = [] then Some kvs else incr_rehash_loop cr ty kvs (timer # timers))"

text \<open>
  \<^verbatim>\<open>kvstoreMoveDict\<close>. The callbacks are called directly here, and with them the store of the dict's type:
  the source before the type is changed, the destination afterwards.
\<close>

definition kvstoreMoveDict ::
    "('k, 'v) kvstore \<Rightarrow> ('k, 'v) kvstore \<Rightarrow> nat \<Rightarrow> (('k, 'v) kvstore \<times> ('k, 'v) kvstore) option" where
  "kvstoreMoveDict kvs dst didx =
     (if \<not> num_dicts kvs > didx \<or> num_dicts kvs \<noteq> num_dicts dst then None
      else do {
        dd \<leftarrow> kvstoreGetDict dst didx;
        if dd \<noteq> None then None
        else do {
          d \<leftarrow> kvstoreGetDict kvs didx;
          (case d of
             None \<Rightarrow> Some (kvs, dst)
           | Some d \<Rightarrow> do {
               let kvs = kvs\<lparr>allocated_dicts := allocated_dicts kvs - 1\<rparr>;
               kvs \<leftarrow> cumulativeKeyCountAdd kvs didx (- int (dictSize d));
               let kvs = kvstore_callback didx (BucketChanged (- int (dictBuckets d))) kvs;
               let kvs = (if dictIsRehashing d
                          then kvstore_callback didx (RehashingCompleted (DICTHT_SIZE (ht_size_exp (ht0 d)))) kvs else kvs);
               let kvs = kvs\<lparr>dicts := (dicts kvs)[didx := None]\<rparr>;
               (kvs, _) \<leftarrow> (if \<not> (on_demand kvs \<or> free_empty kvs) then createDictIfNeeded kvs didx else Some (kvs, d));
               let dst = dst\<lparr>dicts := (dicts dst)[didx := Some d], allocated_dicts := allocated_dicts dst + 1\<rparr>;
               dst \<leftarrow> cumulativeKeyCountAdd dst didx (int (dictSize d));
               let dst = kvstore_callback didx (BucketChanged (int (dictBuckets d))) dst;
               let dst = (if dictIsRehashing d
                          then kvstore_callback didx (RehashingStarted (DICTHT_SIZE (ht_size_exp (ht0 d)))) dst else dst);
               Some (kvs, dst)
             })
        }
      })"

section \<open>Scanning and random choice\<close>

text \<open>
  \<^verbatim>\<open>kvstoreScan\<close>: \<open>skip\<close> is \<^verbatim>\<open>skip_cb\<close> on the index; the callback does not change the store. The results are
  the store, the entries passed to the callback and the new cursor.
\<close>

definition kvstoreScan ::
    "(nat \<Rightarrow> bool) \<Rightarrow> (nat \<Rightarrow> bool) \<Rightarrow> ('k, 'v) kvstore \<Rightarrow> u64 \<Rightarrow> int \<Rightarrow>
     (('k, 'v) kvstore \<times> ('k, 'v) dictEntry list \<times> u64) option" where
  "kvstoreScan cf skip kvs cursor onlydidx =
     (let (didx, cursor) = getAndClearDictIndexFromCursor kvs cursor
      in if onlydidx \<ge> 0 \<and> int didx < onlydidx \<and> \<not> onlydidx < int (num_dicts kvs) then None
         else if onlydidx \<ge> 0 \<and> int didx > onlydidx then Some (kvs, [], 0)
         else do {
           let (didx, cursor) = (if onlydidx \<ge> 0 \<and> int didx < onlydidx then (nat onlydidx, 0) else (didx, cursor));
           d \<leftarrow> kvstoreGetDict kvs didx;
           let skipped = (d = None \<or> skip didx);
           (kvs, out, cur) \<leftarrow> (case d of
               Some d \<Rightarrow> if skip didx then Some (kvs, [], 0)
                 else do {
                   (out, cur) \<leftarrow> dictScan d cursor;
                   kvs \<leftarrow> freeDictIfNeeded cf kvs didx;
                   Some (kvs, out, cur)
                 }
             | None \<Rightarrow> Some (kvs, [], 0));
           if (cur = 0 \<or> skipped) \<and> onlydidx \<ge> 0 then Some (kvs, out, 0)
           else do {
             didx' \<leftarrow> (if cur = 0 \<or> skipped then kvstoreGetNextNonEmptyDictIndex kvs (int didx) else Some (int didx));
             if didx' = -1 then Some (kvs, out, 0)
             else Some (kvs, out, addDictIndexToCursor kvs didx' cur)
           }
         })"

text \<open>\<^verbatim>\<open>kvstoreGetFairRandomDictIndex\<close>: \<open>rs\<close> are the random numbers of the fair attempts, \<open>r\<close> that of the fallback.\<close>

fun fair_attempts_loop :: "('k, 'v) kvstore \<Rightarrow> (nat \<Rightarrow> bool) \<Rightarrow> u64 list \<Rightarrow> nat option option" where
  "fair_attempts_loop kvs skip [] = Some None"
| "fair_attempts_loop kvs skip (r # rs) = do {
     didx \<leftarrow> kvstoreFindDictIndexByKeyIndex kvs (r mod kvstoreSize kvs + 1);
     if \<not> skip didx then Some (Some didx) else fair_attempts_loop kvs skip rs
   }"

fun fallback_loop :: "('k, 'v) kvstore \<Rightarrow> (nat \<Rightarrow> bool) \<Rightarrow> nat \<Rightarrow> nat \<Rightarrow> nat \<Rightarrow> nat option option" where
  "fallback_loop kvs skip start i 0 = Some None"
| "fallback_loop kvs skip start i (Suc n) = do {
     let didx = (start + i) mod num_dicts kvs;
     d \<leftarrow> kvstoreGetDict kvs didx;
     if d \<noteq> None \<and> \<not> skip didx then Some (Some didx) else fallback_loop kvs skip start (i + 1) n
   }"

definition kvstoreGetFairRandomDictIndex ::
    "('k, 'v) kvstore \<Rightarrow> (nat \<Rightarrow> bool) \<Rightarrow> u64 list \<Rightarrow> u64 option \<Rightarrow> int option" where
  "kvstoreGetFairRandomDictIndex kvs skip rs r =
     (if num_dicts kvs = 1 \<or> kvstoreSize kvs = 0 then Some 0
      else do {
        fair \<leftarrow> fair_attempts_loop kvs skip rs;
        (case fair of
           Some didx \<Rightarrow> Some (int didx)
         | None \<Rightarrow>
             (case r of
                None \<Rightarrow> Some (-1)
              | Some r \<Rightarrow> do {
                  slow \<leftarrow> fallback_loop kvs skip (unat (r mod of_nat (num_dicts kvs))) 0 (num_dicts kvs);
                  Some (case slow of Some didx \<Rightarrow> int didx | None \<Rightarrow> -1)
                }))
      })"

end
