(* ===== verification/Kvstore_Inv.thy ===== *)
theory Kvstore_Inv
  imports Kvstore
begin

text \<open>
  The invariant of the store of \<^verbatim>\<open>kvstore.c\<close>: every counter agrees with the dicts. The relation \<open>kv_rel\<close>
  holds in the middle of an operation too, where the counters of the keys stand for the numbers \<open>ns\<close>
  of keys that the dicts had before.
\<close>

section \<open>Sums\<close>

lemma sum_list_update_nat:
  "i < length xs \<Longrightarrow> sum_list (xs[i := y]) + xs ! i = sum_list xs + (y :: nat)"
  by (induction xs arbitrary: i) (auto split: nat.split)

lemma count_update:
  assumes "i < length xs"
  shows "int (length (filter P (xs[i := y]))) =
     int (length (filter P xs)) + (if P y then 1 else 0) - (if P (xs ! i) then 1 else 0)"
proof -
  have "length (filter P xs) = length (filter P (take i xs)) + (if P (xs ! i) then 1 else 0) + length (filter P (drop (Suc i) xs))"
    by (subst id_take_nth_drop [OF assms]) simp
  then show ?thesis using assms by (simp add: upd_conv_take_nth_drop)
qed

lemma word_sum_update:
  assumes "i < length xs" "w = (of_nat (sum_list xs) :: u64)"
  shows "w + word_of_int (int y - int (xs ! i)) = of_nat (sum_list (xs[i := y]))"
proof -
  have "int (sum_list (xs[i := y])) = int (sum_list xs) + (int y - int (xs ! i))"
    using sum_list_update_nat [OF assms(1), of y] by linarith
  then have "(of_int (int (sum_list (xs[i := y]))) :: u64) = of_int (int (sum_list xs) + (int y - int (xs ! i)))" by simp
  then show ?thesis using assms(2) by simp
qed

section \<open>The invariant\<close>

definition dict_buckets :: "('k, 'v) dict option \<Rightarrow> nat" where
  "dict_buckets d = (case d of None \<Rightarrow> 0 | Some d \<Rightarrow> dictBuckets d)"

definition rehash_from :: "('k, 'v) dict option \<Rightarrow> nat option" where
  "rehash_from d = (case d of None \<Rightarrow> None
     | Some d \<Rightarrow> if dictIsRehashing d then Some (DICTHT_SIZE (ht_size_exp (ht0 d))) else None)"

definition from_size :: "nat option \<Rightarrow> nat" where
  "from_size r = (case r of None \<Rightarrow> 0 | Some n \<Rightarrow> n)"

definition kv_sizes :: "('k, 'v) kvstore \<Rightarrow> nat list" where
  "kv_sizes kvs = map dict_size (dicts kvs)"

text \<open>The counters of the keys.\<close>

definition counts_ok :: "('k, 'v) kvstore \<Rightarrow> nat list \<Rightarrow> bool" where
  "counts_ok kvs ns \<longleftrightarrow> length ns = num_dicts kvs \<and> sum_list ns < 2 ^ 64 \<and> key_count kvs = of_nat (sum_list ns) \<and>
     non_empty_dicts kvs = int (length (filter (\<lambda>n. n \<noteq> 0) ns)) \<and>
     (if num_dicts_bits kvs = 0 then dict_sizes kvs = None
      else \<exists>ft. dict_sizes kvs = Some ft \<and> fw_inv ft ns)"

text \<open>The dicts and what the callbacks maintain.\<close>

definition layout_ok :: "('k, 'v) dictType \<Rightarrow> ('k, 'v) kvstore \<Rightarrow> bool" where
  "layout_ok ty kvs \<longleftrightarrow> num_dicts_bits kvs \<le> 16 \<and> length (dicts kvs) = num_dicts kvs \<and> resize_cursor kvs < num_dicts kvs \<and>
     (\<forall>d. Some d \<in> set (dicts kvs) \<longrightarrow> dict_ready ty d) \<and>
     allocated_dicts kvs = int (length (filter (\<lambda>d. d \<noteq> None) (dicts kvs))) \<and>
     bucket_total kvs = of_nat (sum_list (map dict_buckets (dicts kvs))) \<and>
     overhead_rehashing kvs = of_nat (sum_list (map (from_size \<circ> rehash_from) (dicts kvs))) \<and>
     distinct (rehashing kvs) \<and>
     set (rehashing kvs) = {i. i < length (dicts kvs) \<and> rehash_from (dicts kvs ! i) \<noteq> None}"

definition kv_rel :: "('k, 'v) dictType \<Rightarrow> ('k, 'v) kvstore \<Rightarrow> nat list \<Rightarrow> bool" where
  "kv_rel ty kvs ns \<longleftrightarrow> layout_ok ty kvs \<and> counts_ok kvs ns"

definition kv_inv :: "('k, 'v) dictType \<Rightarrow> ('k, 'v) kvstore \<Rightarrow> bool" where
  "kv_inv ty kvs \<longleftrightarrow> kv_rel ty kvs (kv_sizes kvs)"

definition kv_map :: "('k, 'v) kvstore \<Rightarrow> nat \<Rightarrow> 'k \<Rightarrow> 'v option option" where
  "kv_map kvs i = (if i < length (dicts kvs) then (case dicts kvs ! i of None \<Rightarrow> Map.empty | Some d \<Rightarrow> dict_map d) else Map.empty)"

lemma layoutD:
  assumes "layout_ok ty kvs" "i < num_dicts kvs"
  shows "i < length (dicts kvs)" "kvstoreGetDict kvs i = Some (dicts kvs ! i)"
    "dicts kvs ! i = Some d \<Longrightarrow> dict_ready ty d"
  using assms nth_mem [of i "dicts kvs"] by (auto simp: layout_ok_def kvstoreGetDict_def)

section \<open>Callbacks\<close>

lemma run_callbacks_Nil [simp]: "run_callbacks i [] kvs = kvs"
  by (simp add: run_callbacks_def)

lemma run_callbacks_Cons [simp]: "run_callbacks i (ev # evs) kvs = run_callbacks i evs (kvstore_callback i ev kvs)"
  by (simp add: run_callbacks_def)

lemma callback_frame [simp]:
  "dicts (kvstore_callback i ev kvs) = dicts kvs" "num_dicts_bits (kvstore_callback i ev kvs) = num_dicts_bits kvs"
  "num_dicts (kvstore_callback i ev kvs) = num_dicts kvs"
  "resize_cursor (kvstore_callback i ev kvs) = resize_cursor kvs" "allocated_dicts (kvstore_callback i ev kvs) = allocated_dicts kvs"
  "non_empty_dicts (kvstore_callback i ev kvs) = non_empty_dicts kvs" "key_count (kvstore_callback i ev kvs) = key_count kvs"
  "dict_sizes (kvstore_callback i ev kvs) = dict_sizes kvs" "on_demand (kvstore_callback i ev kvs) = on_demand kvs"
  "free_empty (kvstore_callback i ev kvs) = free_empty kvs"
  by (cases ev; simp add: num_dicts_def)+

lemma run_callbacks_frame [simp]:
  "dicts (run_callbacks i evs kvs) = dicts kvs" "num_dicts_bits (run_callbacks i evs kvs) = num_dicts_bits kvs"
  "num_dicts (run_callbacks i evs kvs) = num_dicts kvs"
  "resize_cursor (run_callbacks i evs kvs) = resize_cursor kvs" "allocated_dicts (run_callbacks i evs kvs) = allocated_dicts kvs"
  "non_empty_dicts (run_callbacks i evs kvs) = non_empty_dicts kvs" "key_count (run_callbacks i evs kvs) = key_count kvs"
  "dict_sizes (run_callbacks i evs kvs) = dict_sizes kvs" "on_demand (run_callbacks i evs kvs) = on_demand kvs"
  "free_empty (run_callbacks i evs kvs) = free_empty kvs"
  by (induction evs arbitrary: kvs) simp_all

lemma run_callbacks_effect:
  assumes "track r evs = Some r'" "distinct (rehashing kvs)" "i \<in> set (rehashing kvs) \<longleftrightarrow> r \<noteq> None"
  shows "distinct (rehashing (run_callbacks i evs kvs)) \<and>
    set (rehashing (run_callbacks i evs kvs)) = (if r' \<noteq> None then insert i (set (rehashing kvs)) else set (rehashing kvs) - {i}) \<and>
    bucket_total (run_callbacks i evs kvs) = bucket_total kvs + word_of_int (bucket_count evs) \<and>
    overhead_rehashing (run_callbacks i evs kvs) =
      overhead_rehashing kvs + word_of_int (int (from_size r') - int (from_size r))"
  using assms
proof (induction evs arbitrary: r kvs)
  case Nil
  then show ?case by auto
next
  case (Cons ev evs)
  obtain r1 where r1: "track_event r ev = Some r1" "track r1 evs = Some r'"
    using Cons.prems(1) by (auto split: bind_splits)
  let ?k = "kvstore_callback i ev kvs"
  show ?case
  proof (cases ev)
    case (RehashingStarted n)
    then have r: "r = None" "r1 = Some n" using r1(1) by (cases r; simp)+
    have "distinct (rehashing ?k)" "i \<in> set (rehashing ?k) \<longleftrightarrow> r1 \<noteq> None" using RehashingStarted Cons.prems(2,3) r by auto
    from Cons.IH [OF r1(2) this] show ?thesis using RehashingStarted r Cons.prems(3) by (auto simp: from_size_def)
  next
    case (RehashingCompleted n)
    then have r: "r = Some n" "r1 = None" using r1(1) by (cases r; auto split: if_splits)+
    have "distinct (rehashing ?k)" "i \<in> set (rehashing ?k) \<longleftrightarrow> r1 \<noteq> None" using RehashingCompleted Cons.prems(2,3) r by auto
    from Cons.IH [OF r1(2) this] show ?thesis using RehashingCompleted r Cons.prems(2,3) by (auto simp: from_size_def)
  next
    case (BucketChanged n)
    then have r: "r1 = r" using r1(1) by (cases r) simp_all
    have "distinct (rehashing ?k)" "i \<in> set (rehashing ?k) \<longleftrightarrow> r1 \<noteq> None" using BucketChanged Cons.prems(2,3) r by auto
    from Cons.IH [OF r1(2) this] show ?thesis using BucketChanged r by auto
  qed
qed

lemma dict_events:
  assumes "dict_inv ty d" "dict_inv ty d'" "prefix (callbacks d) (callbacks d')"
  defines "evs \<equiv> drop (length (callbacks d)) (callbacks d')"
  shows "track (rehash_from (Some d)) evs = Some (rehash_from (Some d'))"
    "bucket_count evs = int (dictBuckets d') - int (dictBuckets d)"
proof -
  have c: "callbacks d' = callbacks d @ evs" using assms(3) by (auto simp: evs_def elim: prefixE)
  have t: "track None (callbacks x) = Some (rehash_from (Some x))" if "dict_inv ty x" for x
    using that by (simp add: dict_inv_def rehash_from_def dictIsRehashing_def)
  show "track (rehash_from (Some d)) evs = Some (rehash_from (Some d'))"
    using t [OF assms(1)] t [OF assms(2)] unfolding c by simp
  have "bucket_count (callbacks d) = int (dictBuckets d)" "bucket_count (callbacks d') = int (dictBuckets d')"
    using assms(1,2) by (simp_all add: dict_inv_def)
  then show "bucket_count evs = int (dictBuckets d') - int (dictBuckets d)" unfolding c by simp
qed

lemma put_dict_frame [simp]:
  "dicts (put_dict kvs i d d') = (dicts kvs)[i := Some d']" "num_dicts_bits (put_dict kvs i d d') = num_dicts_bits kvs"
  "num_dicts (put_dict kvs i d d') = num_dicts kvs"
  "resize_cursor (put_dict kvs i d d') = resize_cursor kvs" "allocated_dicts (put_dict kvs i d d') = allocated_dicts kvs"
  "non_empty_dicts (put_dict kvs i d d') = non_empty_dicts kvs" "key_count (put_dict kvs i d d') = key_count kvs"
  "dict_sizes (put_dict kvs i d d') = dict_sizes kvs" "free_empty (put_dict kvs i d d') = free_empty kvs"
  by (simp_all add: put_dict_def) (simp add: num_dicts_def)

text \<open>The sets of the rehashing dicts when one dict is replaced.\<close>

lemma rehashing_update:
  assumes "i < length ds"
  shows "{j. j < length (ds[i := x]) \<and> rehash_from (ds[i := x] ! j) \<noteq> None} =
    (if rehash_from x \<noteq> None then insert i {j. j < length ds \<and> rehash_from (ds ! j) \<noteq> None}
     else {j. j < length ds \<and> rehash_from (ds ! j) \<noteq> None} - {i})"
  using assms by (auto simp: nth_list_update split: if_splits)

text \<open>
  A change of one dict whose events \<open>evs\<close> take its rehashing state and its number of buckets from the old
  to the new value keeps the layout.
\<close>

lemma replace_dict_layout:
  assumes lay: "layout_ok ty kvs" and i: "i < num_dicts kvs"
    and ev: "track (rehash_from (dicts kvs ! i)) evs = Some (rehash_from x)"
      "bucket_count evs = int (dict_buckets x) - int (dict_buckets (dicts kvs ! i))"
    and x: "\<And>d. x = Some d \<Longrightarrow> dict_ready ty d"
    and al: "a = allocated_dicts kvs + (if x \<noteq> None then 1 else 0) - (if dicts kvs ! i \<noteq> None then 1 else 0)"
  shows "layout_ok ty ((run_callbacks i evs kvs)\<lparr>dicts := (dicts kvs)[i := x], allocated_dicts := a\<rparr>)"
proof -
  let ?ds = "dicts kvs"
  have il: "i < length ?ds" using lay i by (simp add: layout_ok_def)
  have reh: "distinct (rehashing kvs)" "i \<in> set (rehashing kvs) \<longleftrightarrow> rehash_from (?ds ! i) \<noteq> None"
    using lay il by (auto simp: layout_ok_def)
  note e = run_callbacks_effect [OF ev(1) reh]
  have b: "bucket_total (run_callbacks i evs kvs) = of_nat (sum_list (map dict_buckets (?ds[i := x])))"
    using word_sum_update [of i "map dict_buckets ?ds" "bucket_total kvs" "dict_buckets x"] lay il e ev(2)
    by (simp add: layout_ok_def map_update)
  have o: "overhead_rehashing (run_callbacks i evs kvs) = of_nat (sum_list (map (from_size \<circ> rehash_from) (?ds[i := x])))"
    using word_sum_update [of i "map (from_size \<circ> rehash_from) ?ds" "overhead_rehashing kvs" "from_size (rehash_from x)"] lay il e
    by (simp add: layout_ok_def map_update)
  have "\<forall>d. Some d \<in> set (?ds[i := x]) \<longrightarrow> dict_ready ty d"
    using lay x set_update_subset_insert [of ?ds i x] by (auto simp: layout_ok_def)
  moreover have "a = int (length (filter (\<lambda>d. d \<noteq> None) (?ds[i := x])))"
    using count_update [OF il, of "\<lambda>d. d \<noteq> None" x] lay al by (simp add: layout_ok_def)
  moreover have "set (rehashing (run_callbacks i evs kvs)) = {j. j < length (?ds[i := x]) \<and> rehash_from (?ds[i := x] ! j) \<noteq> None}"
    using e lay unfolding rehashing_update [OF il] by (simp add: layout_ok_def)
  ultimately show ?thesis using lay b o e by (simp add: layout_ok_def num_dicts_def)
qed

lemma run_callbacks_dicts:
  "run_callbacks i evs (kvs\<lparr>dicts := ds\<rparr>) = (run_callbacks i evs kvs)\<lparr>dicts := ds\<rparr>"
proof (induction evs arbitrary: kvs)
  case (Cons ev evs)
  have "kvstore_callback i ev (kvs\<lparr>dicts := ds\<rparr>) = (kvstore_callback i ev kvs)\<lparr>dicts := ds\<rparr>" by (cases ev) simp_all
  then show ?case using Cons by simp
qed simp

lemma counts_ok_cong:
  "key_count k' = key_count k \<Longrightarrow> non_empty_dicts k' = non_empty_dicts k \<Longrightarrow> dict_sizes k' = dict_sizes k \<Longrightarrow>
   num_dicts_bits k' = num_dicts_bits k \<Longrightarrow> counts_ok k' ns = counts_ok k ns"
  by (simp add: counts_ok_def num_dicts_def)

lemma kv_map_update:
  "i < length (dicts kvs) \<Longrightarrow> dicts kvs' = (dicts kvs)[i := x] \<Longrightarrow>
   kv_map kvs' = (kv_map kvs)(i := (case x of None \<Rightarrow> Map.empty | Some d \<Rightarrow> dict_map d))"
  by (rule ext) (auto simp: kv_map_def)

lemma put_dict_rel:
  assumes rel: "kv_rel ty kvs ns" and i: "i < num_dicts kvs" and d: "dicts kvs ! i = Some d" and g: "good ty d d'"
  shows "kv_rel ty (put_dict kvs i d d') ns" "kv_sizes (put_dict kvs i d d') = (kv_sizes kvs)[i := dictSize d']"
    "kv_map (put_dict kvs i d d') = (kv_map kvs)(i := dict_map d')"
proof -
  have lay: "layout_ok ty kvs" using rel by (simp add: kv_rel_def)
  have r: "dict_ready ty d" using layoutD(3) [OF lay i d] .
  then have inv: "dict_inv ty d" "dict_inv ty d'" "prefix (callbacks d) (callbacks d')" "dict_ready ty d'"
    using g by (simp_all add: dict_ready_def good_def)
  let ?evs = "drop (length (callbacks d)) (callbacks d')"
  have "layout_ok ty ((run_callbacks i ?evs kvs)\<lparr>dicts := (dicts kvs)[i := Some d'], allocated_dicts := allocated_dicts kvs\<rparr>)"
    using dict_events [OF inv(1-3)] d inv(4) by (intro replace_dict_layout [OF lay i]) (simp_all add: dict_buckets_def)
  moreover have "(run_callbacks i ?evs kvs)\<lparr>dicts := (dicts kvs)[i := Some d'], allocated_dicts := allocated_dicts kvs\<rparr> = put_dict kvs i d d'"
    unfolding put_dict_def run_callbacks_dicts by simp
  ultimately show "kv_rel ty (put_dict kvs i d d') ns"
    using rel counts_ok_cong [of "put_dict kvs i d d'" kvs ns] by (simp add: kv_rel_def)
  show "kv_sizes (put_dict kvs i d d') = (kv_sizes kvs)[i := dictSize d']" by (simp add: kv_sizes_def map_update dict_size_def)
  show "kv_map (put_dict kvs i d d') = (kv_map kvs)(i := dict_map d')"
    using kv_map_update [of i kvs "put_dict kvs i d d'" "Some d'"] layoutD(1) [OF lay i] by simp
qed

lemma put_dict_twice:
  assumes "prefix (callbacks d) (callbacks d1)" "prefix (callbacks d1) (callbacks d2)"
  shows "put_dict (put_dict kvs i d d1) i d1 d2 = put_dict kvs i d d2"
proof -
  obtain e1 e2 where e: "callbacks d1 = callbacks d @ e1" "callbacks d2 = callbacks d1 @ e2" using assms by (auto elim!: prefixE)
  have "put_dict (put_dict kvs i d d1) i d1 d2 = (run_callbacks i e2 (run_callbacks i e1 kvs))\<lparr>dicts := (dicts kvs)[i := Some d2]\<rparr>"
    unfolding put_dict_def e run_callbacks_dicts by (simp add: run_callbacks_dicts)
  also have "\<dots> = put_dict kvs i d d2"
    unfolding put_dict_def e run_callbacks_dicts by (simp add: run_callbacks_def)
  finally show ?thesis .
qed

section \<open>The key counters\<close>

lemma num_dicts_one: "num_dicts kvs = 1 \<longleftrightarrow> num_dicts_bits kvs = 0"
  by (simp add: num_dicts_def)

lemma fw_inv_bits:
  assumes "counts_ok kvs ns" "dict_sizes kvs = Some ft"
  shows "size_bits ft = num_dicts_bits kvs"
proof -
  have "length ns = 2 ^ size_bits ft" "length ns = 2 ^ num_dicts_bits kvs"
    using assms by (auto simp: counts_ok_def fw_inv_def num_dicts_def split: if_splits)
  then show ?thesis by simp
qed

lemma cumulativeKeyCountAdd_rel:
  assumes rel: "kv_rel ty kvs ns" and i: "i < num_dicts kvs" and d: "dicts kvs ! i = Some d"
    and delta: "delta = 1 \<or> delta = -1" "int (ns ! i) + delta = int (dictSize d)" and room: "sum_list ns + 1 < 2 ^ 64"
  shows "\<exists>kvs'. cumulativeKeyCountAdd kvs i delta = Some kvs' \<and> kv_rel ty kvs' (ns[i := dictSize d]) \<and> dicts kvs' = dicts kvs \<and>
    free_empty kvs' = free_empty kvs \<and> num_dicts_bits kvs' = num_dicts_bits kvs"
proof -
  have lay: "layout_ok ty kvs" and cnt: "counts_ok kvs ns" using rel by (simp_all add: kv_rel_def)
  have n: "i < length ns" using cnt i by (simp add: counts_ok_def)
  have upd: "delta = int (dictSize d) - int (ns ! i)" "nat (int (ns ! i) + delta) = dictSize d" using delta(2) by simp_all
  let ?ns = "ns[i := dictSize d]"
  have sum: "sum_list ?ns < 2 ^ 64" using sum_list_update_nat [OF n, of "dictSize d"] delta room by linarith
  have key: "key_count kvs + word_of_int delta = of_nat (sum_list ?ns)"
    using word_sum_update [OF n] cnt unfolding upd(1) counts_ok_def by blast
  let ?ne = "if dictSize d = 1 \<and> delta > 0 then 1 else if dictSize d = 0 then -1 else (0 :: int)"
  have ne: "non_empty_dicts kvs + ?ne = int (length (filter (\<lambda>n. n \<noteq> 0) ?ns))"
    using count_update [OF n, of "\<lambda>n. n \<noteq> 0" "dictSize d"] cnt delta by (auto simp: counts_ok_def)
  let ?k = "kvs\<lparr>key_count := key_count kvs + word_of_int delta, non_empty_dicts := non_empty_dicts kvs + ?ne\<rparr>"
  have get: "kvstoreGetDict (kvs\<lparr>key_count := key_count kvs + word_of_int delta\<rparr>) i = Some (Some d)"
    using layoutD(1) [OF lay i] d by (simp add: kvstoreGetDict_def)
  have nd: "num_dicts ?k = num_dicts kvs" by (simp add: num_dicts_def)
  have lay0: "layout_ok ty ?k" using lay by (simp add: layout_ok_def num_dicts_def)
  have lay': "layout_ok ty (?k\<lparr>dict_sizes := x\<rparr>)" for x using lay by (simp add: layout_ok_def num_dicts_def)
  show ?thesis
  proof (cases "num_dicts_bits kvs = 0")
    case True
    then have "cumulativeKeyCountAdd kvs i delta = Some ?k"
      unfolding cumulativeKeyCountAdd_def Let_def get using nd num_dicts_one [of kvs] by simp
    moreover have "kv_rel ty ?k ?ns"
      using True cnt key ne sum lay0 by (simp add: kv_rel_def counts_ok_def num_dicts_def)
    ultimately show ?thesis by simp
  next
    case False
    then obtain ft where ft: "dict_sizes kvs = Some ft" "fw_inv ft ns" using cnt by (auto simp: counts_ok_def)
    obtain ft' where ft': "fwTreeUpdate (Some ft) (int i) delta = Some (Some ft')" "fw_inv ft' ?ns"
      using fwTreeUpdate_inv [OF ft(2) n, of delta] fw_inv_bits [OF cnt ft(1)] lay delta(2) upd(2) room delta(1)
      by (auto simp: layout_ok_def)
    have "cumulativeKeyCountAdd kvs i delta = Some (?k\<lparr>dict_sizes := Some ft'\<rparr>)"
      unfolding cumulativeKeyCountAdd_def Let_def get using nd num_dicts_one [of kvs] False ft(1) ft'(1) by simp
    moreover have "kv_rel ty (?k\<lparr>dict_sizes := Some ft'\<rparr>) ?ns"
      using False cnt key ne sum lay' ft'(2) by (simp add: kv_rel_def counts_ok_def num_dicts_def)
    ultimately show ?thesis by simp
  qed
qed

section \<open>Creating and freeing dicts\<close>

lemma kv_invD:
  assumes "kv_inv ty kvs"
  shows "kv_rel ty kvs (kv_sizes kvs)" "layout_ok ty kvs" "counts_ok kvs (kv_sizes kvs)"
  using assms by (simp_all add: kv_inv_def kv_rel_def)

lemma dictCreate_facts:
  "dict_size (Some dictCreate) = 0" "dict_buckets (Some dictCreate) = 0" "rehash_from (Some dictCreate) = None"
  "dict_size None = 0" "dict_buckets None = 0" "rehash_from None = None" "callbacks dictCreate = []"
  by (simp_all add: dict_size_def dict_buckets_def rehash_from_def dictCreate_def dictInit_def dictSize_def dictBuckets_def
    dictIsRehashing_def)

lemma createDictIfNeeded_rel:
  assumes rel: "kv_rel ty kvs ns" and i: "i < num_dicts kvs"
  shows "\<exists>kvs' d. createDictIfNeeded kvs i = Some (kvs', d) \<and> kv_rel ty kvs' ns \<and> kv_sizes kvs' = kv_sizes kvs \<and>
    kv_map kvs' = kv_map kvs \<and> dicts kvs' ! i = Some d \<and> dict_map d = kv_map kvs i \<and> num_dicts_bits kvs' = num_dicts_bits kvs"
proof -
  have lay: "layout_ok ty kvs" using rel by (simp add: kv_rel_def)
  note l = layoutD [OF lay i]
  show ?thesis
  proof (cases "dicts kvs ! i")
    case (Some d)
    then show ?thesis using rel l by (simp add: createDictIfNeeded_def kv_map_def)
  next
    case None
    let ?k = "kvs\<lparr>dicts := (dicts kvs)[i := Some dictCreate], allocated_dicts := allocated_dicts kvs + 1\<rparr>"
    have "layout_ok ty ((run_callbacks i [] kvs)\<lparr>dicts := (dicts kvs)[i := Some dictCreate], allocated_dicts := allocated_dicts kvs + 1\<rparr>)"
      using None dictCreate_ready by (intro replace_dict_layout [OF lay i]) (auto simp: dictCreate_facts)
    then have "kv_rel ty ?k ns" using rel counts_ok_cong [of ?k kvs ns] by (simp add: kv_rel_def)
    moreover have "kv_sizes ?k = kv_sizes kvs"
      using None l(1) by (simp add: kv_sizes_def map_update dictCreate_facts list_update_same_conv)
    moreover have "kv_map ?k = kv_map kvs" using None l(1) by (auto simp: kv_map_def dictCreate_ready fun_eq_iff nth_list_update)
    moreover have "kv_map kvs i = Map.empty" using None l(1) by (simp add: kv_map_def)
    ultimately show ?thesis using None l by (simp add: createDictIfNeeded_def dictCreate_ready)
  qed
qed

lemma freeDictIfNeeded_inv:
  assumes inv: "kv_inv ty kvs" and i: "i < num_dicts kvs"
  shows "\<exists>kvs'. freeDictIfNeeded cf kvs i = Some kvs' \<and> kv_inv ty kvs' \<and> kv_map kvs' = kv_map kvs \<and>
    kv_sizes kvs' = kv_sizes kvs \<and> num_dicts_bits kvs' = num_dicts_bits kvs"
proof -
  note rel = kv_invD [OF inv]
  note l = layoutD [OF rel(2) i]
  show ?thesis
  proof (cases "\<exists>d. dicts kvs ! i = Some d \<and> free_empty kvs \<and> dictSize d = 0 \<and> pauserehash d = 0 \<and> cf i")
    case False
    then have "freeDictIfNeeded cf kvs i = Some kvs" using l(2) by (auto simp: freeDictIfNeeded_def split: option.splits)
    then show ?thesis using inv by simp
  next
    case True
    then obtain d where d: "dicts kvs ! i = Some d" "free_empty kvs" "dictSize d = 0" "pauserehash d = 0" "cf i" by blast
    have di: "dict_inv ty d" using l(3) [OF d(1)] by (simp add: dict_ready_def)
    let ?evs = "drop (length (callbacks d)) (fst (dictRelease d))"
    let ?k = "(run_callbacks i ?evs kvs)\<lparr>dicts := (dicts kvs)[i := None], allocated_dicts := allocated_dicts kvs - 1\<rparr>"
    have res: "freeDictIfNeeded cf kvs i = Some ?k" using d l(2) by (simp add: freeDictIfNeeded_def Let_def)
    obtain ev where "callbacks (release_events d) = callbacks d @ ev" by (rule prefixE [OF release_events_simps(4)])
    then have c: "fst (dictRelease d) = callbacks d @ ?evs" using dictRelease_ok(3) [OF di] by simp
    have tr: "track None (callbacks d) = Some (rehash_from (Some d))" "bucket_count (callbacks d) = int (dictBuckets d)"
      using di by (simp_all add: dict_inv_def rehash_from_def dictIsRehashing_def)
    have "track (rehash_from (Some d)) ?evs = Some None"
      using release_events_track [OF di] tr(1) c dictRelease_ok(3) [OF di] by (metis track_append bind.bind_lunit)
    moreover have "bucket_count ?evs = - int (dictBuckets d)"
      using dictRelease_ok(2) [OF di] tr(2) c by (metis add.commute add_eq_0_iff bucket_count_simps(2))
    ultimately have "layout_ok ty ?k"
      using d(1) by (intro replace_dict_layout [OF rel(2) i]) (simp_all add: dictCreate_facts, simp add: dict_buckets_def)
    moreover have sz: "kv_sizes ?k = kv_sizes kvs"
      using d l(1) by (simp add: kv_sizes_def map_update dictCreate_facts list_update_same_conv, simp add: dict_size_def)
    ultimately have "kv_inv ty ?k"
      using rel(3) counts_ok_cong [of ?k kvs] by (simp add: kv_inv_def kv_rel_def)
    moreover have "kv_map ?k = kv_map kvs"
      using d(1) l(1) dict_map_empty [OF di d(3)] by (auto simp: kv_map_def fun_eq_iff nth_list_update)
    ultimately show ?thesis using res sz by simp
  qed
qed

end
