(* ===== verification/Kvstore_Spec.thy ===== *)
theory Kvstore_Spec
  imports Kvstore_Inv
begin

text \<open>
  The operations of \<^verbatim>\<open>kvstore.c\<close> keep its invariant and implement an array of finite maps.
\<close>

section \<open>Single operations\<close>

lemma kv_map_dicts: "dicts k' = dicts k \<Longrightarrow> kv_map k' = kv_map k"
  by (simp add: kv_map_def fun_eq_iff)

lemma same_size: "dict_inv ty d \<Longrightarrow> same_dict ty d d' \<Longrightarrow> dictSize d' = dictSize d"
  using dictSize_ents [of ty d] dictSize_ents [of ty d'] by (simp add: same_dict_def)

lemma kv_map_at: "layout_ok ty kvs \<Longrightarrow> i < num_dicts kvs \<Longrightarrow> dicts kvs ! i = Some d \<Longrightarrow> kv_map kvs i = dict_map d"
  using layoutD(1) by (fastforce simp: kv_map_def)

text \<open>An operation that leaves the contents of a dict alone.\<close>

lemma put_same:
  assumes inv: "kv_inv ty kvs" and i: "i < num_dicts kvs" and d: "dicts kvs ! i = Some d" and s: "same_dict ty d d'"
  shows "kv_inv ty (put_dict kvs i d d')" "kv_map (put_dict kvs i d d') = kv_map kvs"
    "kv_sizes (put_dict kvs i d d') = kv_sizes kvs"
proof -
  note rel = kv_invD [OF inv]
  have di: "dict_inv ty d" using layoutD(3) [OF rel(2) i d] by (simp add: dict_ready_def)
  note p = put_dict_rel [OF rel(1) i d good_same [OF s]]
  have l: "i < length (dicts kvs)" using layoutD(1) [OF rel(2) i] .
  then show sz: "kv_sizes (put_dict kvs i d d') = kv_sizes kvs"
    using p(2) same_size [OF di s] d by (simp add: kv_sizes_def list_update_same_conv dict_size_def)
  then show "kv_inv ty (put_dict kvs i d d')" using p(1) by (simp add: kv_inv_def)
  show "kv_map (put_dict kvs i d d') = kv_map kvs"
    using p(3) dict_map_cong [OF di s] kv_map_at [OF rel(2) i d] by (metis fun_upd_triv)
qed

lemma kvstoreDictFind_ok:
  assumes inv: "kv_inv ty kvs" and i: "i < num_dicts kvs"
  shows "\<exists>kvs' he. kvstoreDictFind cr ty kvs i k = Some (kvs', he) \<and> kv_inv ty kvs' \<and> kv_map kvs' = kv_map kvs \<and>
    kv_sizes kvs' = kv_sizes kvs \<and> num_dicts_bits kvs' = num_dicts_bits kvs \<and>
    map_option ent he = map_option (Pair k) (kv_map kvs i k)"
proof -
  note rel = kv_invD [OF inv]
  note l = layoutD [OF rel(2) i]
  show ?thesis
  proof (cases "dicts kvs ! i")
    case None
    then show ?thesis using inv l(1,2) by (simp add: kvstoreDictFind_def kv_map_def)
  next
    case (Some d)
    have di: "dict_inv ty d" using l(3) [OF Some] by (simp add: dict_ready_def)
    obtain d' he where f: "dictFind cr ty d k = Some (d', he)" "same_dict ty d d'"
      "map_option ent he = map_option (Pair k) (dict_map d k)"
      using dictFind_ok [OF di, of cr k] by (elim exE conjE)
    then show ?thesis using put_same [OF inv i Some f(2)] l(2) Some kv_map_at [OF rel(2) i Some]
      by (simp add: kvstoreDictFind_def)
  qed
qed

lemma kvstoreDictFetchValue_ok:
  assumes inv: "kv_inv ty kvs" and i: "i < num_dicts kvs" and nv: "\<not> no_value ty"
  shows "\<exists>kvs'. kvstoreDictFetchValue cr ty kvs i k = Some (kvs', Option.bind (kv_map kvs i k) id) \<and> kv_inv ty kvs' \<and>
    kv_map kvs' = kv_map kvs \<and> kv_sizes kvs' = kv_sizes kvs \<and> num_dicts_bits kvs' = num_dicts_bits kvs"
proof -
  note rel = kv_invD [OF inv]
  note l = layoutD [OF rel(2) i]
  show ?thesis
  proof (cases "dicts kvs ! i")
    case None
    then show ?thesis using inv l(1,2) by (simp add: kvstoreDictFetchValue_def kv_map_def)
  next
    case (Some d)
    have di: "dict_inv ty d" using l(3) [OF Some] by (simp add: dict_ready_def)
    obtain d' where f: "dictFetchValue cr ty d k = Some (d', Option.bind (dict_map d k) id)" "same_dict ty d d'"
      using dictFetchValue_ok [OF di nv] by blast
    then show ?thesis using put_same [OF inv i Some f(2)] l(2) Some kv_map_at [OF rel(2) i Some] nv
      by (simp add: kvstoreDictFetchValue_def)
  qed
qed

lemma card_dom_add: "finite (dom m) \<Longrightarrow> m k = None \<Longrightarrow> card (dom (m(k \<mapsto> v))) = Suc (card (dom m))"
  by (simp add: domIff)

lemma card_dom_del: "finite (dom m) \<Longrightarrow> m k = Some v \<Longrightarrow> Suc (card (dom (m(k := None)))) = card (dom m)"
proof -
  assume "finite (dom m)" "m k = Some v"
  then have "card (dom m) = Suc (card (dom m - {k}))" by (intro card.remove) auto
  then show ?thesis by simp
qed

lemma dict_map_finite: "finite (dom (dict_map d))"
  by (simp add: dict_map_def finite_dom_map_of)

text \<open>Adding: \<^verbatim>\<open>kvstoreDictAddRaw\<close>, and \<^verbatim>\<open>kvstoreDictSetVal\<close> when the entry is new, as the callers do.\<close>

definition kvstore_add ::
    "dictResizeEnable \<Rightarrow> ('k, 'v) dictType \<Rightarrow> ('k, 'v) kvstore \<Rightarrow> nat \<Rightarrow> 'k \<Rightarrow> 'v \<Rightarrow> (('k, 'v) kvstore \<times> bool) option" where
  "kvstore_add cr ty kvs i k v = do {
     (kvs, ret) \<leftarrow> kvstoreDictAddRaw cr ty kvs i k;
     (case ret of
        Inl _ \<Rightarrow> Some (kvs, False)
      | Inr l \<Rightarrow> do {
          kvs \<leftarrow> (if no_value ty then Some kvs else kvstoreDictSetVal ty kvs i l v);
          Some (kvs, True)
        })
   }"

lemma kvstoreDictAddRaw_ok:
  assumes inv: "kv_inv ty kvs" and i: "i < num_dicts kvs" and room: "sum_list (kv_sizes kvs) + 1 < 2 ^ 64"
  shows "\<exists>kvs' l d' e. kvstoreDictAddRaw cr ty kvs i k = Some (kvs', if kv_map kvs i k = None then Inr l else Inl l) \<and>
    kv_inv ty kvs' \<and> num_dicts_bits kvs' = num_dicts_bits kvs \<and> sum_list (kv_sizes kvs') \<le> sum_list (kv_sizes kvs) + 1 \<and>
    dicts kvs' ! i = Some d' \<and> entry_at d' l = Some e \<and> dictGetKey e = k \<and>
    kv_map kvs' = (if kv_map kvs i k = None then (kv_map kvs)(i := (kv_map kvs i)(k \<mapsto> new_val ty (uninit ty))) else kv_map kvs)"
proof -
  note rel = kv_invD [OF inv]
  obtain k1 d where c: "createDictIfNeeded kvs i = Some (k1, d)" "kv_rel ty k1 (kv_sizes kvs)" "kv_sizes k1 = kv_sizes kvs"
    "kv_map k1 = kv_map kvs" "dicts k1 ! i = Some d" "dict_map d = kv_map kvs i" "num_dicts_bits k1 = num_dicts_bits kvs"
    using createDictIfNeeded_rel [OF rel(1) i] by (elim exE conjE)
  have i1: "i < num_dicts k1" using i c(7) by (simp add: num_dicts_def)
  have inv1: "kv_inv ty k1" using c(2,3) by (simp add: kv_inv_def)
  have lay1: "layout_ok ty k1" using c(2) by (simp add: kv_rel_def)
  have l1: "i < length (dicts k1)" using layoutD(1) [OF lay1 i1] .
  have r: "dict_ready ty d" using layoutD(3) [OF lay1 i1 c(5)] .
  obtain d1 l e where a: "dictAddRaw cr ty d k = Some (d1, if dict_map d k = None then Inr l else Inl l)" "good ty d d1"
    "entry_at d1 l = Some e" "dictGetKey e = k"
    "dict_map d1 = (if dict_map d k = None then (dict_map d)(k \<mapsto> new_val ty (uninit ty)) else dict_map d)"
    using dictAddRaw_ok [OF readyD(1,2) [OF r], of cr k] by (elim exE conjE)
  let ?k2 = "put_dict k1 i d d1"
  note p = put_dict_rel [OF c(2) i1 c(5) a(2)]
  have inv_d: "dict_inv ty d" "dict_inv ty d1" using r a(2) by (simp_all add: dict_ready_def good_def)
  have sz: "kv_sizes kvs ! i = dictSize d" using c(3,5) l1 by (metis kv_sizes_def nth_map dict_size_def option.simps(5))
  have at2: "dicts ?k2 ! i = Some d1" using l1 by simp
  show ?thesis
  proof (cases "dict_map d k = None")
    case False
    then have same: "dict_map d1 = dict_map d" using a(5) by auto
    then have "dictSize d1 = dictSize d" using dictSize_card [OF inv_d(1)] dictSize_card [OF inv_d(2)] by simp
    then have "kv_sizes ?k2 = kv_sizes kvs" using p(2) c(3) sz by (metis list_update_id)
    then have "kv_inv ty ?k2" using p(1) by (simp add: kv_inv_def)
    moreover have "kvstoreDictAddRaw cr ty kvs i k = Some (?k2, Inl l)" using c(1) a(1) False by (simp add: kvstoreDictAddRaw_def)
    moreover have "kv_map ?k2 = kv_map kvs" using p(3) same c(4,6) by (metis fun_upd_triv)
    ultimately show ?thesis using False c(6,7) at2 a(3,4) \<open>kv_sizes ?k2 = kv_sizes kvs\<close>
      by (intro exI [of _ ?k2] exI [of _ l] exI [of _ d1] exI [of _ e]) simp
  next
    case True
    then have s1: "dictSize d1 = Suc (dictSize d)"
      using dictSize_card [OF inv_d(1)] dictSize_card [OF inv_d(2)] a(5) card_dom_add [OF dict_map_finite] by simp
    have i2: "i < num_dicts ?k2" using i1 by simp
    obtain k3 where k3: "cumulativeKeyCountAdd ?k2 i 1 = Some k3" "kv_rel ty k3 ((kv_sizes kvs)[i := dictSize d1])"
      "dicts k3 = dicts ?k2" "num_dicts_bits k3 = num_dicts_bits ?k2"
      using cumulativeKeyCountAdd_rel [OF p(1) i2 at2, of 1] s1 sz room by auto
    have sz3: "kv_sizes k3 = (kv_sizes kvs)[i := dictSize d1]" using k3(3) p(2) c(3) by (simp add: kv_sizes_def)
    have "kvstoreDictAddRaw cr ty kvs i k = Some (k3, Inr l)" using c(1) a(1) True k3(1) by (simp add: kvstoreDictAddRaw_def)
    moreover have "kv_inv ty k3" using k3(2) sz3 by (simp add: kv_inv_def)
    moreover have "sum_list (kv_sizes k3) = sum_list (kv_sizes kvs) + 1"
      using sum_list_update_nat [of i "kv_sizes kvs" "dictSize d1"] sz s1 sz3 i rel(3) by (simp add: counts_ok_def)
    moreover have "kv_map k3 = (kv_map kvs)(i := (kv_map kvs i)(k \<mapsto> new_val ty (uninit ty)))"
      using p(3) a(5) True c(4,6) kv_map_dicts [OF k3(3)] by simp
    ultimately show ?thesis using True c(6,7) at2 a(3,4) k3(3,4)
      by (intro exI [of _ k3] exI [of _ l] exI [of _ d1] exI [of _ e]) simp
  qed
qed

lemma kvstore_add_ok:
  assumes inv: "kv_inv ty kvs" and i: "i < num_dicts kvs" and room: "sum_list (kv_sizes kvs) + 1 < 2 ^ 64"
  shows "\<exists>kvs'. kvstore_add cr ty kvs i k v = Some (kvs', kv_map kvs i k = None) \<and>
    kv_inv ty kvs' \<and> num_dicts_bits kvs' = num_dicts_bits kvs \<and> sum_list (kv_sizes kvs') \<le> sum_list (kv_sizes kvs) + 1 \<and>
    kv_map kvs' = (if kv_map kvs i k = None then (kv_map kvs)(i := (kv_map kvs i)(k \<mapsto> new_val ty v)) else kv_map kvs)"
proof -
  obtain k1 l d e where a: "kvstoreDictAddRaw cr ty kvs i k = Some (k1, if kv_map kvs i k = None then Inr l else Inl l)"
    "kv_inv ty k1" "num_dicts_bits k1 = num_dicts_bits kvs" "sum_list (kv_sizes k1) \<le> sum_list (kv_sizes kvs) + 1"
    "dicts k1 ! i = Some d" "entry_at d l = Some e" "dictGetKey e = k"
    "kv_map k1 = (if kv_map kvs i k = None then (kv_map kvs)(i := (kv_map kvs i)(k \<mapsto> new_val ty (uninit ty))) else kv_map kvs)"
    using kvstoreDictAddRaw_ok [OF assms, of cr k] by (elim exE conjE)
  show ?thesis
  proof (cases "kv_map kvs i k = None \<and> \<not> no_value ty")
    case False
    then have "kvstore_add cr ty kvs i k v = Some (k1, kv_map kvs i k = None)" using a(1) by (auto simp: kvstore_add_def)
    then show ?thesis using a(2-4,8) False by (auto simp: new_val_def)
  next
    case True
    note rel = kv_invD [OF a(2)]
    have i1: "i < num_dicts k1" using i a(3) by (simp add: num_dicts_def)
    have di: "dict_inv ty d" using layoutD(3) [OF rel(2) i1 a(5)] by (simp add: dict_ready_def)
    obtain t j p where l: "l = (t, j, p)" by (cases l)
    obtain d' where d': "dictSetVal d l v = Some d'" "good ty d d'" "dict_map d' = (dict_map d)(k \<mapsto> Some v)"
      using dictSetVal_ok [OF di _ a(6) [unfolded l] a(7), of v] True l by blast
    note p = put_dict_rel [OF rel(1) i1 a(5) d'(2)]
    have dk: "dict_map d = (kv_map kvs i)(k \<mapsto> new_val ty (uninit ty))" using kv_map_at [OF rel(2) i1 a(5)] a(8) True by simp
    then have "dom (dict_map d') = dom (dict_map d)" using d'(3) by auto
    moreover have "dict_inv ty d'" using d'(2) by (simp add: good_def)
    ultimately have "dictSize d' = dictSize d" using dictSize_card [OF di] dictSize_card [of ty d'] by simp
    moreover have "kv_sizes k1 ! i = dictSize d" using a(5) layoutD(1) [OF rel(2) i1] by (simp add: kv_sizes_def dict_size_def)
    ultimately have sz: "kv_sizes (put_dict k1 i d d') = kv_sizes k1" using p(2) by (metis list_update_id)
    have "kvstoreDictSetVal ty k1 i l v = Some (put_dict k1 i d d')"
      using layoutD(2) [OF rel(2) i1] a(5) d'(1) True by (simp add: kvstoreDictSetVal_def)
    then have "kvstore_add cr ty kvs i k v = Some (put_dict k1 i d d', True)" using a(1) True by (simp add: kvstore_add_def)
    moreover have "kv_map (put_dict k1 i d d') = (kv_map kvs)(i := (kv_map kvs i)(k \<mapsto> Some v))"
      using p(3) d'(3) dk a(8) True by simp
    ultimately show ?thesis using True p(1) sz a(3,4) by (simp add: kv_inv_def new_val_def)
  qed
qed

text \<open>The end of a deletion: one key less in the dict, then the counters, then the dict may be freed.\<close>

lemma kvstore_removed:
  assumes inv: "kv_inv ty kvs" and i: "i < num_dicts kvs" and d: "dicts kvs ! i = Some d" and g: "good ty d d'"
    and m: "dict_map d k \<noteq> None" "dict_map d' = (dict_map d)(k := None)"
    and room: "sum_list (kv_sizes kvs) + 1 < 2 ^ 64"
  shows "\<exists>k2 k3. cumulativeKeyCountAdd (put_dict kvs i d d') i (-1) = Some k2 \<and> freeDictIfNeeded cf k2 i = Some k3 \<and>
    kv_inv ty k3 \<and> num_dicts_bits k3 = num_dicts_bits kvs \<and> sum_list (kv_sizes k3) \<le> sum_list (kv_sizes kvs) \<and>
    kv_map k3 = (kv_map kvs)(i := (kv_map kvs i)(k := None))"
proof -
  note rel = kv_invD [OF inv]
  have l: "i < length (dicts kvs)" using layoutD(1) [OF rel(2) i] .
  have inv_d: "dict_inv ty d" "dict_inv ty d'" using layoutD(3) [OF rel(2) i d] g by (simp_all add: dict_ready_def good_def)
  note p = put_dict_rel [OF rel(1) i d g]
  let ?k1 = "put_dict kvs i d d'"
  obtain v where "dict_map d k = Some v" using m(1) by blast
  then have s: "Suc (dictSize d') = dictSize d"
    using dictSize_card [OF inv_d(1)] dictSize_card [OF inv_d(2)] m(2) card_dom_del [OF dict_map_finite] by simp
  have sz: "kv_sizes kvs ! i = dictSize d" using d l by (simp add: kv_sizes_def dict_size_def)
  have i1: "i < num_dicts ?k1" and at1: "dicts ?k1 ! i = Some d'" using i l by simp_all
  obtain k2 where k2: "cumulativeKeyCountAdd ?k1 i (-1) = Some k2" "kv_rel ty k2 ((kv_sizes kvs)[i := dictSize d'])"
    "dicts k2 = dicts ?k1" "num_dicts_bits k2 = num_dicts_bits ?k1"
    using cumulativeKeyCountAdd_rel [OF p(1) i1 at1, of "-1"] s sz room by auto
  have sz2: "kv_sizes k2 = (kv_sizes kvs)[i := dictSize d']" using k2(3) p(2) by (simp add: kv_sizes_def)
  then have inv2: "kv_inv ty k2" using k2(2) by (simp add: kv_inv_def)
  have "i < num_dicts k2" using i k2(4) by (simp add: num_dicts_def)
  then obtain k3 where k3: "freeDictIfNeeded cf k2 i = Some k3" "kv_inv ty k3" "kv_map k3 = kv_map k2" "kv_sizes k3 = kv_sizes k2"
    "num_dicts_bits k3 = num_dicts_bits k2"
    using freeDictIfNeeded_inv [OF inv2] by blast
  have "kv_map k2 = (kv_map kvs)(i := (kv_map kvs i)(k := None))"
    using p(3) m(2) kv_map_at [OF rel(2) i d] kv_map_dicts [OF k2(3)] by simp
  moreover have "sum_list (kv_sizes k2) \<le> sum_list (kv_sizes kvs)"
    using sum_list_update_nat [of i "kv_sizes kvs" "dictSize d'"] sz s sz2 l by (simp add: kv_sizes_def)
  ultimately show ?thesis using k2(1,4) k3 by auto
qed

lemma kvstoreDictDelete_ok:
  assumes inv: "kv_inv ty kvs" and i: "i < num_dicts kvs" and room: "sum_list (kv_sizes kvs) + 1 < 2 ^ 64"
  shows "\<exists>kvs'. kvstoreDictDelete cr cf ty kvs i k = Some (kvs', kv_map kvs i k \<noteq> None) \<and> kv_inv ty kvs' \<and>
    num_dicts_bits kvs' = num_dicts_bits kvs \<and> sum_list (kv_sizes kvs') \<le> sum_list (kv_sizes kvs) \<and>
    kv_map kvs' = (kv_map kvs)(i := (kv_map kvs i)(k := None))"
proof -
  note rel = kv_invD [OF inv]
  note l = layoutD [OF rel(2) i]
  show ?thesis
  proof (cases "dicts kvs ! i")
    case None
    then have "kv_map kvs i = Map.empty" using l(1) by (simp add: kv_map_def)
    then show ?thesis using None inv l(2) by (simp add: kvstoreDictDelete_def fun_upd_idem)
  next
    case (Some d)
    have di: "dict_inv ty d" using l(3) [OF Some] by (simp add: dict_ready_def)
    have km: "kv_map kvs i = dict_map d" using kv_map_at [OF rel(2) i Some] .
    obtain d' he where x: "dictGenericDelete cr ty d k = Some (d', he)" "good ty d d'"
      "map_option ent he = map_option (Pair k) (dict_map d k)" "dict_map d' = (dict_map d)(k := None)"
      using dictGenericDelete_ok [OF di, of cr k] by (elim exE conjE)
    have del: "dictDelete cr ty d k = Some (d', dict_map d k \<noteq> None)"
      using x(1,3) by (cases he; cases "dict_map d k") (simp_all add: dictDelete_def)
    show ?thesis
    proof (cases "dict_map d k = None")
      case True
      then have same: "dict_map d' = dict_map d" using x(4) by (simp add: fun_upd_idem)
      have "dict_inv ty d'" using x(2) by (simp add: good_def)
      then have "dictSize d' = dictSize d" using dictSize_card [OF di] dictSize_card [of ty d'] same by simp
      moreover have "kv_sizes kvs ! i = dictSize d" using Some l(1) by (simp add: kv_sizes_def dict_size_def)
      ultimately have sz: "kv_sizes (put_dict kvs i d d') = kv_sizes kvs"
        using put_dict_rel(2) [OF rel(1) i Some x(2)] by (metis list_update_id)
      have "kv_map (put_dict kvs i d d') = kv_map kvs"
        using put_dict_rel(3) [OF rel(1) i Some x(2)] same km by (metis fun_upd_triv)
      then show ?thesis using True del l(2) Some sz put_dict_rel(1) [OF rel(1) i Some x(2)] km
        by (simp add: kvstoreDictDelete_def kv_inv_def fun_upd_idem)
    next
      case False
      obtain k2 k3 where "cumulativeKeyCountAdd (put_dict kvs i d d') i (-1) = Some k2" "freeDictIfNeeded cf k2 i = Some k3"
        "kv_inv ty k3" "num_dicts_bits k3 = num_dicts_bits kvs" "sum_list (kv_sizes k3) \<le> sum_list (kv_sizes kvs)"
        "kv_map k3 = (kv_map kvs)(i := (kv_map kvs i)(k := None))"
        using kvstore_removed [OF inv i Some x(2) False x(4) room, of cf] by (elim exE conjE)
      then show ?thesis using False del l(2) Some km by (simp add: kvstoreDictDelete_def)
    qed
  qed
qed

text \<open>The two phases of an unlink, the second one when the key was found, as the callers do.\<close>

definition kvstore_unlink ::
    "dictResizeEnable \<Rightarrow> (nat \<Rightarrow> bool) \<Rightarrow> ('k, 'v) dictType \<Rightarrow> ('k, 'v) kvstore \<Rightarrow> nat \<Rightarrow> 'k \<Rightarrow>
     (('k, 'v) kvstore \<times> bool) option" where
  "kvstore_unlink cr cf ty kvs i k = do {
     (kvs, l) \<leftarrow> kvstoreDictTwoPhaseUnlinkFind cr ty kvs i k;
     if l = None then Some (kvs, False)
     else do {
       kvs \<leftarrow> kvstoreDictTwoPhaseUnlinkFree cr cf ty kvs i l;
       Some (kvs, True)
     }
   }"

lemma kvstore_unlink_ok:
  assumes inv: "kv_inv ty kvs" and i: "i < num_dicts kvs" and room: "sum_list (kv_sizes kvs) + 1 < 2 ^ 64"
  shows "\<exists>kvs'. kvstore_unlink cr cf ty kvs i k = Some (kvs', kv_map kvs i k \<noteq> None) \<and> kv_inv ty kvs' \<and>
    num_dicts_bits kvs' = num_dicts_bits kvs \<and> sum_list (kv_sizes kvs') \<le> sum_list (kv_sizes kvs) \<and>
    kv_map kvs' = (kv_map kvs)(i := (kv_map kvs i)(k := None))"
proof -
  note rel = kv_invD [OF inv]
  note l = layoutD [OF rel(2) i]
  show ?thesis
  proof (cases "dicts kvs ! i")
    case None
    then have "kv_map kvs i = Map.empty" using l(1) by (simp add: kv_map_def)
    then show ?thesis using None inv l(2)
      by (simp add: kvstore_unlink_def kvstoreDictTwoPhaseUnlinkFind_def fun_upd_idem)
  next
    case (Some d)
    have r: "dict_ready ty d" using l(3) [OF Some] .
    have km: "kv_map kvs i = dict_map d" using kv_map_at [OF rel(2) i Some] .
    obtain d1 p d2 where t: "dictTwoPhaseUnlinkFind cr ty d k = Some (d1, p)" "dictTwoPhaseUnlinkFree cr ty d1 p = Some d2"
      "p = None \<longleftrightarrow> dict_map d k = None" "dict_map d1 = dict_map d" "good ty d d2" "dict_map d2 = (dict_map d)(k := None)"
      "prefix (callbacks d) (callbacks d1)" "prefix (callbacks d1) (callbacks d2)"
      using dictTwoPhaseUnlink_ok [OF readyD(1,3) [OF r], of cr k] by (elim exE conjE)
    have find: "kvstoreDictTwoPhaseUnlinkFind cr ty kvs i k = Some (put_dict kvs i d d1, p)"
      using l(2) Some t(1) by (simp add: kvstoreDictTwoPhaseUnlinkFind_def)
    show ?thesis
    proof (cases "dict_map d k = None")
      case True
      then have p: "p = None" using t(3) by simp
      then have "d1 = d2" using t(2) by (simp add: dictTwoPhaseUnlinkFree_def)
      then have g: "good ty d d1" using t(5) by simp
      then have "dict_inv ty d1" by (simp add: good_def)
      then have "dictSize d1 = dictSize d" using dictSize_card [OF readyD(1) [OF r]] dictSize_card [of ty d1] t(4) by simp
      moreover have "kv_sizes kvs ! i = dictSize d" using Some l(1) by (simp add: kv_sizes_def dict_size_def)
      ultimately have sz: "kv_sizes (put_dict kvs i d d1) = kv_sizes kvs"
        using put_dict_rel(2) [OF rel(1) i Some g] by (metis list_update_id)
      have "kv_map (put_dict kvs i d d1) = kv_map kvs"
        using put_dict_rel(3) [OF rel(1) i Some g] t(4) km by (metis fun_upd_triv)
      then show ?thesis using True find p sz put_dict_rel(1) [OF rel(1) i Some g] km
        by (simp add: kvstore_unlink_def kv_inv_def fun_upd_idem)
    next
      case False
      then have p: "p \<noteq> None" using t(3) by simp
      obtain k2 k3 where k: "cumulativeKeyCountAdd (put_dict kvs i d d2) i (-1) = Some k2" "freeDictIfNeeded cf k2 i = Some k3"
        "kv_inv ty k3" "num_dicts_bits k3 = num_dicts_bits kvs" "sum_list (kv_sizes k3) \<le> sum_list (kv_sizes kvs)"
        "kv_map k3 = (kv_map kvs)(i := (kv_map kvs i)(k := None))"
        using kvstore_removed [OF inv i Some t(5) False t(6) room, of cf] by (elim exE conjE)
      have "kvstoreGetDict (put_dict kvs i d d1) i = Some (Some d1)" using l(1) by (simp add: kvstoreGetDict_def)
      then have "kvstoreDictTwoPhaseUnlinkFree cr cf ty (put_dict kvs i d d1) i p = Some k3"
        using t(2) k(1,2) put_dict_twice [OF t(7,8), of kvs i] by (simp add: kvstoreDictTwoPhaseUnlinkFree_def)
      then show ?thesis using False find p k(3-6) km by (simp add: kvstore_unlink_def)
    qed
  qed
qed

section \<open>Operations that keep the contents\<close>

definition kv_same :: "('k, 'v) dictType \<Rightarrow> ('k, 'v) kvstore \<Rightarrow> ('k, 'v) kvstore \<Rightarrow> bool" where
  "kv_same ty kvs kvs' \<longleftrightarrow> kv_inv ty kvs' \<and> kv_map kvs' = kv_map kvs \<and> kv_sizes kvs' = kv_sizes kvs \<and>
     num_dicts_bits kvs' = num_dicts_bits kvs"

lemma kv_same_refl: "kv_inv ty kvs \<Longrightarrow> kv_same ty kvs kvs"
  by (simp add: kv_same_def)

lemma kv_same_trans: "kv_same ty a b \<Longrightarrow> kv_same ty b c \<Longrightarrow> kv_same ty a c"
  by (simp add: kv_same_def)

lemma kv_sameD: "kv_same ty kvs kvs' \<Longrightarrow> kv_inv ty kvs'" "kv_same ty kvs kvs' \<Longrightarrow> num_dicts kvs' = num_dicts kvs"
  by (simp_all add: kv_same_def num_dicts_def)

lemma put_kv_same:
  assumes "kv_inv ty kvs" "i < num_dicts kvs" "dicts kvs ! i = Some d" "same_dict ty d d'"
  shows "kv_same ty kvs (put_dict kvs i d d')"
  using put_same [OF assms] by (simp add: kv_same_def)

text \<open>A dict is created if there is none and changed by an operation that keeps its contents.\<close>

lemma create_put_same:
  assumes inv: "kv_inv ty kvs" and i: "i < num_dicts kvs"
    and f: "\<And>d. dict_inv ty d \<Longrightarrow> \<exists>d' ok. f d = Some (d', ok) \<and> same_dict ty d d'"
  shows "\<exists>k1 d d' ok. createDictIfNeeded kvs i = Some (k1, d) \<and> f d = Some (d', ok) \<and> kv_same ty kvs (put_dict k1 i d d')"
proof -
  obtain k1 d where c: "createDictIfNeeded kvs i = Some (k1, d)" "kv_rel ty k1 (kv_sizes kvs)" "kv_sizes k1 = kv_sizes kvs"
    "kv_map k1 = kv_map kvs" "dicts k1 ! i = Some d" "dict_map d = kv_map kvs i" "num_dicts_bits k1 = num_dicts_bits kvs"
    using createDictIfNeeded_rel [OF kv_invD(1) [OF inv] i] by (elim exE conjE)
  have same: "kv_same ty kvs k1" using c(2-4,7) by (simp add: kv_same_def kv_inv_def)
  have i1: "i < num_dicts k1" using i kv_sameD(2) [OF same] by simp
  have "dict_ready ty d" using layoutD(3) [OF kv_invD(2) [OF kv_sameD(1) [OF same]] i1 c(5)] .
  then obtain d' ok where d': "f d = Some (d', ok)" "same_dict ty d d'" using f readyD(1) by blast
  have "kv_same ty k1 (put_dict k1 i d d')" using kv_sameD(1) [OF same] i1 c(5) d'(2) by (rule put_kv_same)
  then show ?thesis using c(1) d'(1) kv_same_trans [OF same] by blast
qed

lemma dictExpand_same: "dict_inv ty d \<Longrightarrow> \<exists>d' ok. dictExpand cr ty d n = Some (d', ok) \<and> same_dict ty d d'"
  using dictExpand_ok [of ty d cr None n] by (auto simp: dictExpand_def)

lemma dictTryExpand_same: "dict_inv ty d \<Longrightarrow> \<exists>d' ok. dictTryExpand cr ty a d n = Some (d', ok) \<and> same_dict ty d d'"
  using dictExpand_ok [of ty d cr "Some a" n] by (auto simp: dictTryExpand_def)

lemma kvstoreDictExpand_ok:
  assumes "kv_inv ty kvs" "i < num_dicts kvs"
  shows "\<exists>kvs' ok. kvstoreDictExpand cr ty kvs i n = Some (kvs', ok) \<and> kv_same ty kvs kvs'"
  using create_put_same [OF assms, of "\<lambda>d. dictExpand cr ty d n"] dictExpand_same by (fastforce simp: kvstoreDictExpand_def)

lemma expand_dicts_ok:
  "kv_inv ty kvs \<Longrightarrow> i + n \<le> num_dicts kvs \<Longrightarrow>
   \<exists>kvs' ok. expand_dicts cr ty sz al skip i kvs n = Some (kvs', ok) \<and> kv_same ty kvs kvs'"
proof (induction n arbitrary: i kvs)
  case 0
  then show ?case using kv_same_refl by auto
next
  case (Suc n)
  have i: "i < num_dicts kvs" using Suc.prems(2) by simp
  let ?f = "\<lambda>d. case al of Some alloc \<Rightarrow> dictTryExpand cr ty (alloc i) d sz | None \<Rightarrow> dictExpand cr ty d sz"
  have f: "dict_inv ty d \<Longrightarrow> \<exists>d' ok. ?f d = Some (d', ok) \<and> same_dict ty d d'" for d
    using dictExpand_same dictTryExpand_same by (cases al) simp_all
  have "\<exists>k1 d d' ok. createDictIfNeeded kvs i = Some (k1, d) \<and> ?f d = Some (d', ok) \<and> kv_same ty kvs (put_dict k1 i d d')"
    using Suc.prems(1) i f by (rule create_put_same)
  then obtain k1 d d' ok where c: "createDictIfNeeded kvs i = Some (k1, d)" "?f d = Some (d', ok)"
    "kv_same ty kvs (put_dict k1 i d d')"
    by (elim exE conjE)
  let ?k = "put_dict k1 i d d'"
  have "i + 1 + n \<le> num_dicts ?k" using Suc.prems(2) kv_sameD(2) [OF c(3)] by simp
  then obtain kvs' ok' where r: "expand_dicts cr ty sz al skip (i + 1) ?k n = Some (kvs', ok')" "kv_same ty ?k kvs'"
    using Suc.IH [OF kv_sameD(1) [OF c(3)]] by blast
  have "\<exists>kvs' ok. expand_dicts cr ty sz al skip (i + 1) kvs n = Some (kvs', ok) \<and> kv_same ty kvs kvs'"
    using Suc.IH [OF Suc.prems(1)] Suc.prems(2) by simp
  moreover have "\<exists>kvs' ok. expand_dicts cr ty sz al skip i kvs (Suc n) = Some (kvs', ok) \<and> kv_same ty kvs kvs'" if "\<not> skip i"
    using that c(1,2) r kv_same_trans [OF c(3) r(2)] c(3) by (cases "al \<noteq> None \<and> \<not> ok") (auto simp: Let_def)
  ultimately show ?case by (cases "skip i") simp_all
qed

lemma resize_dicts_ok:
  "kv_inv ty kvs \<Longrightarrow> \<exists>kvs'. resize_dicts cr ty kvs n = Some kvs' \<and> kv_same ty kvs kvs'"
proof (induction n arbitrary: kvs)
  case 0
  then show ?case by (simp add: kv_same_refl)
next
  case (Suc n)
  let ?i = "resize_cursor kvs"
  have i: "?i < num_dicts kvs" using kv_invD(2) [OF Suc.prems] by (simp add: layout_ok_def)
  note l = layoutD [OF kv_invD(2) [OF Suc.prems] i]
  define f where "f d = do {
      (d1, ok) \<leftarrow> dictShrinkIfNeeded cr ty d;
      d2 \<leftarrow> (if \<not> ok then map_option fst (dictExpandIfNeeded cr ty d1) else Some d1);
      Some (put_dict kvs ?i d d2)
    }" for d
  have step: "\<exists>k. (case dicts kvs ! ?i of None \<Rightarrow> Some kvs | Some d \<Rightarrow> f d) = Some k \<and> kv_same ty kvs k"
  proof (cases "dicts kvs ! ?i")
    case None
    then show ?thesis using kv_same_refl [OF Suc.prems] by simp
  next
    case (Some d)
    have di: "dict_inv ty d" using l(3) [OF Some] by (simp add: dict_ready_def)
    obtain d1 ok where d1: "dictShrinkIfNeeded cr ty d = Some (d1, ok)" "same_dict ty d d1"
      using dictShrinkIfNeeded_ok [OF di] by blast
    have i1: "dict_inv ty d1" using d1(2) by (simp add: same_dict_def)
    obtain d2 ok2 where d2: "dictExpandIfNeeded cr ty d1 = Some (d2, ok2)" "same_dict ty d1 d2"
      using dictExpandIfNeeded_ok [OF i1] by blast
    have s2: "same_dict ty d d2" using d1(2) d2(2) by (rule same_dict_trans)
    show ?thesis
      using put_kv_same [OF Suc.prems i Some d1(2)] put_kv_same [OF Suc.prems i Some s2] d1(1) d2(1) Some
      by (cases ok) (simp_all add: f_def)
  qed
  then obtain k where k: "(case dicts kvs ! ?i of None \<Rightarrow> Some kvs | Some d \<Rightarrow> f d) = Some k" "kv_same ty kvs k" by blast
  let ?k = "k\<lparr>resize_cursor := (?i + 1) mod num_dicts k\<rparr>"
  note kk = kv_invD [OF kv_sameD(1) [OF k(2)]]
  have sz: "kv_sizes ?k = kv_sizes k" by (simp add: kv_sizes_def)
  have "layout_ok ty ?k" using kk(2) by (simp add: layout_ok_def num_dicts_def)
  moreover have "counts_ok ?k (kv_sizes k)" using kk(3) counts_ok_cong [of ?k k] by simp
  ultimately have "kv_same ty k ?k" using sz kv_map_dicts [of ?k k] by (simp add: kv_same_def kv_inv_def kv_rel_def)
  then have same: "kv_same ty kvs ?k" by (rule kv_same_trans [OF k(2)])
  obtain kvs' where "resize_dicts cr ty ?k n = Some kvs'" "kv_same ty ?k kvs'" using Suc.IH [OF kv_sameD(1) [OF same]] by blast
  moreover have "resize_dicts cr ty kvs (Suc n) = resize_dicts cr ty ?k n" using l(2) k(1) [unfolded f_def] by (simp add: Let_def)
  ultimately show ?case using kv_same_trans [OF same] by auto
qed

lemma incr_rehash_loop_ok:
  "kv_inv ty kvs \<Longrightarrow> \<exists>kvs'. incr_rehash_loop cr ty kvs ts = Some kvs' \<and> kv_same ty kvs kvs'"
proof (induction ts arbitrary: kvs)
  case Nil
  then show ?case by (simp add: kv_same_refl)
next
  case (Cons t ts)
  show ?case
  proof (cases "rehashing kvs")
    case Nil
    then show ?thesis using kv_same_refl [OF Cons.prems] by simp
  next
    case (Cons i js)
    note lay = kv_invD(2) [OF Cons.prems]
    have "i \<in> set (rehashing kvs)" using Cons by simp
    then have i: "i < num_dicts kvs" "rehash_from (dicts kvs ! i) \<noteq> None" using lay by (auto simp: layout_ok_def)
    then obtain d where d: "dicts kvs ! i = Some d" by (cases "dicts kvs ! i") (simp_all add: rehash_from_def)
    note l = layoutD [OF lay i(1)]
    obtain d' n where d': "dictRehashMicroseconds cr ty t d = Some (d', n)" "same_dict ty d d'"
      using dictRehashMicroseconds_ok readyD(1) [OF l(3) [OF d]] by blast
    note same = put_kv_same [OF Cons.prems i(1) d d'(2)]
    show ?thesis using Cons.IH [OF kv_sameD(1) [OF same]] kv_same_trans [OF same] Cons l(2) d d'(1) by auto
  qed
qed

section \<open>Emptying and creating\<close>

text \<open>A place of the array after it has been emptied.\<close>

definition blank :: "('k, 'v) dictType \<Rightarrow> ('k, 'v) dict option \<Rightarrow> bool" where
  "blank ty x \<longleftrightarrow> (\<forall>d. x = Some d \<longrightarrow> dict_ready ty d \<and> dict_map d = Map.empty) \<and> dict_size x = 0 \<and> dict_buckets x = 0 \<and>
     rehash_from x = None"

lemma blank_None: "blank ty None"
  by (simp add: blank_def dict_size_def dict_buckets_def rehash_from_def)

lemma blank_create: "blank ty (Some dictCreate)"
  by (simp add: blank_def dictCreate_facts dictCreate_ready)

lemma blank_dictEmpty: "dict_inv ty d \<Longrightarrow> blank ty (Some (fst (dictEmpty d)))"
  using dictEmpty_ok [of ty d] clear_both [of ty d]
  by (simp add: blank_def dict_ready_def dict_size_def dict_buckets_def rehash_from_def)
    (simp add: dictEmpty_def Let_def dictSize_def dictBuckets_def dictIsRehashing_def dictReset_def)

lemma kv_inv_blank:
  assumes "\<forall>x \<in> set (dicts kvs). blank ty x" "num_dicts_bits kvs \<le> 16" "length (dicts kvs) = num_dicts kvs"
    and "resize_cursor kvs = 0" "allocated_dicts kvs = int (length (filter (\<lambda>d. d \<noteq> None) (dicts kvs)))"
    and "bucket_total kvs = 0" "overhead_rehashing kvs = 0" "rehashing kvs = []" "key_count kvs = 0" "non_empty_dicts kvs = 0"
    and "if num_dicts_bits kvs = 0 then dict_sizes kvs = None
      else \<exists>ft. dict_sizes kvs = Some ft \<and> fw_inv ft (replicate (num_dicts kvs) 0)"
  shows "kv_inv ty kvs \<and> kv_map kvs = (\<lambda>_. Map.empty) \<and> sum_list (kv_sizes kvs) = 0"
proof -
  have z: "map f (dicts kvs) = replicate (num_dicts kvs) 0" if "\<And>x. blank ty x \<Longrightarrow> f x = (0 :: nat)" for f
    using that assms(1,3) by (intro nth_equalityI) auto
  have sizes: "kv_sizes kvs = replicate (num_dicts kvs) 0" unfolding kv_sizes_def by (rule z) (simp add: blank_def)
  have b: "map dict_buckets (dicts kvs) = replicate (num_dicts kvs) 0" by (rule z) (simp add: blank_def)
  have o: "map (from_size \<circ> rehash_from) (dicts kvs) = replicate (num_dicts kvs) 0"
    by (rule z) (simp add: blank_def from_size_def)
  have "rehash_from (dicts kvs ! i) = None" if "i < length (dicts kvs)" for i using that assms(1) by (auto simp: blank_def)
  then have re: "set (rehashing kvs) = {i. i < length (dicts kvs) \<and> rehash_from (dicts kvs ! i) \<noteq> None}"
    using assms(8) by auto
  have "\<forall>d. Some d \<in> set (dicts kvs) \<longrightarrow> dict_ready ty d" using assms(1) by (auto simp: blank_def)
  then have "layout_ok ty kvs"
    unfolding layout_ok_def b o re [symmetric] using assms(2-8) by (simp add: sum_list_replicate num_dicts_def)
  moreover have "counts_ok kvs (kv_sizes kvs)" using assms(9-11) by (simp add: sizes counts_ok_def sum_list_replicate)
  moreover have "kv_map kvs = (\<lambda>_. Map.empty)"
    using assms(1) by (auto simp: kv_map_def blank_def fun_eq_iff split: option.split dest!: nth_mem)
  ultimately show ?thesis by (simp add: kv_inv_def kv_rel_def sizes sum_list_replicate)
qed

lemma empty_step:
  assumes i: "i < length (dicts kvs)" and d: "dicts kvs ! i = Some d" "dict_inv ty d"
  shows "\<exists>k' x. freeDictIfNeeded cf ((put_dict kvs i d (fst (dictEmpty d)))\<lparr>rehashing := ns\<rparr>) i = Some k' \<and>
    dicts k' = (dicts kvs)[i := x] \<and> blank ty x \<and> allocated_dicts k' = allocated_dicts kvs - (if x = None then 1 else 0) \<and>
    num_dicts_bits k' = num_dicts_bits kvs \<and> dict_sizes k' = dict_sizes kvs"
proof -
  let ?d = "fst (dictEmpty d)" and ?k = "(put_dict kvs i d (fst (dictEmpty d)))\<lparr>rehashing := ns\<rparr>"
  have get: "kvstoreGetDict ?k i = Some (Some ?d)" using i by (simp add: kvstoreGetDict_def)
  show ?thesis
  proof (cases "\<not> free_empty ?k \<or> dictSize ?d \<noteq> 0 \<or> pauserehash ?d > 0 \<or> \<not> cf i")
    case True
    then have "freeDictIfNeeded cf ?k i = Some ?k" unfolding freeDictIfNeeded_def get by simp
    then show ?thesis using blank_dictEmpty [OF d(2)] by (intro exI [of _ ?k] exI [of _ "Some ?d"]) simp
  next
    case False
    let ?k' = "(run_callbacks i (drop (length (callbacks ?d)) (fst (dictRelease ?d))) ?k)
      \<lparr>dicts := (dicts ?k)[i := None], allocated_dicts := allocated_dicts ?k - 1\<rparr>"
    have "freeDictIfNeeded cf ?k i = Some ?k'"
      using False unfolding freeDictIfNeeded_def get by (simp add: Let_def)
    then show ?thesis using blank_None by (intro exI [of _ ?k'] exI [of _ None]) simp
  qed
qed

lemma empty_dicts_ok:
  assumes "\<forall>d. Some d \<in> set (dicts kvs) \<longrightarrow> dict_inv ty d" "i + n = length (dicts kvs)"
    and "allocated_dicts kvs = int (length (filter (\<lambda>d. d \<noteq> None) (dicts kvs)))"
  shows "\<exists>k'. empty_dicts cf i kvs n = Some k' \<and> length (dicts k') = length (dicts kvs) \<and>
    (\<forall>j < i. dicts k' ! j = dicts kvs ! j) \<and> (\<forall>j. i \<le> j \<and> j < length (dicts kvs) \<longrightarrow> blank ty (dicts k' ! j)) \<and>
    allocated_dicts k' = int (length (filter (\<lambda>d. d \<noteq> None) (dicts k'))) \<and>
    num_dicts_bits k' = num_dicts_bits kvs \<and> dict_sizes k' = dict_sizes kvs"
  using assms
proof (induction n arbitrary: i kvs)
  case 0
  then show ?case by auto
next
  case (Suc n)
  have i: "i < length (dicts kvs)" using Suc.prems(2) by simp
  have get: "kvstoreGetDict kvs i = Some (dicts kvs ! i)" using i by (simp add: kvstoreGetDict_def)
  let ?step = "case dicts kvs ! i of None \<Rightarrow> Some kvs
    | Some d \<Rightarrow> let nodes = rehashing kvs; k = put_dict kvs i d (fst (dictEmpty d)) in freeDictIfNeeded cf (k\<lparr>rehashing := nodes\<rparr>) i"
  have "\<exists>k x. ?step = Some k \<and> dicts k = (dicts kvs)[i := x] \<and> blank ty x \<and>
      allocated_dicts k = allocated_dicts kvs - (if x = None \<and> dicts kvs ! i \<noteq> None then 1 else 0) \<and>
      (dicts kvs ! i = None \<longrightarrow> x = None) \<and> num_dicts_bits k = num_dicts_bits kvs \<and> dict_sizes k = dict_sizes kvs"
  proof (cases "dicts kvs ! i")
    case None
    then have "dicts kvs = (dicts kvs)[i := None]" by (metis list_update_id)
    then show ?thesis using None blank_None [of ty] by (intro exI [of _ kvs] exI [of _ None]) simp
  next
    case (Some d)
    have "dict_inv ty d" using Suc.prems(1) Some i by (metis nth_mem)
    then show ?thesis using empty_step [OF i Some, of ty cf "rehashing kvs"] Some by simp
  qed
  then obtain k x where k: "?step = Some k" "dicts k = (dicts kvs)[i := x]" "blank ty x"
    "allocated_dicts k = allocated_dicts kvs - (if x = None \<and> dicts kvs ! i \<noteq> None then 1 else 0)"
    "dicts kvs ! i = None \<longrightarrow> x = None" "num_dicts_bits k = num_dicts_bits kvs" "dict_sizes k = dict_sizes kvs"
    by (elim exE conjE)
  have inv: "\<forall>d. Some d \<in> set (dicts k) \<longrightarrow> dict_inv ty d"
    using Suc.prems(1) k(2,3) set_update_subset_insert [of "dicts kvs" i x] by (auto simp: blank_def dict_ready_def)
  have len: "i + 1 + n = length (dicts k)" using Suc.prems(2) k(2) by simp
  have al: "allocated_dicts k = int (length (filter (\<lambda>d. d \<noteq> None) (dicts k)))"
    using Suc.prems(3) k(2,4,5) count_update [OF i, of "\<lambda>d. d \<noteq> None" x] by (auto split: if_splits)
  obtain k' where k': "empty_dicts cf (i + 1) k n = Some k'" "length (dicts k') = length (dicts k)"
    "\<forall>j < i + 1. dicts k' ! j = dicts k ! j" "\<forall>j. i + 1 \<le> j \<and> j < length (dicts k) \<longrightarrow> blank ty (dicts k' ! j)"
    "allocated_dicts k' = int (length (filter (\<lambda>d. d \<noteq> None) (dicts k')))"
    "num_dicts_bits k' = num_dicts_bits k" "dict_sizes k' = dict_sizes k"
    using Suc.IH [OF inv len al] by (elim exE conjE)
  have "empty_dicts cf i kvs (Suc n) = Some k'" using k(1) k'(1) get by simp
  moreover have "blank ty (dicts k' ! j)" if "i \<le> j" "j < length (dicts kvs)" for j
    using that k'(3,4) k(2,3) i by (cases "j = i") simp_all
  ultimately show ?case using k' k(2,6,7) by (intro exI [of _ k']) simp
qed

lemma kvstoreEmpty_ok:
  assumes "kv_inv ty kvs"
  shows "\<exists>kvs'. kvstoreEmpty cf kvs = Some kvs' \<and> kv_inv ty kvs' \<and> kv_map kvs' = (\<lambda>_. Map.empty) \<and>
    sum_list (kv_sizes kvs') = 0 \<and> num_dicts_bits kvs' = num_dicts_bits kvs"
proof -
  have lay: "layout_ok ty kvs" and cnt: "counts_ok kvs (kv_sizes kvs)" using kv_invD [OF assms] by simp_all
  obtain k where k: "empty_dicts cf 0 kvs (num_dicts kvs) = Some k" "length (dicts k) = length (dicts kvs)"
    "\<forall>j. 0 \<le> j \<and> j < length (dicts kvs) \<longrightarrow> blank ty (dicts k ! j)"
    "allocated_dicts k = int (length (filter (\<lambda>d. d \<noteq> None) (dicts k)))" "num_dicts_bits k = num_dicts_bits kvs"
    "dict_sizes k = dict_sizes kvs"
    using empty_dicts_ok [of kvs ty 0 "num_dicts kvs" cf] lay by (auto simp: layout_ok_def dict_ready_def)
  let ?k = "k\<lparr>rehashing := [], key_count := 0, non_empty_dicts := 0, resize_cursor := 0, bucket_total := 0,
    dict_sizes := map_option fwTreeClear (dict_sizes k), overhead_rehashing := 0\<rparr>"
  have "if num_dicts_bits ?k = 0 then dict_sizes ?k = None
      else \<exists>ft. dict_sizes ?k = Some ft \<and> fw_inv ft (replicate (num_dicts ?k) 0)"
    using cnt k(5,6) fwTreeClear_inv by (fastforce simp: counts_ok_def num_dicts_def)
  then have "kv_inv ty ?k \<and> kv_map ?k = (\<lambda>_. Map.empty) \<and> sum_list (kv_sizes ?k) = 0"
    using lay k(2-5) by (intro kv_inv_blank) (auto simp: layout_ok_def num_dicts_def in_set_conv_nth)
  then show ?thesis using k(1,5) by (simp add: kvstoreEmpty_def)
qed

lemma create_dicts_ok:
  assumes "\<forall>x \<in> set (dicts kvs). blank ty x" "i + n = length (dicts kvs)"
    and "allocated_dicts kvs = int (length (filter (\<lambda>d. d \<noteq> None) (dicts kvs)))"
  shows "\<exists>k' ds. create_dicts i kvs n = Some k' \<and> k' = kvs\<lparr>dicts := ds, allocated_dicts := int (length (filter (\<lambda>d. d \<noteq> None) ds))\<rparr> \<and>
    length ds = length (dicts kvs) \<and> (\<forall>x \<in> set ds. blank ty x)"
  using assms
proof (induction n arbitrary: i kvs)
  case 0
  then show ?case by (intro exI [of _ kvs] exI [of _ "dicts kvs"]) simp
next
  case (Suc n)
  have i: "i < length (dicts kvs)" using Suc.prems(2) by simp
  define x where "x = (case dicts kvs ! i of None \<Rightarrow> Some dictCreate | y \<Rightarrow> y)"
  define k where "k = kvs\<lparr>dicts := (dicts kvs)[i := x], allocated_dicts := int (length (filter (\<lambda>d. d \<noteq> None) ((dicts kvs)[i := x])))\<rparr>"
  have "\<exists>d. createDictIfNeeded kvs i = Some (k, d)"
  proof (cases "dicts kvs ! i")
    case None
    then show ?thesis using count_update [OF i, of "\<lambda>d. d \<noteq> None" x] Suc.prems(3) i
      by (simp add: createDictIfNeeded_def kvstoreGetDict_def k_def x_def)
  next
    case (Some d)
    then have "(dicts kvs)[i := x] = dicts kvs" by (simp add: x_def list_update_same_conv i)
    then have "k = kvs" using Suc.prems(3) by (simp add: k_def)
    then show ?thesis using Some i by (simp add: createDictIfNeeded_def kvstoreGetDict_def)
  qed
  moreover have "blank ty (dicts kvs ! i)" using Suc.prems(1) i by simp
  then have "blank ty x" using blank_create by (cases "dicts kvs ! i") (simp_all add: x_def)
  then have "\<forall>x \<in> set (dicts k). blank ty x"
    using Suc.prems(1) set_update_subset_insert [of "dicts kvs" i x] by (auto simp: k_def)
  moreover have "i + 1 + n = length (dicts k)" "allocated_dicts k = int (length (filter (\<lambda>d. d \<noteq> None) (dicts k)))"
    using Suc.prems(2) by (simp_all add: k_def)
  ultimately show ?case using Suc.IH [of k "i + 1"] by (auto simp: k_def)
qed

lemma kvstoreCreate_ok:
  fixes ty :: "('k, 'v) dictType"
  assumes "b \<le> 16"
  shows "\<exists>kvs. kvstoreCreate b od fe = Some kvs \<and> kv_inv ty kvs \<and> kv_map kvs = (\<lambda>_. Map.empty) \<and>
    sum_list (kv_sizes kvs) = 0 \<and> num_dicts_bits kvs = b"
proof -
  define kvs where "kvs = (\<lparr>on_demand = od, free_empty = fe, dicts = replicate (2 ^ b) None, num_dicts_bits = b,
    rehashing = [], resize_cursor = 0, allocated_dicts = 0, non_empty_dicts = 0, key_count = 0, bucket_total = 0,
    dict_sizes = None, overhead_rehashing = 0\<rparr> :: ('k, 'v) kvstore)"
  obtain ft where ft: "fwTreeCreate b = Some ft" "fw_inv ft (replicate (2 ^ b) 0)" using fwTreeCreate_inv [of b] assms by auto
  have "\<exists>k ds. (if \<not> od then create_dicts 0 kvs (num_dicts kvs) else Some kvs) = Some k \<and>
      k = kvs\<lparr>dicts := ds, allocated_dicts := int (length (filter (\<lambda>d. d \<noteq> None) ds))\<rparr> \<and>
      length ds = length (dicts kvs) \<and> (\<forall>x \<in> set ds. blank ty x)"
  proof (cases od)
    case True
    then show ?thesis using blank_None by (intro exI [of _ kvs] exI [of _ "dicts kvs"]) (simp add: kvs_def)
  next
    case False
    have "\<forall>x \<in> set (dicts kvs). blank ty x" using blank_None by (simp add: kvs_def)
    moreover have "0 + num_dicts kvs = length (dicts kvs)" by (simp add: kvs_def num_dicts_def)
    moreover have "allocated_dicts kvs = int (length (filter (\<lambda>d. d \<noteq> None) (dicts kvs)))" by (simp add: kvs_def)
    ultimately show ?thesis using create_dicts_ok [of kvs ty 0 "num_dicts kvs"] False by simp
  qed
  then obtain k ds where k: "(if \<not> od then create_dicts 0 kvs (num_dicts kvs) else Some kvs) = Some k"
    "k = kvs\<lparr>dicts := ds, allocated_dicts := int (length (filter (\<lambda>d. d \<noteq> None) ds))\<rparr>"
    "length ds = length (dicts kvs)" "\<forall>x \<in> set ds. blank ty x"
    by (elim exE conjE)
  let ?ft = "if num_dicts k > 1 then Some ft else None"
  have "kvstoreCreate b od fe = Some (k\<lparr>dict_sizes := ?ft\<rparr>)"
    using k(1) ft(1) assms unfolding kvs_def by (simp add: kvstoreCreate_def Let_def)
  moreover have "kv_inv ty (k\<lparr>dict_sizes := ?ft\<rparr>) \<and> kv_map (k\<lparr>dict_sizes := ?ft\<rparr>) = (\<lambda>_. Map.empty) \<and>
      sum_list (kv_sizes (k\<lparr>dict_sizes := ?ft\<rparr>)) = 0"
    using assms k(2-4) ft(2) one_less_power [of "2 :: nat" b] by (intro kv_inv_blank) (auto simp: kvs_def num_dicts_def)
  moreover have "num_dicts_bits (k\<lparr>dict_sizes := ?ft\<rparr>) = b" using k(2) by (simp add: kvs_def)
  ultimately show ?thesis by blast
qed

end
