(* ===== verification/Kvstore_Run.thy ===== *)
theory Kvstore_Run
  imports Kvstore_Spec
begin

text \<open>
  The store of \<^verbatim>\<open>kvstore.c\<close> under every sequence of calls: it implements an array of finite maps, its counters
  and its Fenwick tree agree with the dicts, and so the queries by rank and the fair choice of a dict are
  right. \<^verbatim>\<open>kvstoreMoveDict\<close> is treated on its own: it moves the contents but not the count of non-empty dicts.
\<close>

section \<open>Calls\<close>

datatype ('k, 'v) kv_call =
    KvAdd nat 'k 'v | KvFind nat 'k | KvDelete nat 'k | KvUnlink nat 'k | KvDictExpand nat nat
  | KvExpand nat "(nat \<Rightarrow> bool) option" "nat \<Rightarrow> bool" | KvTryResizeDicts nat
  | KvIncrementallyRehash "nat \<Rightarrow> bool" "(nat \<Rightarrow> bool) list" | KvEmpty

text \<open>A call comes with the value of \<^verbatim>\<open>dict_can_resize\<close> and with \<^verbatim>\<open>canFreeDict\<close> at that moment.\<close>

type_synonym ('k, 'v) kv_op = "dictResizeEnable \<times> (nat \<Rightarrow> bool) \<times> ('k, 'v) kv_call"

fun kv_do :: "('k, 'v) dictType \<Rightarrow> ('k, 'v) kv_op \<Rightarrow> ('k, 'v) kvstore \<Rightarrow> (('k, 'v) kvstore \<times> ('k, 'v) dict_reply) option" where
  "kv_do ty (cr, cf, KvAdd i k v) kvs = map_option (\<lambda>(kvs, b). (kvs, ReplyBool b)) (kvstore_add cr ty kvs i k v)"
| "kv_do ty (cr, cf, KvFind i k) kvs =
     map_option (\<lambda>(kvs, he). (kvs, ReplyEntry (map_option ent he))) (kvstoreDictFind cr ty kvs i k)"
| "kv_do ty (cr, cf, KvDelete i k) kvs = map_option (\<lambda>(kvs, b). (kvs, ReplyBool b)) (kvstoreDictDelete cr cf ty kvs i k)"
| "kv_do ty (cr, cf, KvUnlink i k) kvs = map_option (\<lambda>(kvs, b). (kvs, ReplyBool b)) (kvstore_unlink cr cf ty kvs i k)"
| "kv_do ty (cr, cf, KvDictExpand i n) kvs = map_option (\<lambda>(kvs, b). (kvs, ReplyNone)) (kvstoreDictExpand cr ty kvs i n)"
| "kv_do ty (cr, cf, KvExpand n al skip) kvs = map_option (\<lambda>(kvs, b). (kvs, ReplyNone)) (kvstoreExpand cr ty kvs n al skip)"
| "kv_do ty (cr, cf, KvTryResizeDicts n) kvs = map_option (\<lambda>kvs. (kvs, ReplyNone)) (kvstoreTryResizeDicts cr ty kvs n)"
| "kv_do ty (cr, cf, KvIncrementallyRehash t ts) kvs =
     map_option (\<lambda>kvs. (kvs, ReplyNone)) (kvstoreIncrementallyRehash cr ty kvs t ts)"
| "kv_do ty (cr, cf, KvEmpty) kvs = map_option (\<lambda>kvs. (kvs, ReplyNone)) (kvstoreEmpty cf kvs)"

text \<open>The same calls on an array of maps.\<close>

fun maps_call :: "('k, 'v) dictType \<Rightarrow> ('k, 'v) kv_op \<Rightarrow> (nat \<Rightarrow> 'k \<Rightarrow> 'v option option) \<Rightarrow>
    (nat \<Rightarrow> 'k \<Rightarrow> 'v option option) \<times> ('k, 'v) dict_reply" where
  "maps_call ty (cr, cf, KvAdd i k v) m =
     (if m i k = None then m(i := (m i)(k \<mapsto> new_val ty v)) else m, ReplyBool (m i k = None))"
| "maps_call ty (cr, cf, KvFind i k) m = (m, ReplyEntry (map_option (Pair k) (m i k)))"
| "maps_call ty (cr, cf, KvDelete i k) m = (m(i := (m i)(k := None)), ReplyBool (m i k \<noteq> None))"
| "maps_call ty (cr, cf, KvUnlink i k) m = (m(i := (m i)(k := None)), ReplyBool (m i k \<noteq> None))"
| "maps_call ty (cr, cf, KvEmpty) m = (\<lambda>_. Map.empty, ReplyNone)"
| "maps_call ty (cr, cf, _) m = (m, ReplyNone)"

fun kv_allowed :: "nat \<Rightarrow> ('k, 'v) kv_op \<Rightarrow> bool" where
  "kv_allowed b (cr, cf, KvAdd i k v) = (i < 2 ^ b)"
| "kv_allowed b (cr, cf, KvFind i k) = (i < 2 ^ b)"
| "kv_allowed b (cr, cf, KvDelete i k) = (i < 2 ^ b)"
| "kv_allowed b (cr, cf, KvUnlink i k) = (i < 2 ^ b)"
| "kv_allowed b (cr, cf, KvDictExpand i n) = (i < 2 ^ b)"
| "kv_allowed b (cr, cf, _) = True"

text \<open>The store after \<open>n\<close> calls: it has at most \<open>n\<close> keys.\<close>

definition kv_state :: "('k, 'v) dictType \<Rightarrow> nat \<Rightarrow> nat \<Rightarrow> ('k, 'v) kvstore \<Rightarrow> bool" where
  "kv_state ty b n kvs \<longleftrightarrow> kv_inv ty kvs \<and> num_dicts_bits kvs = b \<and> sum_list (kv_sizes kvs) \<le> n"

definition kv_fits :: "nat \<Rightarrow> bool" where
  "kv_fits n \<longleftrightarrow> n + 1 < 2 ^ 64"

lemma kv_state_same: "kv_state ty b n kvs \<Longrightarrow> kv_same ty kvs kvs' \<Longrightarrow> kv_state ty b (Suc n) kvs' \<and> kv_map kvs' = kv_map kvs"
  by (simp add: kv_state_def kv_same_def)

lemma kv_do_ok:
  assumes st: "kv_state ty b n kvs" and al: "kv_allowed b (cr, cf, c)" and fits: "kv_fits n"
  shows "\<exists>kvs'. kv_do ty (cr, cf, c) kvs = Some (kvs', snd (maps_call ty (cr, cf, c) (kv_map kvs))) \<and>
    kv_state ty b (Suc n) kvs' \<and> kv_map kvs' = fst (maps_call ty (cr, cf, c) (kv_map kvs))"
proof -
  have inv: "kv_inv ty kvs" and nd: "num_dicts kvs = 2 ^ b" and le: "sum_list (kv_sizes kvs) \<le> n"
    using st by (simp_all add: kv_state_def num_dicts_def)
  have room: "sum_list (kv_sizes kvs) + 1 < 2 ^ 64" using le fits by (simp add: kv_fits_def)
  note same = kv_state_same [OF st]
  show ?thesis
  proof (cases c)
    case (KvAdd i k v)
    then show ?thesis using kvstore_add_ok [OF inv _ room, of i cr k v] al nd st by (auto simp: kv_state_def)
  next
    case (KvFind i k)
    then show ?thesis using kvstoreDictFind_ok [OF inv, of i cr k] al nd st by (auto simp: kv_state_def)
  next
    case (KvDelete i k)
    then show ?thesis using kvstoreDictDelete_ok [OF inv _ room, of i cr cf k] al nd st by (auto simp: kv_state_def)
  next
    case (KvUnlink i k)
    then show ?thesis using kvstore_unlink_ok [OF inv _ room, of i cr cf k] al nd st by (auto simp: kv_state_def)
  next
    case (KvDictExpand i m)
    then show ?thesis using kvstoreDictExpand_ok [OF inv, of i cr m] same al nd by auto
  next
    case (KvExpand m a skip)
    then show ?thesis using expand_dicts_ok [OF inv, of 0 "num_dicts kvs" cr m a skip] same by (auto simp: kvstoreExpand_def)
  next
    case (KvTryResizeDicts m)
    then show ?thesis using resize_dicts_ok [OF inv] same by (fastforce simp: kvstoreTryResizeDicts_def)
  next
    case (KvIncrementallyRehash t ts)
    obtain k where "kvstoreIncrementallyRehash cr ty kvs t ts = Some k" "kv_same ty kvs k"
      using incr_rehash_loop_ok [OF inv, of cr "t # ts"] kv_same_refl [OF inv]
      by (cases "rehashing kvs = []") (auto simp: kvstoreIncrementallyRehash_def)
    then show ?thesis using KvIncrementallyRehash same by auto
  next
    case KvEmpty
    obtain k where k: "kvstoreEmpty cf kvs = Some k" "kv_inv ty k" "kv_map k = (\<lambda>_. Map.empty)" "sum_list (kv_sizes k) = 0"
      "num_dicts_bits k = num_dicts_bits kvs"
      using kvstoreEmpty_ok [OF inv, of cf] by (elim exE conjE)
    have "sum_list (kv_sizes k) \<le> Suc n" using k(4) by linarith
    then show ?thesis using KvEmpty k(1-3,5) st by (simp add: kv_state_def)
  qed
qed

interpretation kv_machine: op_machine "kv_state ty b" kv_map "kv_do ty" "maps_call ty" "kv_allowed b" kv_fits
  for ty :: "('k, 'v) dictType" and b
proof
  fix n kvs and op :: "('k, 'v) kv_op"
  assume "kv_state ty b n kvs" "kv_allowed b op" "kv_fits n"
  then show "\<exists>kvs'. kv_do ty op kvs = Some (kvs', snd (maps_call ty op (kv_map kvs))) \<and> kv_state ty b (Suc n) kvs' \<and>
      kv_map kvs' = fst (maps_call ty op (kv_map kvs))"
    by (cases op) (simp only: kv_do_ok)
qed

lemma kvstore_run:
  fixes ty :: "('k, 'v) dictType"
  assumes "b \<le> 16" "\<forall>op \<in> set ops. kv_allowed b op" "length ops < 2 ^ 64 - 1"
  shows "\<exists>kvs kvs'. kvstoreCreate b od fe = Some kvs \<and>
    run_ops (kv_do ty) ops kvs = Some (kvs', snd (run_spec (maps_call ty) ops (\<lambda>_. Map.empty))) \<and>
    kv_state ty b (length ops) kvs' \<and> kv_map kvs' = fst (run_spec (maps_call ty) ops (\<lambda>_. Map.empty))"
proof -
  obtain kvs :: "('k, 'v) kvstore" where kvs: "kvstoreCreate b od fe = Some kvs" "kv_inv ty kvs"
    "kv_map kvs = (\<lambda>_. Map.empty)" "sum_list (kv_sizes kvs) = 0" "num_dicts_bits kvs = b"
    using kvstoreCreate_ok [OF assms(1)] by blast
  have "kv_state ty b 0 kvs" using kvs(2,4,5) by (simp add: kv_state_def)
  moreover have "\<forall>i < length ops. kv_fits (0 + i)" using assms(3) by (simp add: kv_fits_def)
  ultimately show ?thesis using kv_machine.run_refines [of ty b 0 kvs ops] assms(2) kvs(1,3) by auto
qed

section \<open>Keys, counters and ranks\<close>

lemma unat_of_nat64: "n < 2 ^ 64 \<Longrightarrow> unat (of_nat n :: u64) = n"
  by (simp add: unat_of_nat)

text \<open>The keys of the dicts before index \<open>r\<close>.\<close>

definition keys_before :: "('k, 'v) kvstore \<Rightarrow> nat \<Rightarrow> nat" where
  "keys_before kvs r = (\<Sum>i < r. card (dom (kv_map kvs i)))"

lemma kv_sizes_card:
  assumes "kv_inv ty kvs" "i < num_dicts kvs"
  shows "kv_sizes kvs ! i = card (dom (kv_map kvs i))"
proof -
  note l = layoutD [OF kv_invD(2) [OF assms(1)] assms(2)]
  show ?thesis
  proof (cases "dicts kvs ! i")
    case None
    then show ?thesis using l(1) by (simp add: kv_sizes_def dict_size_def kv_map_def)
  next
    case (Some d)
    then show ?thesis using l(1) dictSize_card [of ty d] readyD(1) [OF l(3) [OF Some]]
      by (simp add: kv_sizes_def dict_size_def kv_map_def)
  qed
qed

lemma length_kv_sizes: "kv_inv ty kvs \<Longrightarrow> length (kv_sizes kvs) = num_dicts kvs"
  using kv_invD(2) by (auto simp: layout_ok_def kv_sizes_def)

lemma psum_keys_before:
  assumes "kv_inv ty kvs" "r \<le> num_dicts kvs"
  shows "psum (kv_sizes kvs) r = keys_before kvs r"
proof -
  have "psum (kv_sizes kvs) r = (\<Sum>i < r. take r (kv_sizes kvs) ! i)"
    using assms length_kv_sizes [OF assms(1)] by (simp add: psum_def sum_list_sum_nth atLeast0LessThan)
  also have "\<dots> = keys_before kvs r"
    unfolding keys_before_def using kv_sizes_card [OF assms(1)] assms(2) by (intro sum.cong) simp_all
  finally show ?thesis .
qed

lemma sum_keys_before:
  assumes "kv_inv ty kvs"
  shows "sum_list (kv_sizes kvs) = keys_before kvs (num_dicts kvs)"
  using psum_keys_before [OF assms, of "num_dicts kvs"] psum_all [of "kv_sizes kvs"] length_kv_sizes [OF assms] by simp

lemma kvstoreSize_keys:
  assumes "kv_inv ty kvs"
  shows "kvstoreSize kvs = of_nat (keys_before kvs (num_dicts kvs))" "keys_before kvs (num_dicts kvs) < 2 ^ 64"
  using kv_invD(3) [OF assms] sum_keys_before [OF assms] by (simp_all add: kvstoreSize_def counts_ok_def)

lemma non_empty_keys:
  assumes "kv_inv ty kvs"
  shows "non_empty_dicts kvs = int (card {i. i < num_dicts kvs \<and> kv_map kvs i \<noteq> Map.empty})"
proof -
  have "kv_sizes kvs ! i \<noteq> 0 \<longleftrightarrow> kv_map kvs i \<noteq> Map.empty" if "i < num_dicts kvs" for i
  proof -
    have "finite (dom (kv_map kvs i))" by (simp add: kv_map_def dict_map_finite split: option.split)
    then show ?thesis using kv_sizes_card [OF assms that] by (auto simp: card_eq_0_iff)
  qed
  then have "{i. i < num_dicts kvs \<and> kv_sizes kvs ! i \<noteq> 0} = {i. i < num_dicts kvs \<and> kv_map kvs i \<noteq> Map.empty}" by auto
  then show ?thesis
    using kv_invD(3) [OF assms] length_kv_sizes [OF assms] by (simp add: counts_ok_def length_filter_conv_card)
qed

lemma find_rank:
  assumes inv: "kv_inv ty kvs" and t: "0 < t" "t \<le> keys_before kvs (num_dicts kvs)"
  shows "\<exists>r. kvstoreFindDictIndexByKeyIndex kvs (of_nat t) = Some r \<and> r < num_dicts kvs \<and>
    keys_before kvs r < t \<and> t \<le> keys_before kvs (Suc r)"
proof -
  have pos: "kvstoreSize kvs \<noteq> 0"
    using kvstoreSize_keys [OF inv] t by (metis le_zero_eq less_irrefl_nat unat_0 unat_of_nat64)
  show ?thesis
  proof (cases "num_dicts kvs = 1")
    case True
    then show ?thesis using t by (simp add: kvstoreFindDictIndexByKeyIndex_def keys_before_def)
  next
    case False
    then have "num_dicts_bits kvs \<noteq> 0" using num_dicts_one by blast
    then obtain ft where ft: "dict_sizes kvs = Some ft" "fw_inv ft (kv_sizes kvs)"
      using kv_invD(3) [OF inv] by (auto simp: counts_ok_def)
    obtain r where r: "fwTreeFindIndex ft (of_nat t) = Some r" "r < length (kv_sizes kvs)"
      "psum (kv_sizes kvs) r < t" "t \<le> psum (kv_sizes kvs) (Suc r)"
      using fwTreeFindIndex_least [OF ft(2) t(1) t(2) [folded sum_keys_before [OF inv]]] by (elim exE conjE)
    have "(of_nat t :: u64) \<le> kvstoreSize kvs"
      using kvstoreSize_keys [OF inv] t(2) by (simp add: word_le_nat_alt unat_of_nat64)
    then have "kvstoreFindDictIndexByKeyIndex kvs (of_nat t) = Some r"
      using False pos ft(1) r(1) by (simp add: kvstoreFindDictIndexByKeyIndex_def)
    then show ?thesis using r(2-4) length_kv_sizes [OF inv] psum_keys_before [OF inv, of r] psum_keys_before [OF inv, of "Suc r"]
      by simp
  qed
qed

lemma keys_before_mono: "i \<le> j \<Longrightarrow> keys_before kvs i \<le> keys_before kvs j"
  unfolding keys_before_def by (intro sum_mono2) auto

text \<open>The dict of a random number, when nothing is skipped.\<close>

lemma fair_index:
  assumes inv: "kv_inv ty kvs" and r: "r < keys_before kvs (num_dicts kvs)" and i: "i < num_dicts kvs"
  shows "kvstoreGetFairRandomDictIndex kvs (\<lambda>_. False) (of_nat r # rs) fb = Some (int i) \<longleftrightarrow>
    keys_before kvs i \<le> r \<and> r < keys_before kvs (Suc i)"
proof -
  let ?N = "keys_before kvs (num_dicts kvs)"
  have sz: "kvstoreSize kvs = of_nat ?N" "?N < 2 ^ 64" by (rule kvstoreSize_keys [OF inv])+
  have u: "unat (of_nat ?N :: u64) = ?N" "unat (of_nat r :: u64) = r" using sz(2) r by (simp_all add: unat_of_nat64)
  then have "(of_nat r :: u64) mod of_nat ?N = of_nat r" using r by (simp add: word_unat_eq_iff unat_mod_distrib)
  then have t: "of_nat r mod kvstoreSize kvs + 1 = (of_nat (Suc r) :: u64)" using sz(1) by simp
  obtain j where j: "kvstoreFindDictIndexByKeyIndex kvs (of_nat (Suc r)) = Some j" "j < num_dicts kvs"
    "keys_before kvs j < Suc r" "Suc r \<le> keys_before kvs (Suc j)"
    using find_rank [OF inv, of "Suc r"] r by (auto simp del: of_nat_Suc)
  have nz: "kvstoreSize kvs \<noteq> 0" using sz(1) u(1) r by (metis not_less_zero unat_0)
  have eq: "kvstoreGetFairRandomDictIndex kvs (\<lambda>_. False) (of_nat r # rs) fb = Some (int j)"
  proof (cases "num_dicts kvs = 1")
    case True
    then show ?thesis using j(2) by (simp add: kvstoreGetFairRandomDictIndex_def)
  next
    case False
    then show ?thesis using nz t j(1) by (simp add: kvstoreGetFairRandomDictIndex_def del: of_nat_Suc)
  qed
  show ?thesis
  proof
    assume "kvstoreGetFairRandomDictIndex kvs (\<lambda>_. False) (of_nat r # rs) fb = Some (int i)"
    then show "keys_before kvs i \<le> r \<and> r < keys_before kvs (Suc i)" using eq j(3,4) by simp
  next
    assume r': "keys_before kvs i \<le> r \<and> r < keys_before kvs (Suc i)"
    have "\<not> Suc i \<le> j" using r' j(3) keys_before_mono [of "Suc i" j kvs] by linarith
    moreover have "\<not> Suc j \<le> i" using r' j(4) keys_before_mono [of "Suc j" i kvs] by linarith
    ultimately show "kvstoreGetFairRandomDictIndex kvs (\<lambda>_. False) (of_nat r # rs) fb = Some (int i)" using eq by simp
  qed
qed

section \<open>Moving a dict\<close>

lemma cumulativeKeyCountAdd_any:
  assumes cnt: "counts_ok kvs ns" and bits: "num_dicts_bits kvs \<le> 16" and get: "kvstoreGetDict kvs i = Some (Some d)"
    and i: "i < length ns" and delta: "0 \<le> int (ns ! i) + delta" "int (sum_list ns) + delta < 2 ^ 64" "- (2 ^ 63) < delta"
  shows "\<exists>ft. cumulativeKeyCountAdd kvs i delta = Some (kvs\<lparr>key_count := key_count kvs + word_of_int delta,
      non_empty_dicts := non_empty_dicts kvs + (if dictSize d = 1 \<and> delta > 0 then 1 else if dictSize d = 0 then -1 else 0),
      dict_sizes := ft\<rparr>) \<and>
    (if num_dicts_bits kvs = 0 then ft = None else \<exists>t. ft = Some t \<and> fw_inv t (ns[i := nat (int (ns ! i) + delta)]))"
proof (cases "num_dicts_bits kvs = 0")
  have get': "kvstoreGetDict (kvs\<lparr>key_count := c\<rparr>) i = Some (Some d)" for c
    using get by (simp add: kvstoreGetDict_def split: if_splits)
  case True
  let ?ne = "if dictSize d = 1 \<and> delta > 0 then 1 else if dictSize d = 0 then -1 else (0 :: int)"
  let ?k = "kvs\<lparr>key_count := key_count kvs + word_of_int delta, non_empty_dicts := non_empty_dicts kvs + ?ne\<rparr>"
  have "dict_sizes ?k = None" using True cnt by (simp add: counts_ok_def)
  then have "?k = ?k\<lparr>dict_sizes := None\<rparr>" by (cases kvs) simp
  moreover have "cumulativeKeyCountAdd kvs i delta = Some ?k"
    unfolding cumulativeKeyCountAdd_def Let_def get' using True by (simp add: num_dicts_def)
  ultimately show ?thesis using True by (intro exI [of _ None]) simp
next
  case False
  then obtain ft where ft: "dict_sizes kvs = Some ft" "fw_inv ft ns" using cnt by (auto simp: counts_ok_def)
  have "size_bits ft < 30" using fw_inv_bits [OF cnt ft(1)] bits by simp
  then obtain t where t: "fwTreeUpdate (Some ft) (int i) delta = Some (Some t)"
    "fw_inv t (ns[i := nat (int (ns ! i) + delta)])"
    using fwTreeUpdate_inv [OF ft(2) i delta(1,2) _ delta(3)] by blast
  moreover have "kvstoreGetDict (kvs\<lparr>key_count := c\<rparr>) i = Some (Some d)" for c
    using get by (simp add: kvstoreGetDict_def split: if_splits)
  ultimately show ?thesis using False ft(1)
    by (intro exI [of _ "Some t"]) (simp add: cumulativeKeyCountAdd_def Let_def num_dicts_def)
qed

text \<open>What is left at the place of the dict in the source.\<close>

definition moved_away :: "('k, 'v) kvstore \<Rightarrow> ('k, 'v) dict option" where
  "moved_away kvs = (if on_demand kvs \<or> free_empty kvs then None else Some dictCreate)"

lemma moved_away_blank: "blank ty (moved_away kvs)"
  by (simp add: moved_away_def blank_None blank_create)

definition move_events :: "('k, 'v) dict \<Rightarrow> dict_event list" where
  "move_events d = BucketChanged (- int (dictBuckets d)) #
     (if dictIsRehashing d then [RehashingCompleted (DICTHT_SIZE (ht_size_exp (ht0 d)))] else [])"

definition arrive_events :: "('k, 'v) dict \<Rightarrow> dict_event list" where
  "arrive_events d = BucketChanged (int (dictBuckets d)) #
     (if dictIsRehashing d then [RehashingStarted (DICTHT_SIZE (ht_size_exp (ht0 d)))] else [])"

lemma kvstoreMoveDict_steps:
  assumes "i < num_dicts kvs" "num_dicts kvs = num_dicts dst" "i < length (dicts kvs)" "i < length (dicts dst)"
    and d: "dicts kvs ! i = Some d" "dicts dst ! i = None"
    and k: "cumulativeKeyCountAdd (kvs\<lparr>allocated_dicts := allocated_dicts kvs - 1\<rparr>) i (- int (dictSize d)) = Some k1"
      "dicts k1 = dicts kvs" "on_demand k1 = on_demand kvs" "free_empty k1 = free_empty kvs"
    and t: "cumulativeKeyCountAdd (dst\<lparr>dicts := (dicts dst)[i := Some d], allocated_dicts := allocated_dicts dst + 1\<rparr>) i
        (int (dictSize d)) = Some t1"
  shows "kvstoreMoveDict kvs dst i = Some ((run_callbacks i (move_events d) k1)\<lparr>dicts := (dicts kvs)[i := moved_away kvs],
      allocated_dicts := allocated_dicts k1 + (if moved_away kvs = None then 0 else 1)\<rparr>, run_callbacks i (arrive_events d) t1)"
  using assms
  by (simp add: kvstoreMoveDict_def kvstoreGetDict_def Let_def moved_away_def move_events_def arrive_events_def
      createDictIfNeeded_def)

lemma rel_from_parts:
  assumes lay: "layout_ok ty kvs" and cnt: "counts_ok kvs ns" and i: "i < num_dicts kvs"
    and ev: "track (rehash_from (dicts kvs ! i)) evs = Some (rehash_from x)"
      "bucket_count evs = int (dict_buckets x) - int (dict_buckets (dicts kvs ! i))"
    and x: "\<And>d. x = Some d \<Longrightarrow> dict_ready ty d"
    and k: "dicts k = (dicts kvs)[i := x]" "num_dicts_bits k = num_dicts_bits kvs" "resize_cursor k = resize_cursor kvs"
      "allocated_dicts k = allocated_dicts kvs + (if x \<noteq> None then 1 else 0) - (if dicts kvs ! i \<noteq> None then 1 else 0)"
      "rehashing k = rehashing (run_callbacks i evs kvs)" "bucket_total k = bucket_total (run_callbacks i evs kvs)"
      "overhead_rehashing k = overhead_rehashing (run_callbacks i evs kvs)"
      "key_count k = key_count kvs + word_of_int (int (dict_size x) - int (ns ! i))"
      "non_empty_dicts k = non_empty_dicts kvs + (if dict_size x \<noteq> 0 then 1 else 0) - (if ns ! i \<noteq> 0 then 1 else 0)"
      "if num_dicts_bits kvs = 0 then dict_sizes k = None else \<exists>t. dict_sizes k = Some t \<and> fw_inv t (ns[i := dict_size x])"
    and ns: "ns = kv_sizes kvs" and room: "sum_list (ns[i := dict_size x]) < 2 ^ 64"
  shows "kv_inv ty k"
proof -
  have n: "i < length ns" using cnt i by (simp add: counts_ok_def)
  have "layout_ok ty ((run_callbacks i evs kvs)\<lparr>dicts := (dicts kvs)[i := x], allocated_dicts := allocated_dicts k\<rparr>)"
    using k(4) by (intro replace_dict_layout [OF lay i ev x]) simp_all
  then have "layout_ok ty k" using k(1-7) by (simp add: layout_ok_def num_dicts_def)
  moreover have sz: "kv_sizes k = ns[i := dict_size x]" using k(1) ns by (simp add: kv_sizes_def map_update)
  moreover have "counts_ok k (ns[i := dict_size x])"
    using cnt k(2,8-10) room word_sum_update [OF n, of "key_count kvs" "dict_size x"]
      count_update [OF n, of "\<lambda>n. n \<noteq> 0" "dict_size x"]
    by (simp add: counts_ok_def num_dicts_def)
  ultimately show ?thesis by (simp add: kv_inv_def kv_rel_def)
qed

lemma move_source:
  assumes inv: "kv_inv ty kvs" and i: "i < num_dicts kvs" and d: "dicts kvs ! i = Some d" and small: "dictSize d < 2 ^ 63"
    and k1: "k1 = kvs\<lparr>allocated_dicts := allocated_dicts kvs - 1, key_count := key_count kvs + word_of_int (- int (dictSize d)),
      non_empty_dicts := ne, dict_sizes := ft\<rparr>"
    and ft: "if num_dicts_bits kvs = 0 then ft = None else \<exists>t. ft = Some t \<and> fw_inv t ((kv_sizes kvs)[i := 0])"
    and ne': "ne' = non_empty_dicts kvs - (if dictSize d \<noteq> 0 then 1 else 0)"
  defines "k \<equiv> (run_callbacks i (move_events d) k1)\<lparr>dicts := (dicts kvs)[i := moved_away kvs],
      allocated_dicts := allocated_dicts k1 + (if moved_away kvs = None then 0 else 1)\<rparr>"
  shows "kv_inv ty (k\<lparr>non_empty_dicts := ne'\<rparr>)" "kv_map k = (kv_map kvs)(i := Map.empty)"
proof -
  note rel = kv_invD [OF inv]
  note l = layoutD [OF rel(2) i]
  have sz: "kv_sizes kvs ! i = dictSize d" using d l(1) by (simp add: kv_sizes_def dict_size_def)
  have b: "dict_size (moved_away kvs) = 0" "dict_buckets (moved_away kvs) = 0" "rehash_from (moved_away kvs) = None"
    "\<And>d'. moved_away kvs = Some d' \<Longrightarrow> dict_ready ty d' \<and> dict_map d' = Map.empty"
    using moved_away_blank [of ty kvs] by (simp_all add: blank_def)
  have ev: "track (rehash_from (dicts kvs ! i)) (move_events d) = Some (rehash_from (moved_away kvs))"
    "bucket_count (move_events d) = int (dict_buckets (moved_away kvs)) - int (dict_buckets (dicts kvs ! i))"
    using b d by (simp_all add: move_events_def rehash_from_def dict_buckets_def)
  have room: "sum_list ((kv_sizes kvs)[i := dict_size (moved_away kvs)]) < 2 ^ 64"
    using sum_list_update_nat [of i "kv_sizes kvs" 0] rel(3) b(1) l(1) by (simp add: counts_ok_def kv_sizes_def)
  show "kv_inv ty (k\<lparr>non_empty_dicts := ne'\<rparr>)"
    by (rule rel_from_parts [OF rel(2,3) i ev _ _ _ _ _ _ _ _ _ _ _ refl room])
      (use b(1,4) sz d ft ne' in \<open>simp_all add: k_def k1 move_events_def\<close>)
  have "kv_map k = (kv_map kvs)(i := (case moved_away kvs of None \<Rightarrow> Map.empty | Some d \<Rightarrow> dict_map d))"
    by (rule kv_map_update [OF l(1)]) (simp add: k_def)
  then show "kv_map k = (kv_map kvs)(i := Map.empty)" using b(4) by (cases "moved_away kvs") simp_all
qed

lemma move_destination:
  assumes inv: "kv_inv ty dst" and i: "i < num_dicts dst" and n: "dicts dst ! i = None" and d: "dict_ready ty d"
    and room: "sum_list (kv_sizes dst) + dictSize d < 2 ^ 64"
    and t1: "t1 = dst\<lparr>dicts := (dicts dst)[i := Some d], allocated_dicts := allocated_dicts dst + 1,
      key_count := key_count dst + word_of_int (int (dictSize d)), non_empty_dicts := ne, dict_sizes := ft\<rparr>"
    and ft: "if num_dicts_bits dst = 0 then ft = None else \<exists>t. ft = Some t \<and> fw_inv t ((kv_sizes dst)[i := dictSize d])"
    and ne': "ne' = non_empty_dicts dst + (if dictSize d \<noteq> 0 then 1 else 0)"
  shows "kv_inv ty ((run_callbacks i (arrive_events d) t1)\<lparr>non_empty_dicts := ne'\<rparr>)"
    "kv_map (run_callbacks i (arrive_events d) t1) = (kv_map dst)(i := dict_map d)"
proof -
  note rel = kv_invD [OF inv]
  note l = layoutD [OF rel(2) i]
  have sz: "kv_sizes dst ! i = 0" using n l(1) by (simp add: kv_sizes_def dict_size_def)
  have b: "dict_size (Some d) = dictSize d" "dict_buckets (Some d) = dictBuckets d" by (simp_all add: dict_size_def dict_buckets_def)
  have ev: "track (rehash_from (dicts dst ! i)) (arrive_events d) = Some (rehash_from (Some d))"
    "bucket_count (arrive_events d) = int (dict_buckets (Some d)) - int (dict_buckets (dicts dst ! i))"
    using n by (simp_all add: arrive_events_def rehash_from_def dict_buckets_def)
  have room': "sum_list ((kv_sizes dst)[i := dict_size (Some d)]) < 2 ^ 64"
    using sum_list_update_nat [of i "kv_sizes dst" "dictSize d"] b(1) l(1) room sz by (simp add: kv_sizes_def)
  show "kv_inv ty ((run_callbacks i (arrive_events d) t1)\<lparr>non_empty_dicts := ne'\<rparr>)"
    by (rule rel_from_parts [OF rel(2,3) i ev _ _ _ _ _ _ _ _ _ _ _ refl room'])
      (use b(1) sz n d ft ne' in \<open>simp_all add: t1 arrive_events_def\<close>)
  show "kv_map (run_callbacks i (arrive_events d) t1) = (kv_map dst)(i := dict_map d)"
    using kv_map_update [OF l(1), of "run_callbacks i (arrive_events d) t1" "Some d"] by (simp add: t1)
qed

lemma move_source_count:
  assumes inv: "kv_inv ty kvs" and i: "i < num_dicts kvs" and d: "dicts kvs ! i = Some d" and small: "dictSize d < 2 ^ 63"
  shows "\<exists>ft. cumulativeKeyCountAdd (kvs\<lparr>allocated_dicts := allocated_dicts kvs - 1\<rparr>) i (- int (dictSize d)) =
      Some (kvs\<lparr>allocated_dicts := allocated_dicts kvs - 1, key_count := key_count kvs + word_of_int (- int (dictSize d)),
        non_empty_dicts := non_empty_dicts kvs + (if dictSize d = 0 then -1 else 0), dict_sizes := ft\<rparr>) \<and>
    (if num_dicts_bits kvs = 0 then ft = None else \<exists>t. ft = Some t \<and> fw_inv t ((kv_sizes kvs)[i := 0]))"
proof -
  note rel = kv_invD [OF inv]
  note l = layoutD [OF rel(2) i]
  let ?k = "kvs\<lparr>allocated_dicts := allocated_dicts kvs - 1\<rparr>"
  have sz: "kv_sizes kvs ! i = dictSize d" using d l(1) by (simp add: kv_sizes_def dict_size_def)
  then have e: "nat (int (kv_sizes kvs ! i) + - int (dictSize d)) = 0" by simp
  have "counts_ok ?k (kv_sizes kvs)" "kvstoreGetDict ?k i = Some (Some d)" "i < length (kv_sizes kvs)"
    using rel(3) counts_ok_cong [of ?k kvs] l(1) d by (simp_all add: kvstoreGetDict_def kv_sizes_def)
  moreover have "sum_list (kv_sizes kvs) < 2 ^ 64" "num_dicts_bits kvs \<le> 16"
    using rel(2,3) by (simp_all add: counts_ok_def layout_ok_def)
  ultimately show ?thesis
    using cumulativeKeyCountAdd_any [of ?k "kv_sizes kvs" i d "- int (dictSize d)", unfolded e] sz small by auto
qed

lemma move_destination_count:
  assumes inv: "kv_inv ty dst" and i: "i < num_dicts dst" and n: "dicts dst ! i = None"
    and room: "sum_list (kv_sizes dst) + dictSize d < 2 ^ 63"
  shows "\<exists>ft. cumulativeKeyCountAdd (dst\<lparr>dicts := (dicts dst)[i := Some d], allocated_dicts := allocated_dicts dst + 1\<rparr>) i (int (dictSize d)) =
      Some (dst\<lparr>dicts := (dicts dst)[i := Some d], allocated_dicts := allocated_dicts dst + 1,
        key_count := key_count dst + word_of_int (int (dictSize d)),
        non_empty_dicts := non_empty_dicts dst + (if dictSize d = 1 then 1 else if dictSize d = 0 then -1 else 0), dict_sizes := ft\<rparr>) \<and>
    (if num_dicts_bits dst = 0 then ft = None else \<exists>t. ft = Some t \<and> fw_inv t ((kv_sizes dst)[i := dictSize d]))"
proof -
  note rel = kv_invD [OF inv]
  note l = layoutD [OF rel(2) i]
  let ?t = "dst\<lparr>dicts := (dicts dst)[i := Some d], allocated_dicts := allocated_dicts dst + 1\<rparr>"
  have sz: "kv_sizes dst ! i = 0" using n l(1) by (simp add: kv_sizes_def dict_size_def)
  then have e: "nat (int (kv_sizes dst ! i) + int (dictSize d)) = dictSize d" by simp
  have one: "(dictSize d = 1 \<and> int (dictSize d) > 0) = (dictSize d = 1)" by auto
  have "counts_ok ?t (kv_sizes dst)" "kvstoreGetDict ?t i = Some (Some d)" "i < length (kv_sizes dst)"
    using rel(3) counts_ok_cong [of ?t dst] l(1) by (simp_all add: kvstoreGetDict_def kv_sizes_def)
  moreover have "num_dicts_bits dst \<le> 16" using rel(2) by (simp add: layout_ok_def)
  ultimately show ?thesis
    using cumulativeKeyCountAdd_any [of ?t "kv_sizes dst" i d "int (dictSize d)", unfolded e one] sz room by auto
qed

lemma move_dict_ok:
  assumes inv: "kv_inv ty kvs" "kv_inv ty dst" and b: "num_dicts_bits dst = num_dicts_bits kvs" and i: "i < num_dicts kvs"
    and d: "dicts kvs ! i = Some d" "dicts dst ! i = None" and room: "keys_before dst (num_dicts dst) + dictSize d < 2 ^ 63"
  shows "\<exists>kvs' dst'. kvstoreMoveDict kvs dst i = Some (kvs', dst') \<and>
    kv_map kvs' = (kv_map kvs)(i := Map.empty) \<and> kv_map dst' = (kv_map dst)(i := kv_map kvs i) \<and>
    kv_inv ty (kvs'\<lparr>non_empty_dicts := non_empty_dicts kvs' - (if dictSize d = 0 then -1 else 1)\<rparr>) \<and>
    kv_inv ty (dst'\<lparr>non_empty_dicts := non_empty_dicts dst' + (if dictSize d = 1 then 0 else 1)\<rparr>)"
proof -
  note rk = kv_invD [OF inv(1)] and rd = kv_invD [OF inv(2)]
  have nd: "num_dicts kvs = num_dicts dst" and i': "i < num_dicts dst" using b i by (simp_all add: num_dicts_def)
  note lk = layoutD [OF rk(2) i] and ld = layoutD [OF rd(2) i']
  have small: "dictSize d < 2 ^ 63" and room63: "sum_list (kv_sizes dst) + dictSize d < 2 ^ 63"
    using room sum_keys_before [OF inv(2)] by simp_all
  obtain fk where k1: "cumulativeKeyCountAdd (kvs\<lparr>allocated_dicts := allocated_dicts kvs - 1\<rparr>) i (- int (dictSize d)) =
      Some (kvs\<lparr>allocated_dicts := allocated_dicts kvs - 1, key_count := key_count kvs + word_of_int (- int (dictSize d)),
        non_empty_dicts := non_empty_dicts kvs + (if dictSize d = 0 then -1 else 0), dict_sizes := fk\<rparr>)" (is "_ = Some ?k1")
    "if num_dicts_bits kvs = 0 then fk = None else \<exists>t. fk = Some t \<and> fw_inv t ((kv_sizes kvs)[i := 0])"
    using move_source_count [OF inv(1) i d(1) small] by (elim exE conjE)
  obtain fd where t1: "cumulativeKeyCountAdd (dst\<lparr>dicts := (dicts dst)[i := Some d], allocated_dicts := allocated_dicts dst + 1\<rparr>) i (int (dictSize d)) =
      Some (dst\<lparr>dicts := (dicts dst)[i := Some d], allocated_dicts := allocated_dicts dst + 1,
        key_count := key_count dst + word_of_int (int (dictSize d)),
        non_empty_dicts := non_empty_dicts dst + (if dictSize d = 1 then 1 else if dictSize d = 0 then -1 else 0), dict_sizes := fd\<rparr>)"
    (is "_ = Some ?t1")
    "if num_dicts_bits dst = 0 then fd = None else \<exists>t. fd = Some t \<and> fw_inv t ((kv_sizes dst)[i := dictSize d])"
    using move_destination_count [OF inv(2) i' d(2) room63] by (elim exE conjE)
  let ?k = "(run_callbacks i (move_events d) ?k1)\<lparr>dicts := (dicts kvs)[i := moved_away kvs],
      allocated_dicts := allocated_dicts ?k1 + (if moved_away kvs = None then 0 else 1)\<rparr>"
  let ?t = "run_callbacks i (arrive_events d) ?t1"
  have nk: "non_empty_dicts ?k - (if dictSize d = 0 then -1 else 1) = non_empty_dicts kvs - (if dictSize d \<noteq> 0 then 1 else 0)"
    and nt: "non_empty_dicts ?t + (if dictSize d = 1 then 0 else 1) = non_empty_dicts dst + (if dictSize d \<noteq> 0 then 1 else 0)"
    by simp_all
  have "kvstoreMoveDict kvs dst i = Some (?k, ?t)" by (rule kvstoreMoveDict_steps [OF i nd lk(1) ld(1) d k1(1) _ _ _ t1(1)]) simp_all
  moreover note move_source [OF inv(1) i d(1) small _ k1(2) nk, of ?k1]
    move_destination [OF inv(2) i' d(2) lk(3) [OF d(1)] _ _ t1(2) nt, of ?t1]
  ultimately show ?thesis using kv_map_at [OF rk(2) i d(1)] room63 by (intro exI [of _ ?k] exI [of _ ?t]) simp
qed

lemma kv_inv_counters:
  assumes inv: "kv_inv ty kvs"
  shows "kvstoreSize kvs = of_nat (keys_before kvs (num_dicts kvs))"
    "non_empty_dicts kvs = int (card {i. i < num_dicts kvs \<and> kv_map kvs i \<noteq> Map.empty})"
    "allocated_dicts kvs = int (card {i. i < num_dicts kvs \<and> dicts kvs ! i \<noteq> None})"
    "kvstoreBuckets kvs = Some (of_nat (\<Sum>i < num_dicts kvs. dict_buckets (dicts kvs ! i)))"
    "distinct (rehashing kvs)"
    "set (rehashing kvs) = {i. i < num_dicts kvs \<and> (\<exists>d. dicts kvs ! i = Some d \<and> dictIsRehashing d)}"
proof -
  note rel = kv_invD [OF inv]
  have len: "length (dicts kvs) = num_dicts kvs" using rel(2) by (simp add: layout_ok_def)
  show "kvstoreSize kvs = of_nat (keys_before kvs (num_dicts kvs))" by (rule kvstoreSize_keys [OF inv])
  show "non_empty_dicts kvs = int (card {i. i < num_dicts kvs \<and> kv_map kvs i \<noteq> Map.empty})" by (rule non_empty_keys [OF inv])
  show "allocated_dicts kvs = int (card {i. i < num_dicts kvs \<and> dicts kvs ! i \<noteq> None})"
    using rel(2) len by (simp add: layout_ok_def length_filter_conv_card)
  show "distinct (rehashing kvs)" using rel(2) by (simp add: layout_ok_def)
  have "rehash_from (dicts kvs ! i) \<noteq> None \<longleftrightarrow> (\<exists>d. dicts kvs ! i = Some d \<and> dictIsRehashing d)" for i
    by (cases "dicts kvs ! i") (simp_all add: rehash_from_def)
  then show "set (rehashing kvs) = {i. i < num_dicts kvs \<and> (\<exists>d. dicts kvs ! i = Some d \<and> dictIsRehashing d)}"
    using rel(2) len by (simp add: layout_ok_def)
  have sum: "sum_list (map dict_buckets (dicts kvs)) = (\<Sum>i < num_dicts kvs. dict_buckets (dicts kvs ! i))"
    using len by (simp add: sum_list_sum_nth atLeast0LessThan)
  show "kvstoreBuckets kvs = Some (of_nat (\<Sum>i < num_dicts kvs. dict_buckets (dicts kvs ! i)))"
  proof (cases "num_dicts kvs = 1")
    case True
    then show ?thesis using len by (cases "dicts kvs ! 0") (simp_all add: kvstoreBuckets_def kvstoreGetDict_def dict_buckets_def)
  next
    case False
    then show ?thesis using rel(2) sum by (simp add: kvstoreBuckets_def layout_ok_def del: of_nat_sum)
  qed
qed

section \<open>Properties\<close>

text \<open>
  C35: the key-value store implements an array of finite maps. Whatever sequence of additions, lookups,
  deletions, two-phase unlinks, expansions, resizing and rehashing turns of the cron job and clearing runs
  on a new store, with dicts created and freed on the way, every call succeeds and answers as the maps do.
\<close>

theorem kvstore_run_correct:
  assumes "b \<le> 16" and "\<forall>op \<in> set ops. kv_allowed b op" and "length ops < 2 ^ 64 - 1"
  shows "\<exists>kvs kvs'. kvstoreCreate b od fe = Some kvs \<and>
    run_ops (kv_do ty) ops kvs = Some (kvs', snd (run_spec (maps_call ty) ops (\<lambda>_. Map.empty))) \<and>
    kv_map kvs' = fst (run_spec (maps_call ty) ops (\<lambda>_. Map.empty))"
  using kvstore_run [OF assms, of od fe ty] by blast

definition kv_sample_ops :: "(nat, nat) kv_op list" where
  "kv_sample_ops =
     [(DICT_RESIZE_ENABLE, \<lambda>_. True, KvAdd 0 1 10), (DICT_RESIZE_AVOID, \<lambda>_. True, KvAdd 1 1 20),
      (DICT_RESIZE_ENABLE, \<lambda>_. True, KvTryResizeDicts 2), (DICT_RESIZE_ENABLE, \<lambda>_. True, KvUnlink 0 1),
      (DICT_RESIZE_ENABLE, \<lambda>_. True, KvFind 1 1)]"

theorem kvstore_run_correct_witness:
  "\<exists>kvs kvs'. kvstoreCreate 1 True True = Some kvs \<and>
    run_ops (kv_do dict_sample_type) kv_sample_ops kvs =
      Some (kvs', [ReplyBool True, ReplyBool True, ReplyNone, ReplyBool True, ReplyEntry (Some (1, Some 20))]) \<and>
    kv_map kvs' = (\<lambda>_. Map.empty)(1 := [1 \<mapsto> Some 20])"
proof -
  have "run_spec (maps_call dict_sample_type) kv_sample_ops (\<lambda>_. Map.empty) =
      ((\<lambda>_. Map.empty)(1 := [1 \<mapsto> Some 20]),
       [ReplyBool True, ReplyBool True, ReplyNone, ReplyBool True, ReplyEntry (Some (1, Some 20))])"
    by (simp add: kv_sample_ops_def dict_sample_type_def new_val_def fun_eq_iff)
  moreover have "\<forall>op \<in> set kv_sample_ops. kv_allowed 1 op" "length kv_sample_ops < 2 ^ 64 - 1" by (simp_all add: kv_sample_ops_def)
  ultimately show ?thesis using kvstore_run_correct [of 1 kv_sample_ops True True dict_sample_type] by simp
qed

text \<open>
  C36: after every such sequence the counters of the store agree with its dicts, although they are only
  adjusted by the callbacks and after each single change: the number of keys, of dicts with keys, of
  allocated dicts and of buckets, and the list of the dicts that are rehashing.
\<close>

theorem kvstore_counters:
  assumes "b \<le> 16" and "\<forall>op \<in> set ops. kv_allowed b op" and "length ops < 2 ^ 64 - 1"
  shows "\<exists>kvs kvs' outs. kvstoreCreate b od fe = Some kvs \<and> run_ops (kv_do ty) ops kvs = Some (kvs', outs) \<and>
    kvstoreSize kvs' = of_nat (keys_before kvs' (2 ^ b)) \<and>
    non_empty_dicts kvs' = int (card {i. i < 2 ^ b \<and> kv_map kvs' i \<noteq> Map.empty}) \<and>
    allocated_dicts kvs' = int (card {i. i < 2 ^ b \<and> dicts kvs' ! i \<noteq> None}) \<and>
    kvstoreBuckets kvs' = Some (of_nat (\<Sum>i < 2 ^ b. dict_buckets (dicts kvs' ! i))) \<and>
    distinct (rehashing kvs') \<and>
    set (rehashing kvs') = {i. i < 2 ^ b \<and> (\<exists>d. dicts kvs' ! i = Some d \<and> dictIsRehashing d)}"
proof -
  obtain kvs kvs' where k: "kvstoreCreate b od fe = Some kvs"
    "run_ops (kv_do ty) ops kvs = Some (kvs', snd (run_spec (maps_call ty) ops (\<lambda>_. Map.empty)))"
    "kv_state ty b (length ops) kvs'" "kv_map kvs' = fst (run_spec (maps_call ty) ops (\<lambda>_. Map.empty))"
    using kvstore_run [OF assms, of od fe ty] by (elim exE conjE)
  have inv: "kv_inv ty kvs'" and nd: "num_dicts kvs' = 2 ^ b" using k(3) by (simp_all add: kv_state_def num_dicts_def)
  show ?thesis
    using k(1,2) kv_inv_counters [OF inv, unfolded nd]
    by (intro exI [of _ kvs] exI [of _ kvs'] exI [of _ "snd (run_spec (maps_call ty) ops (\<lambda>_. Map.empty))"] conjI)
qed

theorem kvstore_counters_witness:
  "\<exists>kvs kvs' outs. kvstoreCreate 1 False True = Some kvs \<and>
    run_ops (kv_do dict_sample_type) [(DICT_RESIZE_ENABLE, \<lambda>_. True, KvAdd 1 3 7), (DICT_RESIZE_ENABLE, \<lambda>_. True, KvDictExpand 1 100)] kvs =
      Some (kvs', outs) \<and>
    kvstoreSize kvs' = of_nat (keys_before kvs' (2 ^ 1)) \<and>
    non_empty_dicts kvs' = int (card {i. i < 2 ^ 1 \<and> kv_map kvs' i \<noteq> Map.empty}) \<and>
    allocated_dicts kvs' = int (card {i. i < 2 ^ 1 \<and> dicts kvs' ! i \<noteq> None}) \<and>
    kvstoreBuckets kvs' = Some (of_nat (\<Sum>i < 2 ^ 1. dict_buckets (dicts kvs' ! i))) \<and>
    distinct (rehashing kvs') \<and>
    set (rehashing kvs') = {i. i < 2 ^ 1 \<and> (\<exists>d. dicts kvs' ! i = Some d \<and> dictIsRehashing d)}"
  by (rule kvstore_counters) simp_all

text \<open>A store with three keys, two of them in the dict at 1.\<close>

lemma kv_sample:
  "\<exists>kvs. kv_inv dict_sample_type kvs \<and> num_dicts kvs = 2 \<and> keys_before kvs 1 = 1 \<and> keys_before kvs 2 = 3 \<and>
    kv_map kvs 1 = [3 \<mapsto> Some 7, 4 \<mapsto> Some 8]"
proof -
  let ?ops = "[(DICT_RESIZE_ENABLE, \<lambda>_. True, KvAdd 0 1 5), (DICT_RESIZE_ENABLE, \<lambda>_. True, KvAdd 1 3 7),
    (DICT_RESIZE_ENABLE, \<lambda>_. True, KvAdd 1 4 8)] :: (nat, nat) kv_op list"
  obtain kvs where "kv_state dict_sample_type 1 (length ?ops) kvs"
    "kv_map kvs = fst (run_spec (maps_call dict_sample_type) ?ops (\<lambda>_. Map.empty))"
    using kvstore_run [of 1 ?ops True True dict_sample_type] by auto
  then have k: "kv_inv dict_sample_type kvs" "num_dicts kvs = 2" "kv_map kvs 0 = [1 \<mapsto> Some 5]"
    "kv_map kvs 1 = [3 \<mapsto> Some 7, 4 \<mapsto> Some 8]"
    by (simp_all add: kv_state_def num_dicts_def dict_sample_type_def new_val_def)
  have "keys_before kvs 1 = 1" using k(3) by (simp add: keys_before_def)
  moreover have "keys_before kvs 2 = 3" using k(3,4) by (simp add: keys_before_def numeral_2_eq_2)
  ultimately show ?thesis using k by blast
qed

text \<open>
  C37: the key of rank \<open>t\<close>, counted through the dicts in the order of their indices, is in the dict that
  \<^verbatim>\<open>kvstoreFindDictIndexByKeyIndex\<close> returns: the dicts before it hold fewer than \<open>t\<close> keys, and with it at
  least \<open>t\<close>.
\<close>

theorem kvstoreFindDictIndexByKeyIndex_correct:
  assumes "kv_inv ty kvs" and "0 < t" and "t \<le> keys_before kvs (num_dicts kvs)"
  shows "\<exists>r. kvstoreFindDictIndexByKeyIndex kvs (of_nat t) = Some r \<and> r < num_dicts kvs \<and>
    keys_before kvs r < t \<and> t \<le> keys_before kvs (Suc r)"
  using assms by (rule find_rank)

theorem kvstoreFindDictIndexByKeyIndex_correct_witness:
  "\<exists>kvs :: (nat, nat) kvstore. keys_before kvs 2 = 3 \<and> (\<exists>r. kvstoreFindDictIndexByKeyIndex kvs (of_nat 2) = Some r \<and>
    r < 2 \<and> keys_before kvs r < 2 \<and> 2 \<le> keys_before kvs (Suc r))"
proof -
  obtain kvs where k: "kv_inv dict_sample_type kvs" "num_dicts kvs = 2" "keys_before kvs 2 = 3" using kv_sample by blast
  show ?thesis using kvstoreFindDictIndexByKeyIndex_correct [OF k(1), of 2] k(2,3) by (intro exI [of _ kvs]) simp
qed

text \<open>
  C38: \<^verbatim>\<open>kvstoreGetFairRandomDictIndex\<close> is fair. Among the random numbers below the number of keys, as many lead
  to a dict as it has keys, when no dict is skipped; the other attempts and the fallback do not matter.
\<close>

theorem kvstoreGetFairRandomDictIndex_fair:
  assumes "kv_inv ty kvs" and "i < num_dicts kvs"
  shows "card {r. r < keys_before kvs (num_dicts kvs) \<and>
      kvstoreGetFairRandomDictIndex kvs (\<lambda>_. False) (of_nat r # rs) fb = Some (int i)} = card (dom (kv_map kvs i))"
proof -
  have "keys_before kvs (Suc i) \<le> keys_before kvs (num_dicts kvs)" using assms(2) by (intro keys_before_mono) simp
  then have "{r. r < keys_before kvs (num_dicts kvs) \<and>
      kvstoreGetFairRandomDictIndex kvs (\<lambda>_. False) (of_nat r # rs) fb = Some (int i)} =
      {keys_before kvs i..<keys_before kvs (Suc i)}"
    using fair_index [OF assms(1) _ assms(2), of _ rs fb] by auto
  then show ?thesis by (simp add: keys_before_def)
qed

theorem kvstoreGetFairRandomDictIndex_fair_witness:
  "\<exists>kvs :: (nat, nat) kvstore. keys_before kvs 2 = 3 \<and>
    card {r. r < 3 \<and> kvstoreGetFairRandomDictIndex kvs (\<lambda>_. False) [of_nat r] None = Some (int 1)} = 2"
proof -
  obtain kvs where k: "kv_inv dict_sample_type kvs" "num_dicts kvs = 2" "keys_before kvs 2 = 3"
    "kv_map kvs 1 = [3 \<mapsto> Some 7, 4 \<mapsto> Some 8]"
    using kv_sample by blast
  show ?thesis using kvstoreGetFairRandomDictIndex_fair [OF k(1), of 1 "[]" None] k(2-4) by (intro exI [of _ kvs]) simp
qed

text \<open>
  C39: \<^verbatim>\<open>kvstoreMoveDict\<close> moves the contents of a dict from one store to the other and keeps both stores
  well-formed but for one counter: \<^verbatim>\<open>cumulativeKeyCountAdd\<close> is made for changes by one key and leaves
  \<^verbatim>\<open>non_empty_dicts\<close> of the source one too high when the dict has keys, and one too low when it has none; in the
  destination it is one too low unless the dict has exactly one key.
\<close>

theorem kvstoreMoveDict_counters:
  assumes "kv_inv ty kvs" and "kv_inv ty dst" and "num_dicts_bits dst = num_dicts_bits kvs" and "i < num_dicts kvs"
    and "dicts kvs ! i = Some d" and "dicts dst ! i = None"
    and "keys_before dst (num_dicts dst) + dictSize d < 2 ^ 63"
  shows "\<exists>kvs' dst'. kvstoreMoveDict kvs dst i = Some (kvs', dst') \<and>
    kv_map kvs' = (kv_map kvs)(i := Map.empty) \<and> kv_map dst' = (kv_map dst)(i := kv_map kvs i) \<and>
    kv_inv ty (kvs'\<lparr>non_empty_dicts := non_empty_dicts kvs' - (if dictSize d = 0 then -1 else 1)\<rparr>) \<and>
    kv_inv ty (dst'\<lparr>non_empty_dicts := non_empty_dicts dst' + (if dictSize d = 1 then 0 else 1)\<rparr>)"
  using assms by (rule move_dict_ok)

theorem kvstoreMoveDict_counters_witness:
  "\<exists>kvs dst kvs' dst' :: (nat, nat) kvstore. kvstoreMoveDict kvs dst 1 = Some (kvs', dst') \<and> kv_map kvs 1 = [3 \<mapsto> Some 7, 4 \<mapsto> Some 8] \<and>
    kv_map kvs' = (kv_map kvs)(1 := Map.empty) \<and> kv_map dst' = (kv_map dst)(1 := [3 \<mapsto> Some 7, 4 \<mapsto> Some 8])"
proof -
  obtain kvs where k: "kv_inv dict_sample_type kvs" "num_dicts kvs = 2" "kv_map kvs 1 = [3 \<mapsto> Some 7, 4 \<mapsto> Some 8]"
    using kv_sample by blast
  have i: "1 < num_dicts kvs" and b: "num_dicts_bits kvs = 1"
    using k(2) power_inject_exp [of "2 :: nat" "num_dicts_bits kvs" 1] by (simp_all add: num_dicts_def)
  obtain dst :: "(nat, nat) kvstore" where "kvstoreCreate 1 True True = Some dst" "kv_inv dict_sample_type dst"
    "kv_map dst = (\<lambda>_. Map.empty)" "num_dicts_bits dst = 1"
    using kvstoreCreate_ok [of 1 True True dict_sample_type] by auto
  note d = this
  have n: "dicts dst ! 1 = None" using d(1) by (auto simp: kvstoreCreate_def Let_def split: bind_splits if_splits)
  obtain x where x: "dicts kvs ! 1 = Some x" using k(3) layoutD(1) [OF kv_invD(2) [OF k(1)] i]
    by (cases "dicts kvs ! 1") (auto simp: kv_map_def fun_eq_iff split: if_splits)
  have "dict_ready dict_sample_type x" using layoutD(3) [OF kv_invD(2) [OF k(1)] i x] .
  then have "dictSize x = 2" using dictSize_card [OF readyD(1)] kv_map_at [OF kv_invD(2) [OF k(1)] i x] k(3) by fastforce
  moreover have "keys_before dst (num_dicts dst) = 0" using d(3) by (simp add: keys_before_def)
  ultimately show ?thesis
    using kvstoreMoveDict_counters [OF k(1) d(2) _ i x n] d(4) b k(3) by auto
qed

end
