(* ===== verification/Kvstore_Scan.thy ===== *)
theory Kvstore_Scan
  imports Kvstore_Run
begin

text \<open>
  \<^verbatim>\<open>kvstoreScan\<close>: the cursor carries the index of a dict in its low bits and the cursor of \<^verbatim>\<open>dictScan\<close> above
  them. A scan of a whole store goes through its dicts in the order of their indices and visits every key.
\<close>

section \<open>The cursor\<close>

definition small_cursor :: "u64 \<Rightarrow> bool" where
  "small_cursor v \<longleftrightarrow> (\<forall>n \<ge> 48. \<not> bit v n)"

lemma grid_small:
  assumes "rpos v = j * 2 ^ 16"
  shows "small_cursor v"
  unfolding small_cursor_def
proof (intro allI impI)
  fix n :: nat
  assume n: "48 \<le> n"
  show "\<not> bit v n"
  proof (cases "n < 64")
    case True
    have "rpos v = push_bit 16 j" using assms by (simp add: push_bit_eq_mult)
    moreover have "63 - n < 16" using n by arith
    ultimately have "\<not> bit (rpos v) (63 - n)" by (simp add: bit_push_bit_iff)
    then show ?thesis using rpos_bit [of v "63 - n"] True by simp
  next
    case False
    then show ?thesis using bit_imp_le_length [of v n] by auto
  qed
qed

lemma bit_of_index: "i < 2 ^ b \<Longrightarrow> bit (of_nat i :: u64) n \<Longrightarrow> n < b"
proof (rule ccontr)
  assume "i < 2 ^ b" "bit (of_nat i :: u64) n" "\<not> n < b"
  then have "bit i n" "b \<le> n" by (simp_all add: bit_of_nat_iff)
  moreover have "i = take_bit b i" using \<open>i < 2 ^ b\<close> by (simp add: take_bit_nat_eq_self)
  ultimately show False by (metis bit_take_bit_iff linorder_not_le)
qed

lemma cursor_roundtrip:
  assumes b: "num_dicts_bits kvs \<le> 16" and i: "i < num_dicts kvs" and v: "small_cursor v"
  shows "getAndClearDictIndexFromCursor kvs (addDictIndexToCursor kvs (int i) v) = (i, v)"
proof (cases "num_dicts kvs = 1")
  case True
  then show ?thesis using i by (simp add: addDictIndexToCursor_def getAndClearDictIndexFromCursor_def)
next
  case False
  let ?b = "num_dicts_bits kvs" and ?c = "push_bit (num_dicts_bits kvs) v OR of_nat i"
  have i': "i < 2 ^ ?b" using i by (simp add: num_dicts_def)
  have "(2 :: nat) ^ ?b \<le> 2 ^ 16" using b by (intro power_increasing) simp_all
  then have small: "i < 2 ^ 64" using i' by simp
  have mask: "of_nat (num_dicts kvs) - 1 = (mask ?b :: u64)" by (simp add: num_dicts_def mask_eq_exp_minus_1)
  have "?c AND mask ?b = of_nat i"
    using bit_of_index [OF i'] by (intro bit_word_eqI) (auto simp: bit_and_iff bit_or_iff bit_push_bit_iff bit_mask_iff)
  then have "unat (?c AND mask ?b) = i" using small by (simp add: unat_of_nat64)
  moreover have "drop_bit ?b ?c = v"
  proof (rule bit_word_eqI)
    fix n
    assume "n < LENGTH(64)"
    have "\<not> bit (of_nat i :: u64) (?b + n)" using bit_of_index [OF i', of "?b + n"] by auto
    moreover have "bit v n \<Longrightarrow> ?b + n < 64" using v b by (auto simp: small_cursor_def not_le [symmetric])
    ultimately show "bit (drop_bit ?b ?c) n \<longleftrightarrow> bit v n"
      by (auto simp: bit_drop_bit_eq bit_or_iff bit_push_bit_iff)
  qed
  ultimately show ?thesis using False mask by (simp add: addDictIndexToCursor_def getAndClearDictIndexFromCursor_def)
qed

lemma cursor_nonzero:
  assumes "num_dicts_bits kvs \<le> 16" "i < num_dicts kvs" "small_cursor v" "0 < i \<or> v \<noteq> 0"
  shows "addDictIndexToCursor kvs (int i) v \<noteq> 0"
proof
  assume "addDictIndexToCursor kvs (int i) v = 0"
  then have "(i, v) = (0, 0)"
    using cursor_roundtrip [OF assms(1-3)] by (auto simp: getAndClearDictIndexFromCursor_def split: if_splits)
  then show False using assms(4) by simp
qed

lemma small_zero [simp]: "small_cursor 0"
  by (simp add: small_cursor_def)

section \<open>The next dict\<close>

text \<open>The cursor that leads on from the dict \<open>i\<close>.\<close>

definition later :: "('k, 'v) kvstore \<Rightarrow> nat \<Rightarrow> nat set" where
  "later kvs i = {j. i < j \<and> j < num_dicts kvs \<and> kv_map kvs j \<noteq> Map.empty}"

definition next_scan :: "('k, 'v) kvstore \<Rightarrow> nat \<Rightarrow> u64" where
  "next_scan kvs i = (if later kvs i = {} then 0 else addDictIndexToCursor kvs (int (LEAST j. j \<in> later kvs i)) 0)"

lemma kv_sizes_pos: "kv_inv ty kvs \<Longrightarrow> j < num_dicts kvs \<Longrightarrow> 0 < kv_sizes kvs ! j \<longleftrightarrow> kv_map kvs j \<noteq> Map.empty"
  using kv_sizes_card [of ty kvs j] by (simp add: kv_map_def dict_map_finite card_gt_0_iff dom_eq_empty_conv split: option.split)

lemma next_index:
  assumes inv: "kv_inv ty kvs" and i: "i < num_dicts kvs" and room: "keys_before kvs (num_dicts kvs) + 1 < 2 ^ 64"
  shows "kvstoreGetNextNonEmptyDictIndex kvs (int i) =
    Some (if later kvs i = {} then -1 else int (LEAST j. j \<in> later kvs i))"
proof (cases "num_dicts kvs = 1")
  case True
  then show ?thesis using i by (simp add: kvstoreGetNextNonEmptyDictIndex_def later_def)
next
  case False
  then have "num_dicts_bits kvs \<noteq> 0" using num_dicts_one by blast
  then obtain ft where ft: "dict_sizes kvs = Some ft" "fw_inv ft (kv_sizes kvs)"
    using kv_invD(3) [OF inv] by (auto simp: counts_ok_def)
  note len = length_kv_sizes [OF inv]
  have eq: "i < j \<and> j < length (kv_sizes kvs) \<and> 0 < kv_sizes kvs ! j \<longleftrightarrow> j \<in> later kvs i" for j
    using kv_sizes_pos [OF inv] len by (auto simp: later_def)
  have "fwTreeFindNextNonEmpty (Some ft) (int i) =
      Some (if \<exists>j. j \<in> later kvs i then int (LEAST j. j \<in> later kvs i) else -1)"
    using fwTreeFindNextNonEmpty_next [OF ft(2), of i, unfolded eq] i room sum_keys_before [OF inv] len by simp
  then show ?thesis using False ft(1) by (auto simp: kvstoreGetNextNonEmptyDictIndex_def)
qed

lemma later_least:
  assumes "later kvs i \<noteq> {}"
  shows "(LEAST j. j \<in> later kvs i) \<in> later kvs i" "j \<in> later kvs i \<Longrightarrow> (LEAST j. j \<in> later kvs i) \<le> j"
  using assms by (auto intro: LeastI Least_le)

lemma first_index:
  assumes inv: "kv_inv ty kvs"
  shows "kvstoreGetFirstNonEmptyDictIndex kvs =
    Some (if keys_before kvs (num_dicts kvs) = 0 then -1 else int (LEAST j. j < num_dicts kvs \<and> kv_map kvs j \<noteq> Map.empty))"
proof (cases "keys_before kvs (num_dicts kvs) = 0")
  case True
  then show ?thesis using kvstoreSize_keys [OF inv] by (simp add: kvstoreGetFirstNonEmptyDictIndex_def)
next
  case False
  obtain r where r: "kvstoreFindDictIndexByKeyIndex kvs (of_nat 1) = Some r" "r < num_dicts kvs" "keys_before kvs r < 1"
    "1 \<le> keys_before kvs (Suc r)"
    using find_rank [OF inv, of 1] False by auto
  have fin: "finite (dom (kv_map kvs j))" for j by (simp add: kv_map_def dict_map_finite split: option.split)
  have "card (dom (kv_map kvs j)) = 0" if "j < r" for j using r(3) that by (simp add: keys_before_def)
  then have "kv_map kvs j = Map.empty" if "j < r" for j
    using that fin [of j] by (metis card_0_eq dom_eq_empty_conv)
  moreover have "kv_map kvs r \<noteq> Map.empty" using r(3,4) by (auto simp: keys_before_def)
  ultimately have "(LEAST j. j < num_dicts kvs \<and> kv_map kvs j \<noteq> Map.empty) = r"
    using r(2) by (intro Least_equality) (auto simp: not_less [symmetric])
  moreover have "kvstoreSize kvs \<noteq> 0" using kvstoreSize_keys [OF inv] False unat_of_nat64 by (metis unat_0)
  moreover have "num_dicts kvs = 1 \<Longrightarrow> r = 0" using r(2) by simp
  ultimately show ?thesis using r(1) False
    by (auto simp: kvstoreGetFirstNonEmptyDictIndex_def kvstoreFindDictIndexByKeyIndex_def fwTreeFindFirstNonEmpty_def
        split: bind_splits if_splits)
qed

section \<open>One call\<close>

text \<open>A store whose cursors fit, and room for one more key in the counters.\<close>

definition scannable :: "('k, 'v) dictType \<Rightarrow> ('k, 'v) kvstore \<Rightarrow> bool" where
  "scannable ty kvs \<longleftrightarrow> kv_inv ty kvs \<and> keys_before kvs (num_dicts kvs) + 1 < 2 ^ 64 \<and>
     (\<forall>d. Some d \<in> set (dicts kvs) \<longrightarrow> scan_exp d \<le> 48)"

lemma scannableD:
  assumes "scannable ty kvs"
  shows "kv_inv ty kvs" "layout_ok ty kvs" "num_dicts_bits kvs \<le> 16" "keys_before kvs (num_dicts kvs) + 1 < 2 ^ 64"
    "Some d \<in> set (dicts kvs) \<Longrightarrow> scan_exp d \<le> 48"
  using assms kv_invD(2) [of ty kvs] by (auto simp: scannable_def layout_ok_def)

text \<open>\<^verbatim>\<open>kvstoreScan\<close> with no dict skipped and no restriction, once the cursor is taken apart.\<close>

lemma kvstoreScan_at:
  assumes sc: "scannable ty kvs" and i: "i < num_dicts kvs" and v: "small_cursor v"
  shows "kvstoreScan cf (\<lambda>_. False) kvs (addDictIndexToCursor kvs (int i) v) (-1) =
    (case dicts kvs ! i of
       None \<Rightarrow> Some (kvs, [], next_scan kvs i)
     | Some d \<Rightarrow> do {
         (out, v') \<leftarrow> dictScan d v;
         kvs' \<leftarrow> freeDictIfNeeded cf kvs i;
         Some (kvs', out, if v' = 0 then next_scan kvs i else addDictIndexToCursor kvs (int i) v')
       })"
proof -
  note c = cursor_roundtrip [OF scannableD(3) [OF sc] i v]
  note l = layoutD [OF scannableD(2) [OF sc] i]
  note nx = next_index [OF scannableD(1) [OF sc] i scannableD(4) [OF sc]]
  obtain k' where k': "freeDictIfNeeded cf kvs i = Some k'" "kv_inv ty k'" "kv_map k' = kv_map kvs"
    "num_dicts_bits k' = num_dicts_bits kvs"
    using freeDictIfNeeded_inv [OF scannableD(1) [OF sc] i] by blast
  have nd: "num_dicts k' = num_dicts kvs" using k'(4) by (simp add: num_dicts_def)
  have same: "keys_before k' = keys_before kvs" "later k' = later kvs" "addDictIndexToCursor k' = addDictIndexToCursor kvs"
    by (intro ext, simp add: keys_before_def later_def addDictIndexToCursor_def k'(3,4) nd)+
  have nx': "kvstoreGetNextNonEmptyDictIndex k' (int i) =
      Some (if later kvs i = {} then -1 else int (LEAST j. j \<in> later kvs i))"
    using next_index [OF k'(2), of i] i nd same scannableD(4) [OF sc] by simp
  show ?thesis
  proof (cases "dicts kvs ! i")
    case None
    then show ?thesis using l(2) nx by (simp add: kvstoreScan_def c Let_def next_scan_def)
  next
    case (Some d)
    have "dict_inv ty d" using readyD(1) [OF l(3) [OF Some]] .
    then obtain out v' where "dictScan d v = Some (out, v')" using dictScan_ok by blast
    then show ?thesis using Some l(2) nx' k'(1) same(3) by (simp add: kvstoreScan_def c Let_def next_scan_def)
  qed
qed

lemma free_scannable:
  assumes sc: "scannable ty kvs" and i: "i < num_dicts kvs" and f: "freeDictIfNeeded cf kvs i = Some k'"
  shows "scannable ty k'" "kv_map k' = kv_map kvs" "num_dicts k' = num_dicts kvs" "num_dicts_bits k' = num_dicts_bits kvs"
proof -
  obtain k where k: "freeDictIfNeeded cf kvs i = Some k" "kv_inv ty k" "kv_map k = kv_map kvs"
    "num_dicts_bits k = num_dicts_bits kvs"
    using freeDictIfNeeded_inv [OF scannableD(1) [OF sc] i] by blast
  have "set (dicts k') \<subseteq> insert None (set (dicts kvs))"
    using f set_update_subset_insert [of "dicts kvs" i None]
    by (auto simp: freeDictIfNeeded_def Let_def split: bind_splits option.splits if_splits)
  then show "scannable ty k'" "kv_map k' = kv_map kvs" "num_dicts k' = num_dicts kvs" "num_dicts_bits k' = num_dicts_bits kvs"
    using sc k f by (auto simp: scannable_def num_dicts_def keys_before_def)
qed

section \<open>A whole scan\<close>

text \<open>Calls until the cursor is zero; \<open>n\<close> bounds their number.\<close>

fun kv_scan_run ::
    "(nat \<Rightarrow> bool) \<Rightarrow> nat \<Rightarrow> ('k, 'v) kvstore \<Rightarrow> u64 \<Rightarrow> ('k, 'v) dictEntry list option" where
  "kv_scan_run cf 0 kvs cursor = None"
| "kv_scan_run cf (Suc n) kvs cursor = do {
     (kvs, out, cursor) \<leftarrow> kvstoreScan cf (\<lambda>_. False) kvs cursor (-1);
     if cursor = 0 then Some out else map_option (\<lambda>out'. out @ out') (kv_scan_run cf n kvs cursor)
   }"

text \<open>The calls that scan one dict with keys.\<close>

lemma scan_dict:
  assumes sc: "scannable ty kvs" and i: "i < num_dicts kvs" and d: "dicts kvs ! i = Some d" "dictSize d \<noteq> 0"
  shows "scan_run (replicate m d) v = Some (out, 0) \<Longrightarrow> 0 < m \<or> v \<noteq> 0 \<Longrightarrow> rpos v = j * 2 ^ 16 \<Longrightarrow>
    \<exists>n. \<forall>N. kv_scan_run cf (n + N) kvs (addDictIndexToCursor kvs (int i) v) =
      (if next_scan kvs i = 0 then Some out
       else map_option (\<lambda>out'. out @ out') (kv_scan_run cf N kvs (next_scan kvs i)))"
proof (induction m arbitrary: v out j)
  case 0
  then show ?case by simp
next
  case (Suc m)
  note l = layoutD [OF scannableD(2) [OF sc] i]
  have di: "dict_inv ty d" using readyD(1) [OF l(3) [OF d(1)]] .
  have "Some d \<in> set (dicts kvs)" using d(1) l(1) by (metis nth_mem)
  then have e: "scan_exp d \<le> 48" by (rule scannableD(5) [OF sc])
  obtain o1 v1 where o: "dictScan d v = Some (o1, v1)" "scan_promise ty d v o1 v1" using dictScan_ok [OF di] by blast
  have "freeDictIfNeeded cf kvs i = Some kvs" using l(2) d by (simp add: freeDictIfNeeded_def)
  then have call: "kvstoreScan cf (\<lambda>_. False) kvs (addDictIndexToCursor kvs (int i) v) (-1) =
      Some (kvs, o1, if v1 = 0 then next_scan kvs i else addDictIndexToCursor kvs (int i) v1)"
    using kvstoreScan_at [OF sc i grid_small [OF Suc.prems(3)], of cf] d(1) o(1) by simp
  show ?case
  proof (cases "v1 = 0")
    case True
    then have "out = o1" using Suc.prems(1) o(1) by simp
    then show ?thesis using call True by (intro exI [of _ 1]) simp
  next
    case False
    obtain out' where out': "scan_run (replicate m d) v1 = Some (out', 0)" "out = o1 @ out'"
      using Suc.prems(1) o(1) False by (auto split: bind_splits)
    obtain j' where j': "rpos v1 = j' * 2 ^ 16" "j < j'"
      using scan_step_grid [OF o(2) False e, of j] Suc.prems(3) by auto
    obtain n where n: "\<And>N. kv_scan_run cf (n + N) kvs (addDictIndexToCursor kvs (int i) v1) =
        (if next_scan kvs i = 0 then Some out'
         else map_option (\<lambda>out''. out' @ out'') (kv_scan_run cf N kvs (next_scan kvs i)))"
      using Suc.IH [OF out'(1) _ j'(1)] False by blast
    have "addDictIndexToCursor kvs (int i) v1 \<noteq> 0"
      using cursor_nonzero [OF scannableD(3) [OF sc] i grid_small [OF j'(1)]] False by simp
    then have "kv_scan_run cf (Suc n + N) kvs (addDictIndexToCursor kvs (int i) v) =
        (if next_scan kvs i = 0 then Some out
         else map_option (\<lambda>out''. out @ out'') (kv_scan_run cf N kvs (next_scan kvs i)))" for N
      using call False n [of N] by (cases "kv_scan_run cf N kvs (next_scan kvs i)") (simp_all add: out'(2))
    then show ?thesis by blast
  qed
qed

text \<open>A dict without keys takes one call.\<close>

lemma scan_empty:
  assumes sc: "scannable ty kvs" and i: "i < num_dicts kvs" and e: "kv_map kvs i = Map.empty"
  shows "\<exists>k'. kvstoreScan cf (\<lambda>_. False) kvs (addDictIndexToCursor kvs (int i) 0) (-1) = Some (k', [], next_scan kvs i) \<and>
    scannable ty k' \<and> kv_map k' = kv_map kvs \<and> num_dicts_bits k' = num_dicts_bits kvs"
proof -
  note l = layoutD [OF scannableD(2) [OF sc] i]
  show ?thesis
  proof (cases "dicts kvs ! i")
    case None
    then show ?thesis using kvstoreScan_at [OF sc i small_zero, of cf] sc by simp
  next
    case (Some d)
    have "dict_map d = Map.empty" using kv_map_at [OF scannableD(2) [OF sc] i Some] e by simp
    then have "dictSize d = 0" using dictSize_card [OF readyD(1) [OF l(3) [OF Some]]] by simp
    then have s: "dictScan d 0 = Some ([], 0)" by (simp add: dictScan_def)
    obtain k' where k': "freeDictIfNeeded cf kvs i = Some k'" using freeDictIfNeeded_inv [OF scannableD(1) [OF sc] i] by blast
    show ?thesis using kvstoreScan_at [OF sc i small_zero, of cf] Some s k' free_scannable [OF sc i k'] by simp
  qed
qed

text \<open>From the beginning of one dict to the beginning of the next.\<close>

lemma scan_one:
  assumes sc: "scannable ty kvs" and i: "i < num_dicts kvs"
  shows "\<exists>n out k'. (\<forall>N. kv_scan_run cf (n + N) kvs (addDictIndexToCursor kvs (int i) 0) =
      (if next_scan kvs i = 0 then Some out else map_option (\<lambda>out'. out @ out') (kv_scan_run cf N k' (next_scan kvs i)))) \<and>
    (\<forall>k. kv_map kvs i k \<noteq> None \<longrightarrow> k \<in> dictGetKey ` set out) \<and>
    scannable ty k' \<and> kv_map k' = kv_map kvs \<and> num_dicts_bits k' = num_dicts_bits kvs"
proof (cases "kv_map kvs i = Map.empty")
  case True
  obtain k' where k': "kvstoreScan cf (\<lambda>_. False) kvs (addDictIndexToCursor kvs (int i) 0) (-1) = Some (k', [], next_scan kvs i)"
    "scannable ty k'" "kv_map k' = kv_map kvs" "num_dicts_bits k' = num_dicts_bits kvs"
    using scan_empty [OF sc i True] by blast
  then have "\<forall>N. kv_scan_run cf (1 + N) kvs (addDictIndexToCursor kvs (int i) 0) =
      (if next_scan kvs i = 0 then Some [] else map_option (\<lambda>out'. [] @ out') (kv_scan_run cf N k' (next_scan kvs i)))"
    by simp
  then show ?thesis using True k'(2-4) by (intro exI [of _ 1] exI [of _ "[]"] exI [of _ k']) simp
next
  case False
  note l = layoutD [OF scannableD(2) [OF sc] i]
  obtain d where d: "dicts kvs ! i = Some d" using False l(1) by (cases "dicts kvs ! i") (simp_all add: kv_map_def)
  have di: "dict_inv ty d" and km: "kv_map kvs i = dict_map d"
    using readyD(1) [OF l(3) [OF d]] kv_map_at [OF scannableD(2) [OF sc] i d] by simp_all
  have ne: "dictSize d \<noteq> 0" using dict_map_empty [OF di] False km by auto
  have e: "scan_exp d \<le> 48" using scannableD(5) [OF sc, of d] d l(1) by (metis nth_mem)
  let ?ds = "replicate (2 ^ 48) d"
  have ds: "\<forall>x \<in> set ?ds. dict_inv ty x" "\<forall>x \<in> set ?ds. scan_exp x \<le> 48" "?ds \<noteq> []" using di e by simp_all
  have z: "rpos 0 = 0" using rpos_zero [of 0] by simp
  obtain out where out: "scan_run ?ds 0 = Some (out, 0)"
    using scan_run_ends [OF ds(1,2), of 0 0] z by auto
  have cov: "k \<in> dictGetKey ` set out" if "kv_map kvs i k \<noteq> None" for k
    using scan_run_covers [OF ds(1), of k 0] ds(3) that km out z by auto
  obtain n where "\<forall>N. kv_scan_run cf (n + N) kvs (addDictIndexToCursor kvs (int i) 0) =
      (if next_scan kvs i = 0 then Some out else map_option (\<lambda>out'. out @ out') (kv_scan_run cf N kvs (next_scan kvs i)))"
    using scan_dict [OF sc i d ne out, of 0 cf] z by auto
  then show ?thesis using cov sc by blast
qed

lemma scan_from:
  assumes "scannable ty kvs" "i < num_dicts kvs"
  shows "\<exists>n out. kv_scan_run cf n kvs (addDictIndexToCursor kvs (int i) 0) = Some out \<and>
    (\<forall>j k. i \<le> j \<and> j < num_dicts kvs \<and> kv_map kvs j k \<noteq> None \<longrightarrow> k \<in> dictGetKey ` set out)"
  using assms
proof (induction "num_dicts kvs - i" arbitrary: kvs i rule: less_induct)
  case less
  note sc = less.prems(1)
  let ?j = "LEAST j. j \<in> later kvs i"
  obtain n out k' where one: "\<forall>N. kv_scan_run cf (n + N) kvs (addDictIndexToCursor kvs (int i) 0) =
      (if next_scan kvs i = 0 then Some out else map_option (\<lambda>out'. out @ out') (kv_scan_run cf N k' (next_scan kvs i)))"
    "\<forall>k. kv_map kvs i k \<noteq> None \<longrightarrow> k \<in> dictGetKey ` set out"
    and k': "scannable ty k'" "kv_map k' = kv_map kvs" "num_dicts_bits k' = num_dicts_bits kvs"
    using scan_one [OF less.prems, of cf] by (elim exE conjE)
  show ?case
  proof (cases "later kvs i = {}")
    case True
    then have "kv_scan_run cf (n + 0) kvs (addDictIndexToCursor kvs (int i) 0) = Some out"
      using one(1) [rule_format, of 0] by (simp add: next_scan_def)
    moreover have "k \<in> dictGetKey ` set out" if "i \<le> j" "j < num_dicts kvs" "kv_map kvs j k \<noteq> None" for j k
      using that one(2) True by (cases "j = i") (auto simp: later_def)
    ultimately show ?thesis by blast
  next
    case False
    have j: "i < ?j" "?j < num_dicts kvs" using later_least(1) [OF False] by (simp_all add: later_def)
    have nd: "num_dicts k' = num_dicts kvs" using k'(3) by (simp add: num_dicts_def)
    have nx: "next_scan kvs i = addDictIndexToCursor k' (int ?j) 0" "next_scan kvs i \<noteq> 0"
      using False k'(3) nd cursor_nonzero [OF scannableD(3) [OF sc] j(2) small_zero] j(1)
      by (simp_all add: next_scan_def addDictIndexToCursor_def)
    have "num_dicts k' - ?j < num_dicts kvs - i" "?j < num_dicts k'" using j nd by simp_all
    then obtain N out' where r: "kv_scan_run cf N k' (addDictIndexToCursor k' (int ?j) 0) = Some out'"
      "\<forall>j k. ?j \<le> j \<and> j < num_dicts k' \<and> kv_map k' j k \<noteq> None \<longrightarrow> k \<in> dictGetKey ` set out'"
      using less.hyps [OF _ k'(1)] by blast
    have "kv_scan_run cf (n + N) kvs (addDictIndexToCursor kvs (int i) 0) = Some (out @ out')"
      using one(1) nx r(1) by simp
    moreover have "k \<in> dictGetKey ` set (out @ out')" if "i \<le> j" "j < num_dicts kvs" "kv_map kvs j k \<noteq> None" for j k
    proof (cases "j = i")
      case True
      then show ?thesis using that(3) one(2) by auto
    next
      case False
      then have "j \<in> later kvs i" using that by (auto simp: later_def)
      then show ?thesis using later_least(2) [of kvs i j] r(2) that nd k'(2) by fastforce
    qed
    ultimately show ?thesis by blast
  qed
qed

section \<open>Properties\<close>

text \<open>
  C40: a scan of the whole store from cursor 0 ends, and every key of every dict is passed to the callback,
  when the store does not change in between, no table has more than \<open>2 ^ 48\<close> buckets (the bits that the
  cursor has for them) and the counters have room for one more key. Empty dicts may be freed on the way.
\<close>

theorem kvstoreScan_visits_all:
  assumes "kv_inv ty kvs" and "keys_before kvs (num_dicts kvs) + 1 < 2 ^ 64"
    and "\<forall>d. Some d \<in> set (dicts kvs) \<longrightarrow> ht_size_exp (ht0 d) \<le> 48 \<and> ht_size_exp (ht1 d) \<le> 48"
  shows "\<exists>n out. kv_scan_run cf n kvs 0 = Some out \<and>
    (\<forall>i k. i < num_dicts kvs \<and> kv_map kvs i k \<noteq> None \<longrightarrow> k \<in> dictGetKey ` set out)"
proof -
  have sc: "scannable ty kvs" using assms by (auto simp: scannable_def scan_exp_def)
  have "0 < num_dicts kvs" by (simp add: num_dicts_def)
  moreover have "addDictIndexToCursor kvs (int 0) 0 = 0" by (simp add: addDictIndexToCursor_def)
  ultimately show ?thesis using scan_from [OF sc, of 0 cf] by auto
qed

text \<open>A store of one dict, in the middle of a rehash.\<close>

definition kv_single :: "(nat, nat) kvstore" where
  "kv_single = \<lparr>on_demand = True, free_empty = True, dicts = [Some dict_sample], num_dicts_bits = 0, rehashing = [0],
     resize_cursor = 0, allocated_dicts = 1, non_empty_dicts = 1, key_count = of_nat (dictSize dict_sample),
     bucket_total = of_nat (dictBuckets dict_sample), dict_sizes = None, overhead_rehashing = 1\<rparr>"

lemma kv_single_inv: "kv_inv dict_sample_type kv_single" "keys_before kv_single (num_dicts kv_single) = dictSize dict_sample"
proof -
  have r: "dict_ready dict_sample_type dict_sample" using dict_sample_inv by (simp add: dict_ready_def dict_sample_def)
  have f: "rehash_from (Some dict_sample) = Some 1" "dictSize dict_sample \<noteq> 0" "dictSize dict_sample < 2 ^ 64"
    by (simp_all add: rehash_from_def dictIsRehashing_def dict_sample_def dictSize_def DICTHT_SIZE_def)
  have "layout_ok dict_sample_type kv_single"
    using r f(1) by (auto simp: layout_ok_def kv_single_def num_dicts_def dict_buckets_def from_size_def)
  moreover have "counts_ok kv_single (kv_sizes kv_single)"
    using f by (simp add: counts_ok_def kv_single_def num_dicts_def kv_sizes_def dict_size_def)
  ultimately show inv: "kv_inv dict_sample_type kv_single" by (simp add: kv_inv_def kv_rel_def)
  show "keys_before kv_single (num_dicts kv_single) = dictSize dict_sample"
    using sum_keys_before [OF inv] by (simp add: kv_sizes_def kv_single_def dict_size_def)
qed

theorem kvstoreScan_visits_all_witness:
  "\<exists>n out. kv_scan_run (\<lambda>_. True) n kv_single 0 = Some out \<and> 7 \<in> dictGetKey ` set out"
proof -
  have "keys_before kv_single (num_dicts kv_single) + 1 < 2 ^ 64"
    using kv_single_inv(2) by (simp add: dict_sample_def dictSize_def)
  moreover have "\<forall>d. Some d \<in> set (dicts kv_single) \<longrightarrow> ht_size_exp (ht0 d) \<le> 48 \<and> ht_size_exp (ht1 d) \<le> 48"
    by (simp add: kv_single_def dict_sample_def)
  moreover have "kv_map kv_single 0 7 \<noteq> None"
    by (simp add: kv_map_def kv_single_def dict_map_keys dict_keys_def) (simp add: dict_sample_def)
  moreover have "0 < num_dicts kv_single" by (simp add: num_dicts_def)
  ultimately show ?thesis using kvstoreScan_visits_all [OF kv_single_inv(1), of "\<lambda>_. True"] by blast
qed

end
