(* ===== verification/Spec2Isabelle.thy ===== *)
theory Spec2Isabelle
  imports Intset Listpack_Spec Util_Text Kvstore_Scan
begin

text \<open>
  Verification of the data structures of the Redis server under \<^verbatim>\<open>src/redis-stable/src\<close>.

  \<^bold>\<open>The program.\<close> The server keeps its keys in a key-value store (\<^verbatim>\<open>kvstore.c\<close>): an array of hash tables
  (\<^verbatim>\<open>dict.c\<close>), one per slot, with the number of keys of each in a Fenwick tree (\<^verbatim>\<open>fwtree.c\<close>) that finds the slot
  of a key by its rank. A hash table grows and shrinks by rehashing a few buckets with every operation, and
  tells the store about it through callbacks. Small values are stored in compact byte strings: sets of
  integers in an intset (\<^verbatim>\<open>intset.c\<close>), lists, hashes and sorted sets in a listpack (\<^verbatim>\<open>listpack.c\<close>). Both use the
  number conversions and the text helpers of \<^verbatim>\<open>util.c\<close>.

  \<^bold>\<open>Conventions.\<close> A computation of type \<^typ>\<open>'a option\<close> is \<^term>\<open>None\<close> when an assertion of the code fails or
  memory outside the object is touched, so a theorem that an operation returns \<^term>\<open>Some\<close> is also its
  memory safety. A pointer into a buffer is the offset, a NULL pointer an inner \<^term>\<open>None\<close>. A buffer is the
  list of its bytes, and its length is the size of the allocation. Machine integers are words, or \<^typ>\<open>nat\<close>
  and \<^typ>\<open>int\<close> with the wrap-around written out where the code relies on it or runs into it; the overflow of a
  signed integer that the code does not rule out is \<^term>\<open>None\<close> as well.

  \<^bold>\<open>The theories.\<close>
  \<^item> \<open>Redis_Base\<close>, \<open>Bytes\<close>: the prelude; bit tricks, reads and writes of a buffer, \<^verbatim>\<open>memmove\<close>, \<^verbatim>\<open>realloc\<close>,
    little-endian integers, and the relation \<open>opt_sim\<close> that carries a decoder into a larger buffer.
  \<^item> \<open>Fwtree\<close>: \<^verbatim>\<open>fwtree.c\<close>. Update, prefix sum and search are those of the list of counters.
  \<^item> \<open>Set_Store\<close>, \<open>Intset\<close>: \<^verbatim>\<open>intset.c\<close>, as an implementation of the interface \<open>set_store\<close>: adding and
    removing with the upgrade to wider encodings, search, and the deep check of serialized intsets.
  \<^item> \<open>Util_Num\<close>, \<open>Glob\<close>, \<open>Util_Text\<close>: \<^verbatim>\<open>util.c\<close>. Printing and parsing of integers and their round trip; the
    glob matcher against a reference semantics of patterns; memory sizes and hexadecimal numbers.
  \<^item> \<open>Listpack_Enc\<close>, \<open>Listpack\<close>, \<open>Listpack_Ops\<close>, \<open>Listpack_Spec\<close>: \<^verbatim>\<open>listpack.c\<close>. The encodings of an entry and
    its back length; the header, navigation, search and validation; every update; and what the updates
    are on the list of elements, including all sequences of updates.
  \<^item> \<open>Op_Machine\<close>: the contract of a structure that is driven by a sequence of calls, from which the
    refinement of whole runs follows; \<open>Dict_Run\<close> and \<open>Kvstore_Run\<close> interpret it.
  \<^item> \<open>Dict\<close>, \<open>Dict_Ops\<close>: \<^verbatim>\<open>dict.c\<close>. The two tables, resizing and rehashing; then lookup, insertion, replacement,
    deletion, two-phase unlinking and clearing. A dict is a record of its fields, a table the list of its
    chains, a link (\<^verbatim>\<open>dictEntryLink\<close>) the table, bucket and position; the log \<open>callbacks\<close> has the calls of
    \<^verbatim>\<open>rehashingStarted\<close>, \<^verbatim>\<open>rehashingCompleted\<close> and \<^verbatim>\<open>bucketChanged\<close>. The hash function, \<^verbatim>\<open>resizeAllowed\<close> and the
    value of \<^verbatim>\<open>dict_can_resize\<close> are parameters.
  \<^item> \<open>Dict_Inv\<close>, \<open>Dict_Find\<close>, \<open>Dict_Correct\<close>, \<open>Dict_Spec\<close>, \<open>Dict_Run\<close>: the invariant, what each operation keeps
    of it and does to the finite map, and then the runs: a dict is a finite map under every sequence of
    calls, a rehash completes, and clearing frees every entry once.
  \<^item> \<open>Dict_Scan\<close>, \<open>Dict_Iter\<close>: the scan with the reversed cursor, which visits every key that stays in the
    dict while its tables are resized, and the iterators.
  \<^item> \<open>Kvstore\<close>, \<open>Kvstore_Inv\<close>, \<open>Kvstore_Spec\<close>, \<open>Kvstore_Run\<close>, \<open>Kvstore_Scan\<close>: \<^verbatim>\<open>kvstore.c\<close> over the models of \<^verbatim>\<open>dict.c\<close>
    and \<^verbatim>\<open>fwtree.c\<close>. The counters that the callbacks and the single operations maintain agree with the dicts
    after every sequence of calls, so the queries by rank, the fair random choice and the scan of all dicts
    are right; \<^verbatim>\<open>kvstoreMoveDict\<close> is shown to leave the count of non-empty dicts wrong.

  \<^bold>\<open>Loops.\<close> Loops are recursive functions with a termination proof, except those whose end depends on
  well-formed data (\<^verbatim>\<open>lpFindCbInternal\<close>, the repeated \<^verbatim>\<open>dictRehash\<close>, the loop of \<^verbatim>\<open>dictScan\<close>), which are partial
  functions whose result is proved to exist. The integrity checks terminate on all bytes. The scan of a
  store counts its calls, and enough calls are proved to exist. A loop that a clock ends
  (\<^verbatim>\<open>dictRehashMicroseconds\<close>, \<^verbatim>\<open>kvstoreIncrementallyRehash\<close>) takes the answers of the clock as an argument.

  \<^bold>\<open>Not modelled.\<close> Of the modelled files: the printer of listpacks, the floating-point conversions and paths
  of \<^verbatim>\<open>util.c\<close>, the random sampling, statistics and defragmentation of \<^verbatim>\<open>dict.c\<close>, the fingerprint of its unsafe
  iterators, callbacks of a scan that change the dict, and the iterators, links and metadata of \<^verbatim>\<open>kvstore.c\<close>.
  Of the repository: networking, persistence, replication, clustering, scripting, modules, the command
  table and the command implementations; the other data structures and checksums; the third-party code
  under \<^verbatim>\<open>deps\<close>; the Python application and its front end. They are input and output, or code of other
  projects, or rest on floating-point numbers and threads.
\<close>

end
